(* ===== verification/Util_Prelude.thy ===== *)
theory Util_Prelude
  imports Main
begin

text \<open>
  Shared foundations of the development: the result type of C routines that may stop the
  program, the machine limits, the character classes of \<open>src/util/sys_defs.h\<close>, and the
  few string functions of the C library that the sources call.

  A C string is represented by the list of its bytes before the terminating null byte, with
  the 8-bit HOL type \<open>char\<close> as the byte. Binary data is a \<open>char list\<close> too.
\<close>

unbundle bit_operations_syntax

named_theorems outcome_simps \<open>evaluation of the sequencing operator on outcomes\<close>
named_theorems ctype_defs \<open>definitions of the character classes\<close>

section \<open>Outcomes\<close>

text \<open>
  What a call can do: return a value, leave through \<open>msg_fatal\<close> or \<open>msg_panic\<close>
  (both end the process, with the routine's message), do something to which C gives no
  meaning (\<open>Fault\<close>: access to memory outside the block it owns, use of a variable without a value,
  overflow of a signed number), or never return (\<open>Diverge\<close>). The code returns normally only in
  the first case; the theorems show when the others cannot happen.
\<close>

datatype 'a outcome = Ok 'a | Fatal string | Panic string | Fault | Diverge

fun obind :: "'a outcome \<Rightarrow> ('a \<Rightarrow> 'b outcome) \<Rightarrow> 'b outcome" where
  "obind (Ok a) f = f a"
| "obind (Fatal m) f = Fatal m"
| "obind (Panic m) f = Panic m"
| "obind Fault f = Fault"
| "obind Diverge f = Diverge"

declare obind.simps [outcome_simps]

lemma obind_assoc [outcome_simps]: "obind (obind x f) g = obind x (\<lambda>a. obind (f a) g)"
  by (cases x) simp_all

lemma obind_Ok_right [simp]: "obind x Ok = x"
  by (cases x) simp_all

lemma obind_eq_Ok [simp]: "obind x f = Ok b \<longleftrightarrow> (\<exists>a. x = Ok a \<and> f a = Ok b)"
  by (cases x) simp_all

lemma obind_cong [fundef_cong]:
  "x = y \<Longrightarrow> (\<And>a. y = Ok a \<Longrightarrow> f a = g a) \<Longrightarrow> obind x f = obind y g"
  by (cases y) auto

text \<open>
  Total correctness of a call: it returns, with a value that satisfies \<open>P\<close>. The
  introduction rules follow the shape of the code.
\<close>

definition returns :: "'a outcome \<Rightarrow> ('a \<Rightarrow> bool) \<Rightarrow> bool" where
  "returns x P \<longleftrightarrow> (\<exists>a. x = Ok a \<and> P a)"

lemma returns_Ok [simp]: "returns (Ok a) P \<longleftrightarrow> P a"
  by (simp add: returns_def)

lemma returns_bind [intro?]:
  "returns x P \<Longrightarrow> (\<And>a. P a \<Longrightarrow> returns (f a) Q) \<Longrightarrow> returns (obind x f) Q"
  by (auto simp: returns_def)

lemma returns_mono: "returns x P \<Longrightarrow> (\<And>a. P a \<Longrightarrow> Q a) \<Longrightarrow> returns x Q"
  by (auto simp: returns_def)

lemma returnsE:
  assumes "returns x P"
  obtains a where "x = Ok a" "P a"
  using assms by (auto simp: returns_def)

text \<open>The weaker contract of a call that may also end the program with an error message.\<close>

definition stops :: "'a outcome \<Rightarrow> ('a \<Rightarrow> bool) \<Rightarrow> bool" where
  "stops x P \<longleftrightarrow> (case x of Ok a \<Rightarrow> P a | Fatal _ \<Rightarrow> True | _ \<Rightarrow> False)"

lemma stops_simps [simp]: "stops (Ok a) P \<longleftrightarrow> P a" "stops (Fatal m) P" "\<not> stops (Panic m) P" "\<not> stops Fault P" "\<not> stops Diverge P"
  by (simp_all add: stops_def)

lemma stops_bind: "stops x P \<Longrightarrow> (\<And>a. P a \<Longrightarrow> stops (f a) Q) \<Longrightarrow> stops (obind x f) Q"
  by (cases x) auto

lemma stops_mono: "stops x P \<Longrightarrow> (\<And>a. P a \<Longrightarrow> Q a) \<Longrightarrow> stops x Q"
  by (cases x) auto

text \<open>A computation that gives the same result as another one whenever that one ends.\<close>

definition extends :: "'a outcome \<Rightarrow> 'a outcome \<Rightarrow> bool" where
  "extends x y \<longleftrightarrow> x = Diverge \<or> x = y"

lemma extends_refl [simp]: "extends x x" and extends_Diverge [simp]: "extends Diverge x"
  by (simp_all add: extends_def)

lemma extends_bind: "extends x y \<Longrightarrow> (\<And>a. extends (f a) (g a)) \<Longrightarrow> extends (obind x f) (obind y g)"
  by (cases x) (fastforce simp: extends_def)+

text \<open>
  Refinement of a component by an abstract one: \<open>R\<close> relates their states, and every legal operation
  of the code returns, in a related state and with the result of the abstract operation. Then
  this holds of every sequence of legal operations. Where every operation is legal, \<open>simulation\<close> is enough.
\<close>

fun run_steps :: "('s \<Rightarrow> 'op \<Rightarrow> ('s \<times> 'r) outcome) \<Rightarrow> 's \<Rightarrow> 'op list \<Rightarrow> ('s \<times> 'r list) outcome" where
  "run_steps step s [] = Ok (s, [])"
| "run_steps step s (op # ops) =
     obind (step s op) (\<lambda>(s, r). obind (run_steps step s ops) (\<lambda>(s, rs). Ok (s, r # rs)))"

fun spec_steps :: "('a \<Rightarrow> 'op \<Rightarrow> 'a \<times> 'r) \<Rightarrow> 'a \<Rightarrow> 'op list \<Rightarrow> 'a \<times> 'r list" where
  "spec_steps astep a [] = (a, [])"
| "spec_steps astep a (op # ops) =
     (let (a, r) = astep a op; (a, rs) = spec_steps astep a ops in (a, r # rs))"

locale legal_simulation =
  fixes R :: "'s \<Rightarrow> 'a \<Rightarrow> bool"
    and step :: "'s \<Rightarrow> 'op \<Rightarrow> ('s \<times> 'r) outcome"
    and astep :: "'a \<Rightarrow> 'op \<Rightarrow> 'a \<times> 'r"
    and legal :: "'op \<Rightarrow> bool"
  assumes step_law:
    "R s a \<Longrightarrow> legal op \<Longrightarrow> returns (step s op) (\<lambda>(s', r). R s' (fst (astep a op)) \<and> r = snd (astep a op))"
begin

lemma run_law:
  "R s a \<Longrightarrow> list_all legal ops \<Longrightarrow>
   returns (run_steps step s ops) (\<lambda>(s', rs). R s' (fst (spec_steps astep a ops)) \<and> rs = snd (spec_steps astep a ops))"
proof (induction ops arbitrary: s a)
  case (Cons op ops)
  obtain s1 where s1: "step s op = Ok (s1, snd (astep a op))" "R s1 (fst (astep a op))"
    using step_law [OF Cons.prems(1), of op] Cons.prems(2) by (auto simp: returns_def)
  then show ?case using Cons.IH [OF s1(2)] Cons.prems(2) by (auto simp: returns_def split: prod.splits)
qed simp

end

locale simulation =
  fixes R :: "'s \<Rightarrow> 'a \<Rightarrow> bool"
    and step :: "'s \<Rightarrow> 'op \<Rightarrow> ('s \<times> 'r) outcome"
    and astep :: "'a \<Rightarrow> 'op \<Rightarrow> 'a \<times> 'r"
  assumes step_law: "R s a \<Longrightarrow> returns (step s op) (\<lambda>(s', r). R s' (fst (astep a op)) \<and> r = snd (astep a op))"

sublocale simulation \<subseteq> any: legal_simulation R step astep "\<lambda>_. True"
  by unfold_locales (rule step_law)

context simulation
begin

lemma run_law:
  "R s a \<Longrightarrow> returns (run_steps step s ops) (\<lambda>(s', rs). R s' (fst (spec_steps astep a ops)) \<and> rs = snd (spec_steps astep a ops))"
  by (rule any.run_law) (simp_all add: list_all_iff)

end

text \<open>A call that never returns (\<open>None\<close> of a partial function) is the outcome \<open>Diverge\<close>.\<close>

definition run :: "'b outcome option \<Rightarrow> 'b outcome" where
  "run x = (case x of None \<Rightarrow> Diverge | Some r \<Rightarrow> r)"

lemma run_Some [simp]: "run (Some r) = r"
  by (simp add: run_def)

text \<open>The largest \<open>ssize_t\<close> on the 64-bit targets (\<open>SSIZE_T_MAX\<close>).\<close>

definition SSIZE_T_MAX :: int where
  "SSIZE_T_MAX = 2 ^ 63 - 1"

text \<open>The value of an expression of type \<open>ssize_t\<close>, whose overflow has no meaning.\<close>

definition ssize_value :: "int \<Rightarrow> int outcome" where
  "ssize_value n = (if - SSIZE_T_MAX - 1 \<le> n \<and> n \<le> SSIZE_T_MAX then Ok n else Fault)"

lemma ssize_value_Ok [simp]: "- SSIZE_T_MAX - 1 \<le> n \<Longrightarrow> n \<le> SSIZE_T_MAX \<Longrightarrow> ssize_value n = Ok n"
  by (simp add: ssize_value_def)

section \<open>Bytes and character classes\<close>

abbreviation ord :: "char \<Rightarrow> nat" where
  "ord c \<equiv> of_char c"

abbreviation NUL :: char where
  "NUL \<equiv> CHR 0x00"

definition ISASCII :: "char \<Rightarrow> bool" where
  "ISASCII c \<longleftrightarrow> ord c < 128"

definition ISDIGIT :: "char \<Rightarrow> bool" where
  "ISDIGIT c \<longleftrightarrow> ISASCII c \<and> 48 \<le> ord c \<and> ord c \<le> 57"

definition ISUPPER :: "char \<Rightarrow> bool" where
  "ISUPPER c \<longleftrightarrow> ISASCII c \<and> 65 \<le> ord c \<and> ord c \<le> 90"

definition ISLOWER :: "char \<Rightarrow> bool" where
  "ISLOWER c \<longleftrightarrow> ISASCII c \<and> 97 \<le> ord c \<and> ord c \<le> 122"

definition ISALPHA :: "char \<Rightarrow> bool" where
  "ISALPHA c \<longleftrightarrow> ISASCII c \<and> (ISUPPER c \<or> ISLOWER c)"

definition ISALNUM :: "char \<Rightarrow> bool" where
  "ISALNUM c \<longleftrightarrow> ISASCII c \<and> (ISALPHA c \<or> ISDIGIT c)"

definition ISSPACE :: "char \<Rightarrow> bool" where
  "ISSPACE c \<longleftrightarrow> ISASCII c \<and> (ord c = 32 \<or> 9 \<le> ord c \<and> ord c \<le> 13)"

definition ISPRINT :: "char \<Rightarrow> bool" where
  "ISPRINT c \<longleftrightarrow> ISASCII c \<and> 32 \<le> ord c \<and> ord c \<le> 126"

definition TOLOWER :: "char \<Rightarrow> char" where
  "TOLOWER c = (if ISUPPER c then char_of (ord c + 32) else c)"

definition TOUPPER :: "char \<Rightarrow> char" where
  "TOUPPER c = (if ISLOWER c then char_of (ord c - 32) else c)"

lemmas ctype_all [ctype_defs] =
  ISASCII_def ISDIGIT_def ISUPPER_def ISLOWER_def ISALPHA_def ISALNUM_def ISSPACE_def ISPRINT_def

lemma ord_eq_zero [simp]: "ord c = 0 \<longleftrightarrow> c = NUL"
proof -
  have "ord NUL = 0" by simp
  then show ?thesis by (metis of_char_eq_iff)
qed

lemma ord_bound [simp]: "ord c < 256"
  by (metis of_char_mod_256 mod_less_divisor zero_less_numeral)

section \<open>Bits of bytes\<close>

text \<open>
  Equalities between bytes composed with shifts and masks are proved bit by bit:
  \<open>char_of_bits\<close> compares the eight bits that a store into a byte keeps, and
  \<open>byte_bits\<close> evaluates them.
\<close>

named_theorems byte_bits \<open>evaluation of single bits of composed bytes\<close>

lemma bit_ord_high [byte_bits]: "8 \<le> n \<Longrightarrow> \<not> bit (ord c) n"
proof -
  assume "8 \<le> n"
  have "take_bit 8 (ord c) = ord c" by (simp add: take_bit_eq_mod)
  then show ?thesis using \<open>8 \<le> n\<close> by (metis bit_take_bit_iff not_less)
qed

lemma char_of_bits:
  assumes "\<And>n. n < 8 \<Longrightarrow> bit x n = bit (ord c) n"
  shows "char_of (x::nat) = c"
proof -
  have "take_bit 8 x = take_bit 8 (ord c)" by (rule bit_eqI) (auto simp: bit_take_bit_iff assms)
  then have "x mod 256 = ord c" by (simp add: take_bit_eq_mod)
  then show ?thesis by (metis char_of_mod_256 char_of_char)
qed

lemma char_of_bits8:
  assumes "bit x 0 = bit (ord c) 0" "bit x 1 = bit (ord c) 1" "bit x 2 = bit (ord c) 2" "bit x 3 = bit (ord c) 3"
    "bit x 4 = bit (ord c) 4" "bit x 5 = bit (ord c) 5" "bit x 6 = bit (ord c) 6" "bit x 7 = bit (ord c) 7"
  shows "char_of (x::nat) = c"
proof (rule char_of_bits)
  fix n :: nat assume "n < 8"
  then have "n \<in> {0, 1, 2, 3, 4, 5, 6, 7}" by auto
  then show "bit x n = bit (ord c) n" using assms by blast
qed

lemma bits_bound: "(\<And>n. k \<le> n \<Longrightarrow> \<not> bit x n) \<Longrightarrow> (x::nat) < 2 ^ k"
  using take_bit_nat_eq_self_iff [of k x] bit_eq_iff [of "take_bit k x" x]
  by (auto simp: bit_take_bit_iff) (meson not_le)

lemma and_masks [byte_bits]:
  "(x::nat) AND 1 = take_bit 1 x" "x AND 3 = take_bit 2 x" "x AND 7 = take_bit 3 x"
  "x AND 15 = take_bit 4 x" "x AND 31 = take_bit 5 x" "x AND 63 = take_bit 6 x"
  "x AND 127 = take_bit 7 x" "x AND 255 = take_bit 8 x"
  by (simp_all add: take_bit_eq_mask mask_eq_exp_minus_1)

lemma Suc_Suc_minus_2 [byte_bits]: "2 \<le> n \<Longrightarrow> Suc (Suc (n - 2)) = n" "\<not> n < 2 \<Longrightarrow> Suc (Suc (n - 2)) = n" "Suc (Suc 0) = 2"
  by simp_all

lemma bit_shifted [byte_bits]:
  "bit (drop_bit k (x::nat)) n = bit x (n + k)"
  "bit (push_bit k x) n \<longleftrightarrow> k \<le> n \<and> bit x (n - k)"
  "bit (take_bit k x) n \<longleftrightarrow> n < k \<and> bit x n"
  "bit (x OR y) n \<longleftrightarrow> bit x n \<or> bit y n"
  "bit (x AND y) n \<longleftrightarrow> bit x n \<and> bit y n"
  by (auto simp: bit_simps add.commute)

section \<open>List lemmas\<close>

lemma dropWhile_shorter: "xs \<noteq> [] \<Longrightarrow> P (hd xs) \<Longrightarrow> length (dropWhile P xs) < length xs"
  by (cases xs) (auto simp: length_dropWhile_le le_imp_less_Suc)

lemma takeWhile_nonempty: "xs \<noteq> [] \<Longrightarrow> P (hd xs) \<Longrightarrow> takeWhile P xs \<noteq> []"
  by (cases xs) auto

lemma takeWhile_app: "list_all P xs \<Longrightarrow> ys = [] \<or> \<not> P (hd ys) \<Longrightarrow> takeWhile P (xs @ ys) = xs"
  by (induction xs) (cases ys, auto)

lemma dropWhile_app: "list_all P xs \<Longrightarrow> ys = [] \<or> \<not> P (hd ys) \<Longrightarrow> dropWhile P (xs @ ys) = ys"
  by (induction xs) (cases ys, auto)

section \<open>Fields\<close>

text \<open>The texts between the delimiters.\<close>

fun fields_of :: "char \<Rightarrow> string \<Rightarrow> string list" where
  "fields_of d [] = [[]]"
| "fields_of d (c # s) = (if c = d then [] # fields_of d s else (c # hd (fields_of d s)) # tl (fields_of d s))"

lemma fields_nonempty [simp]: "fields_of d s \<noteq> []"
  by (induction s) auto

lemma fields_Cons: "\<exists>f fs. fields_of d s = f # fs"
  by (meson fields_nonempty list.exhaust)

lemma fields_nil_iff: "hd (fields_of d s) = [] \<longleftrightarrow> s = [] \<or> hd s = d"
  by (cases s) auto

lemma fields_hd: "hd (fields_of d s) = takeWhile (\<lambda>c. c \<noteq> d) s"
  by (induction s) auto

lemma fields_tl: "tl (fields_of d s) = (case dropWhile (\<lambda>c. c \<noteq> d) s of [] \<Rightarrow> [] | _ # r \<Rightarrow> fields_of d r)"
  by (induction s) auto

lemma fields_join: "fields_of d s = f # fs \<Longrightarrow> s = f @ (if fs = [] then [] else d # drop (length f + 1) s) \<and>
  (fs \<noteq> [] \<longrightarrow> fields_of d (drop (length f + 1) s) = fs)"
proof (induction s arbitrary: f fs)
  case (Cons c s)
  show ?case
  proof (cases "c = d")
    case False
    obtain g gs where g: "fields_of d s = g # gs" using fields_Cons by blast
    then show ?thesis using Cons False by auto
  qed (use Cons in auto)
qed simp

lemma fields_no_delim: "f \<in> set (fields_of d s) \<Longrightarrow> d \<notin> set f"
proof (induction s arbitrary: f)
  case (Cons c s)
  obtain g gs where "fields_of d s = g # gs" using fields_Cons by blast
  with Cons show ?case by (auto split: if_splits)
qed simp

lemma fields_keep: "c \<in> set s \<Longrightarrow> c \<noteq> d \<Longrightarrow> \<exists>f \<in> set (fields_of d s). c \<in> set f"
proof (induction s)
  case (Cons x s)
  obtain g gs where "fields_of d s = g # gs" using fields_Cons by blast
  with Cons show ?case by (auto split: if_splits)
qed simp

lemma fields_look:
  assumes "fields_of d r = g # fs"
  shows "r \<noteq> [] \<and> hd r = d \<longleftrightarrow> g = [] \<and> fs \<noteq> []" "r \<noteq> [] \<and> hd r \<noteq> d \<and> P (hd r) \<longleftrightarrow> g \<noteq> [] \<and> P (hd g)"
proof -
  have "r = [] \<and> g = [] \<and> fs = [] \<or> (\<exists>c r'. r = c # r' \<and> (if c = d then g = [] \<and> fs \<noteq> [] else hd g = c \<and> g \<noteq> []))"
    using assms by (cases r) (auto split: if_splits)
  then show "r \<noteq> [] \<and> hd r = d \<longleftrightarrow> g = [] \<and> fs \<noteq> []" "r \<noteq> [] \<and> hd r \<noteq> d \<and> P (hd r) \<longleftrightarrow> g \<noteq> [] \<and> P (hd g)"
    by (auto split: if_splits)
qed

section \<open>C library string functions\<close>

text \<open>\<open>strspn\<close> and \<open>strcspn\<close>: length of the longest prefix inside / outside a set.\<close>

definition strspn :: "string \<Rightarrow> string \<Rightarrow> nat" where
  "strspn s accept = length (takeWhile (\<lambda>c. c \<in> set accept) s)"

definition strcspn :: "string \<Rightarrow> string \<Rightarrow> nat" where
  "strcspn s reject = length (takeWhile (\<lambda>c. c \<notin> set reject) s)"

lemma drop_strspn [simp]: "drop (strspn s accept) s = dropWhile (\<lambda>c. c \<in> set accept) s"
  by (simp add: strspn_def dropWhile_eq_drop)

lemma take_strcspn [simp]: "take (strcspn s reject) s = takeWhile (\<lambda>c. c \<notin> set reject) s"
  by (metis strcspn_def takeWhile_eq_take)

lemma drop_strcspn [simp]: "drop (strcspn s reject) s = dropWhile (\<lambda>c. c \<notin> set reject) s"
  by (simp add: strcspn_def dropWhile_eq_drop)

text \<open>
  \<open>strchr\<close> and \<open>strrchr\<close> return a pointer into the string, here its offset. As in C,
  the terminating null byte is part of the string.
\<close>

fun strchr :: "string \<Rightarrow> char \<Rightarrow> nat option" where
  "strchr [] c = (if c = NUL then Some 0 else None)"
| "strchr (x # xs) c = (if x = c then Some 0 else map_option Suc (strchr xs c))"

fun strrchr :: "string \<Rightarrow> char \<Rightarrow> nat option" where
  "strrchr [] c = (if c = NUL then Some 0 else None)"
| "strrchr (x # xs) c =
     (case strrchr xs c of
        Some i \<Rightarrow> Some (Suc i)
      | None \<Rightarrow> if x = c then Some 0 else None)"

text \<open>\<open>strcmp\<close>: the sign of the first difference, bytes compared as unsigned.\<close>

fun strcmp :: "string \<Rightarrow> string \<Rightarrow> int" where
  "strcmp [] [] = 0"
| "strcmp [] (y # ys) = -1"
| "strcmp (x # xs) [] = 1"
| "strcmp (x # xs) (y # ys) =
     (if ord x < ord y then -1 else if ord y < ord x then 1 else strcmp xs ys)"

lemma strcmp_eq_0 [simp]: "strcmp s t = 0 \<longleftrightarrow> s = t"
proof (induction s t rule: strcmp.induct)
  case (4 x xs y ys)
  then show ?case by (auto simp: linorder_neq_iff)
qed simp_all

lemma strcmp_sum: "strcmp s t + strcmp t s = 0"
  by (induction s t rule: strcmp.induct) auto

lemma strcmp_swap: "strcmp t s = - strcmp s t"
  using strcmp_sum [of s t] by linarith

lemma strcmp_trans: "strcmp s t \<le> 0 \<Longrightarrow> strcmp t u \<le> 0 \<Longrightarrow> strcmp s u \<le> 0"
proof (induction s t arbitrary: u rule: strcmp.induct)
  case (2 y ys)
  then show ?case by (cases u) auto
next
  case (4 x xs y ys)
  from 4 obtain z zs where u: "u = z # zs" by (cases u) auto
  have xy: "ord x \<le> ord y" and yz: "ord y \<le> ord z" using "4.prems" u by (auto split: if_splits)
  show ?case
  proof (cases "ord x = ord y \<and> ord y = ord z")
    case True
    then have "strcmp xs zs \<le> 0" using "4.IH" [of zs] "4.prems" u by simp
    with True u show ?thesis by simp
  next
    case False
    then have "ord x < ord z" using xy yz by linarith
    then show ?thesis using u by simp
  qed
qed auto

definition strcasecmp :: "string \<Rightarrow> string \<Rightarrow> int" where
  "strcasecmp s t = strcmp (map TOLOWER s) (map TOLOWER t)"

lemma strcasecmp_eq_0: "strcasecmp s t = 0 \<longleftrightarrow> map TOLOWER s = map TOLOWER t"
  by (simp add: strcasecmp_def)

end
