(* ===== verification/Stringops.thy ===== *)
theory Stringops
  imports Util_Prelude
begin

text \<open>
  The string helpers of \<open>src/util/stringops.h\<close>, one C file each: character tests, case
  conversion, blank trimming, splitting at a delimiter, the tokenizers of \<open>mystrtok.c\<close>,
  balanced parentheses (\<open>balpar.c\<close>, \<open>extpar.c\<close>) and the name-value splitters.

  A routine that overwrites its argument and hands out pointers into it is a function from
  the text to the texts those pointers show afterwards. A pair of parentheses, a two-byte
  string in C, is given by its opening and closing byte.
\<close>

section \<open>Character tests\<close>

text \<open>\<open>allascii_len\<close> stops at \<open>len\<close> or at the end of the string; a negative \<open>len\<close> is its length.\<close>

definition allascii_len :: "string \<Rightarrow> int \<Rightarrow> bool" where
  "allascii_len s len =
     (let len = (if len < 0 then int (length s) else len)
      in if len = 0 then False else list_all ISASCII (take (nat len) s))"

fun alldig_from :: "string \<Rightarrow> bool" where
  "alldig_from [] = True"
| "alldig_from (c # cp) = (if \<not> ISDIGIT c then False else alldig_from cp)"

definition alldig :: "string \<Rightarrow> bool" where
  "alldig s = (if s = [] then False else alldig_from s)"

fun allprint_from :: "string \<Rightarrow> bool" where
  "allprint_from [] = True"
| "allprint_from (c # cp) = (if \<not> ISASCII c \<or> \<not> ISPRINT c then False else allprint_from cp)"

definition allprint :: "string \<Rightarrow> bool" where
  "allprint s = (if s = [] then False else allprint_from s)"

fun allspace_from :: "string \<Rightarrow> bool" where
  "allspace_from [] = True"
| "allspace_from (c # cp) = (if \<not> ISASCII c \<or> \<not> ISSPACE c then False else allspace_from cp)"

definition allspace :: "string \<Rightarrow> bool" where
  "allspace s = (if s = [] then False else allspace_from s)"

section \<open>In-place conversions\<close>

fun lowercase :: "string \<Rightarrow> string" where
  "lowercase [] = []"
| "lowercase (c # cp) = (if ISUPPER c then TOLOWER c else c) # lowercase cp"

fun uppercase :: "string \<Rightarrow> string" where
  "uppercase [] = []"
| "uppercase (c # cp) = (if ISLOWER c then TOUPPER c else c) # uppercase cp"

fun neuter :: "string \<Rightarrow> string \<Rightarrow> char \<Rightarrow> string" where
  "neuter [] bad replacement = []"
| "neuter (c # cp) bad replacement =
     (if c \<in> set bad then replacement else c) # neuter cp bad replacement"

text \<open>\<open>printable\<close>; the flag is the global \<open>util_utf8_enable\<close>.\<close>

definition utf8_tail :: "char \<Rightarrow> bool" where
  "utf8_tail c \<longleftrightarrow> 128 \<le> ord c \<and> ord c < 192"

function printable :: "bool \<Rightarrow> string \<Rightarrow> char \<Rightarrow> string" where
  "printable utf8 [] replacement = []"
| "printable utf8 (c # cp) replacement =
     (if ISASCII c \<and> ISPRINT c then c # printable utf8 cp replacement
      else if utf8 \<and> 194 \<le> ord c \<and> ord c \<le> 254 \<and> cp \<noteq> [] \<and> utf8_tail (hd cp)
      then c # takeWhile utf8_tail cp @ printable utf8 (dropWhile utf8_tail cp) replacement
      else replacement # printable utf8 cp replacement)"
  by pat_completeness auto
termination
  by (relation "measure (\<lambda>(_, s, _). length s)")
    (auto simp: length_dropWhile_le le_imp_less_Suc)

text \<open>
  \<open>translit\<close>: the byte at the position of the first match. Just behind the replacement text
  that is its null byte; further on the read is outside the string.
\<close>

definition translit_char :: "char \<Rightarrow> string \<Rightarrow> string \<Rightarrow> char outcome" where
  "translit_char c original replacement =
     (let i = length (takeWhile (\<lambda>x. c \<noteq> x) original) in
      if i < length original then
        (if i < length replacement then Ok (replacement ! i)
         else if i = length replacement then Ok NUL else Fault)
      else Ok c)"

fun translit :: "string \<Rightarrow> string \<Rightarrow> string \<Rightarrow> string outcome" where
  "translit [] original replacement = Ok []"
| "translit (c # cp) original replacement =
     obind (translit_char c original replacement) (\<lambda>c.
     obind (translit cp original replacement) (\<lambda>cp. Ok (c # cp)))"

section \<open>Pointers into a string\<close>

definition skipblanks :: "string \<Rightarrow> string" where
  "skipblanks s = dropWhile ISSPACE s"

text \<open>\<open>trimblanks\<close> returns the position behind the last byte that is not blank.\<close>

fun trim_back :: "string \<Rightarrow> nat \<Rightarrow> nat" where
  "trim_back s 0 = 0"
| "trim_back s (Suc n) = (if ISSPACE (s ! n) then trim_back s n else Suc n)"

definition trimblanks :: "string \<Rightarrow> nat \<Rightarrow> nat" where
  "trimblanks s len = trim_back s (if len \<noteq> 0 then len else length s)"

definition basename :: "string \<Rightarrow> string" where
  "basename path =
     (case strrchr path CHR ''/'' of None \<Rightarrow> path | Some i \<Rightarrow> drop (i + 1) path)"

text \<open>\<open>split_at\<close> and \<open>split_at_right\<close>: what is left of the string, and the remainder.\<close>

definition split_at :: "string \<Rightarrow> char \<Rightarrow> string \<times> string option" where
  "split_at s delimiter =
     (case strchr s delimiter of None \<Rightarrow> (s, None) | Some i \<Rightarrow> (take i s, Some (drop (i + 1) s)))"

definition split_at_right :: "string \<Rightarrow> char \<Rightarrow> string \<times> string option" where
  "split_at_right s delimiter =
     (case strrchr s delimiter of None \<Rightarrow> (s, None) | Some i \<Rightarrow> (take i s, Some (drop (i + 1) s)))"

fun concatenate :: "string \<Rightarrow> string list \<Rightarrow> string" where
  "concatenate result [] = result"
| "concatenate result (arg # ap) = concatenate (result @ arg) ap"

section \<open>Tokenizers\<close>

text \<open>\<open>mystrtok\<close>: the next token, if any, and the updated buffer position.\<close>

definition mystrtok :: "string \<Rightarrow> string \<Rightarrow> string option \<times> string" where
  "mystrtok src sep =
     (let start = drop (strspn src sep) src in
      if start = [] then (None, start)
      else let n = strcspn start sep; rest = drop n start in
           (Some (take n start), if rest \<noteq> [] then tl rest else rest))"

fun mystrtokq_scan :: "string \<Rightarrow> char \<Rightarrow> char \<Rightarrow> nat \<Rightarrow> string \<Rightarrow> string \<times> string" where
  "mystrtokq_scan sep p0 p1 level [] = ([], [])"
| "mystrtokq_scan sep p0 p1 level (ch # cp) =
     (if ch = p0 then
        (let (tok, src) = mystrtokq_scan sep p0 p1 (level + 1) cp in (ch # tok, src))
      else if level > 0 \<and> ch = p1 then
        (let (tok, src) = mystrtokq_scan sep p0 p1 (level - 1) cp in (ch # tok, src))
      else if level = 0 \<and> ch \<in> set sep then ([], cp)
      else (let (tok, src) = mystrtokq_scan sep p0 p1 level cp in (ch # tok, src)))"

definition mystrtokq :: "string \<Rightarrow> string \<Rightarrow> char \<Rightarrow> char \<Rightarrow> string option \<times> string" where
  "mystrtokq src sep p0 p1 =
     (let start = drop (strspn src sep) src in
      if start = [] then (None, start)
      else let (tok, src) = mystrtokq_scan sep p0 p1 0 start in (Some tok, src))"

section \<open>Parentheses\<close>

fun balpar_scan :: "char \<Rightarrow> char \<Rightarrow> nat \<Rightarrow> nat \<Rightarrow> string \<Rightarrow> nat" where
  "balpar_scan p0 p1 level pos [] = 0"
| "balpar_scan p0 p1 level pos (ch # cp) =
     (if ch = p1 then
        (if level - 1 = 0 then pos + 1 else balpar_scan p0 p1 (level - 1) (pos + 1) cp)
      else if ch = p0 then balpar_scan p0 p1 (level + 1) (pos + 1) cp
      else balpar_scan p0 p1 level (pos + 1) cp)"

definition balpar :: "string \<Rightarrow> char \<Rightarrow> char \<Rightarrow> nat" where
  "balpar s p0 p1 =
     (case s of [] \<Rightarrow> 0 | c # cp \<Rightarrow> if c \<noteq> p0 then 0 else balpar_scan p0 p1 1 1 cp)"

text \<open>\<open>extpar\<close>: the error text, if any, and the text the buffer pointer shows.\<close>

definition extpar :: "string \<Rightarrow> char \<Rightarrow> char \<Rightarrow> bool \<Rightarrow> (string option \<times> string) outcome" where
  "extpar bp p0 p1 strip =
     (if bp = [] \<or> hd bp \<noteq> p0 then Panic ''extpar: no parenthesis at start of text''
      else let len = balpar bp p0 p1;
             (err, cp, len) =
               (if len = 0
                then (Some (concatenate ''missing '' [[CHR 0x27], [p1], [CHR 0x27], '' in '', [CHR 0x22], bp, [CHR 0x22]]),
                      drop 1 bp, 0)
                else (if len < length bp
                      then Some (concatenate ''syntax error after '' [[CHR 0x27], [p1], [CHR 0x27], '' in '', [CHR 0x22], bp, [CHR 0x22]])
                      else None, take (len - 2) (drop 1 bp), len - 2))
         in Ok (err, if strip then skipblanks (take (trimblanks cp len) cp) else cp))"

section \<open>Name-value text\<close>

datatype nameval_error =
    Missing_attribute_name
  | Missing_equals
  | No_key_found
  | Unbalanced_quotes

definition trim_right :: "string \<Rightarrow> string" where
  "trim_right s = take (trim_back s (length s)) s"

definition split_nameval :: "string \<Rightarrow> nameval_error + (string \<times> string)" where
  "split_nameval buf =
     (let np = dropWhile ISSPACE buf in
      if np = [] then Inl Missing_attribute_name
      else let name = takeWhile (\<lambda>c. \<not> ISSPACE c \<and> c \<noteq> CHR ''='') np;
               ep = dropWhile (\<lambda>c. \<not> ISSPACE c \<and> c \<noteq> CHR ''='') np;
               cp = dropWhile ISSPACE ep
           in if cp = [] \<or> hd cp \<noteq> CHR ''='' then Inl Missing_equals
              else Inr (name, trim_right (dropWhile ISSPACE (tl cp))))"

fun split_qkey :: "bool \<Rightarrow> string \<Rightarrow> string \<times> string \<times> bool" where
  "split_qkey q [] = ([], [], q)"
| "split_qkey q (c # cs) =
     (if c = CHR 0x5C then
        (case cs of
           [] \<Rightarrow> ([c], [], q)
         | d # ds \<Rightarrow> (let (k, rest, q') = split_qkey q ds in (c # d # k, rest, q')))
      else if ISSPACE c \<or> c = CHR ''='' then
        (if \<not> q then ([], c # cs, q)
         else (let (k, rest, q') = split_qkey q cs in (c # k, rest, q')))
      else if c = CHR 0x22 then
        (let (k, rest, q') = split_qkey (\<not> q) cs in (c # k, rest, q'))
      else (let (k, rest, q') = split_qkey q cs in (c # k, rest, q')))"

definition split_qnameval :: "string \<Rightarrow> nameval_error + (string \<times> string)" where
  "split_qnameval buf =
     (let key = dropWhile ISSPACE buf in
      if key = [] then Inl No_key_found
      else let (k, key_end, in_quotes) = split_qkey False key in
        if in_quotes then Inl Unbalanced_quotes
        else let value = dropWhile ISSPACE key_end in
          if value = [] \<or> hd value \<noteq> CHR ''='' then Inl Missing_equals
          else let value = dropWhile ISSPACE (tl value) in
            Inr (k, take (trimblanks value 0) value))"

section \<open>Facts about the helpers\<close>

lemma alldig_iff: "alldig s \<longleftrightarrow> s \<noteq> [] \<and> list_all ISDIGIT s"
proof -
  have "alldig_from s \<longleftrightarrow> list_all ISDIGIT s" by (induction s) auto
  then show ?thesis by (simp add: alldig_def)
qed

lemma lowercase_map: "lowercase s = map TOLOWER s"
  by (induction s) (auto simp: TOLOWER_def)

lemma trim_back_append:
  "n \<le> length s \<Longrightarrow> take (trim_back s n) s = rev (dropWhile ISSPACE (rev (take n s)))"
  by (induction n) (auto simp: take_Suc_conv_app_nth)

lemma trim_right_eq: "trim_right s = rev (dropWhile ISSPACE (rev s))"
  using trim_back_append [of "length s" s] by (simp add: trim_right_def)

lemma trim_right_app_blank:
  "list_all ISSPACE ws \<Longrightarrow> v = [] \<or> \<not> ISSPACE (last v) \<Longrightarrow> trim_right (v @ ws) = v"
  using dropWhile_app [of ISSPACE "rev ws" "rev v"] by (auto simp: trim_right_eq hd_rev list_all_iff)

lemma strrchr_None: "strrchr s c = None \<longleftrightarrow> c \<notin> set (s @ [NUL])"
  by (induction s) (auto split: option.splits)

section \<open>The token loop\<close>

text \<open>
  The loop \<open>while ((arg = mystrtok(&bp, sep)) != 0)\<close> of the callers, as the list of the
  tokens it visits.
\<close>

lemma mystrtok_eq:
  assumes "st = dropWhile (\<lambda>c. c \<in> set sep) src" "e = dropWhile (\<lambda>c. c \<notin> set sep) st"
  shows "mystrtok src sep =
    (if st = [] then (None, []) else (Some (takeWhile (\<lambda>c. c \<notin> set sep) st), if e \<noteq> [] then tl e else e))"
  unfolding mystrtok_def Let_def drop_strspn take_strcspn drop_strcspn assms(2) assms(1) by simp

lemma mystrtok_shorter:
  assumes "mystrtok src sep = (Some tok, src')"
  shows "length src' < length src"
proof -
  define st where "st = dropWhile (\<lambda>c. c \<in> set sep) src"
  define e where "e = dropWhile (\<lambda>c. c \<notin> set sep) st"
  have st: "st \<noteq> []" and src': "src' = (if e \<noteq> [] then tl e else e)"
    using assms mystrtok_eq [OF st_def e_def] by (auto split: if_splits)
  have "hd st \<notin> set sep" using st unfolding st_def by (rule hd_dropWhile)
  then have "length e < length st" unfolding e_def using st by (intro dropWhile_shorter)
  also have "\<dots> \<le> length src" unfolding st_def by (rule length_dropWhile_le)
  finally show ?thesis by (auto simp: src')
qed

function strtok_all :: "string \<Rightarrow> string \<Rightarrow> string list" where
  "strtok_all bp sep =
     (case mystrtok bp sep of (None, _) \<Rightarrow> [] | (Some arg, bp) \<Rightarrow> arg # strtok_all bp sep)"
  by pat_completeness auto
termination
  by (relation "measure (\<lambda>(bp, _). length bp)") (auto dest: mystrtok_shorter [OF sym])

declare strtok_all.simps [simp del]

text \<open>The meaning: cut at every delimiter, drop the empty pieces.\<close>

fun cut_at :: "char set \<Rightarrow> string \<Rightarrow> string list" where
  "cut_at D [] = [[]]"
| "cut_at D (c # cs) =
     (if c \<in> D then [] # cut_at D cs
      else case cut_at D cs of [] \<Rightarrow> [[c]] | w # ws \<Rightarrow> (c # w) # ws)"

definition words_of :: "char set \<Rightarrow> string \<Rightarrow> string list" where
  "words_of D s = filter (\<lambda>w. w \<noteq> []) (cut_at D s)"

lemma cut_at_nonempty [simp]: "cut_at D s \<noteq> []"
  by (cases s) (auto split: list.split)

lemma cut_at_run:
  "\<forall>c \<in> set w. c \<notin> D \<Longrightarrow> cut_at D (w @ s) = (w @ hd (cut_at D s)) # tl (cut_at D s)"
  by (induction w) (auto split: list.split)

lemma words_of_delims: "words_of D (dropWhile (\<lambda>c. c \<in> D) s) = words_of D s"
  by (induction s) (auto simp: words_of_def)

lemma words_of_token:
  assumes "w \<noteq> []" "\<forall>c \<in> set w. c \<notin> D" "s = [] \<or> hd s \<in> D"
  shows "words_of D (w @ s) = w # words_of D (if s = [] then [] else tl s)"
proof (cases s)
  case Nil
  with assms cut_at_run [of w D "[]"] show ?thesis by (simp add: words_of_def)
next
  case (Cons d ds)
  with assms cut_at_run [of w D s] show ?thesis by (simp add: words_of_def)
qed

lemma cut_at_delim: "d \<in> D \<Longrightarrow> cut_at D (xs @ d # ys) = cut_at D xs @ cut_at D ys"
  by (induction xs) (auto split: list.split)

lemma words_of_all_delims: "set ds \<subseteq> D \<Longrightarrow> words_of D ds = []"
  by (induction ds) (auto simp: words_of_def)

lemma words_of_trailing: "set ds \<subseteq> D \<Longrightarrow> words_of D (s @ ds) = words_of D s"
  using words_of_all_delims [of "tl ds" D] by (cases ds) (auto simp: words_of_def cut_at_delim)

lemma words_of_leading: "set ds \<subseteq> D \<Longrightarrow> words_of D (ds @ s) = words_of D s"
  by (induction ds) (auto simp: words_of_def)

text \<open>A token is cut off with the delimiters before it and the one behind it.\<close>

lemma mystrtok_prefix:
  assumes "mystrtok src sep = (Some w, src')"
  obtains pre where "src = pre @ src'"
    and "\<And>x y. src' = x @ y \<Longrightarrow> words_of (set sep) (pre @ x) = w # words_of (set sep) x"
proof -
  define st where "st = dropWhile (\<lambda>c. c \<in> set sep) src"
  define e where "e = dropWhile (\<lambda>c. c \<notin> set sep) st"
  note tok = mystrtok_eq [OF st_def e_def]
  have st: "st \<noteq> []" and w: "w = takeWhile (\<lambda>c. c \<notin> set sep) st" and src': "src' = (if e \<noteq> [] then tl e else e)"
    using assms tok by (auto split: if_splits)
  have e: "e = [] \<or> hd e \<in> set sep" using hd_dropWhile [of "\<lambda>c. c \<notin> set sep" st] by (auto simp: e_def)
  have ws: "w \<noteq> []" unfolding w using st hd_dropWhile [OF st [unfolded st_def]] by (intro takeWhile_nonempty) (simp_all add: st_def)
  define ds where "ds = takeWhile (\<lambda>c. c \<in> set sep) src"
  have "src = ds @ w @ e" by (simp add: ds_def w e_def st_def)
  then have "src = (ds @ w @ take 1 e) @ src'" unfolding src' by (cases e) auto
  moreover have "words_of (set sep) ((ds @ w @ take 1 e) @ x) = w # words_of (set sep) x" if "src' = x @ y" for x y
  proof -
    have "words_of (set sep) ((ds @ w @ take 1 e) @ x) = words_of (set sep) (w @ take 1 e @ x)"
      using words_of_leading [of ds "set sep"] by (auto simp: ds_def dest: set_takeWhileD)
    also have "\<dots> = w # words_of (set sep) (if take 1 e @ x = [] then [] else tl (take 1 e @ x))"
      using ws e that src' by (intro words_of_token) (cases e; auto simp: w dest: set_takeWhileD)+
    also have "\<dots> = w # words_of (set sep) x" using that src' by (cases e) auto
    finally show ?thesis .
  qed
  ultimately show thesis by (rule that)
qed

lemma strtok_all_words: "strtok_all s sep = words_of (set sep) s"
proof (induction "length s" arbitrary: s rule: less_induct)
  case less
  define st where "st = dropWhile (\<lambda>c. c \<in> set sep) s"
  define w where "w = takeWhile (\<lambda>c. c \<notin> set sep) st"
  define e where "e = dropWhile (\<lambda>c. c \<notin> set sep) st"
  note tok = mystrtok_eq [OF st_def e_def, folded w_def]
  have st: "words_of (set sep) s = words_of (set sep) st" by (simp add: st_def words_of_delims)
  show ?case
  proof (cases "st = []")
    case True
    with st tok show ?thesis by (subst strtok_all.simps) (simp add: words_of_def)
  next
    case False
    then have hd: "hd st \<notin> set sep" unfolding st_def by (rule hd_dropWhile)
    have "words_of (set sep) st = words_of (set sep) (w @ e)" by (simp add: w_def e_def)
    also have "\<dots> = w # words_of (set sep) (if e = [] then [] else tl e)"
    proof (rule words_of_token)
      show "w \<noteq> []" unfolding w_def using False hd by (rule takeWhile_nonempty)
      show "\<forall>c \<in> set w. c \<notin> set sep" by (auto simp: w_def dest: set_takeWhileD)
      show "e = [] \<or> hd e \<in> set sep"
        using hd_dropWhile [of "\<lambda>c. c \<notin> set sep" st] by (auto simp: e_def)
    qed
    also have "\<dots> = strtok_all s sep"
      using less [of "if e \<noteq> [] then tl e else e"] mystrtok_shorter [of s sep w] tok False
      by (subst strtok_all.simps) (auto split: if_splits)
    finally show ?thesis using st by simp
  qed
qed

section \<open>Properties\<close>

text \<open>Opening minus closing parentheses of a text.\<close>

definition depth :: "char \<Rightarrow> char \<Rightarrow> string \<Rightarrow> int" where
  "depth p0 p1 s = int (count_list s p0) - int (count_list s p1)"

lemma depth_Nil [simp]: "depth p0 p1 [] = 0"
  by (simp add: depth_def)

lemma depth_Cons: "p0 \<noteq> p1 \<Longrightarrow>
  depth p0 p1 (c # s) = (if c = p0 then 1 else if c = p1 then -1 else 0) + depth p0 p1 s"
  by (simp add: depth_def)

text \<open>\<open>k\<close> more bytes close a group that is \<open>level\<close> deep, and no fewer do.\<close>

definition closes :: "char \<Rightarrow> char \<Rightarrow> int \<Rightarrow> string \<Rightarrow> nat \<Rightarrow> bool" where
  "closes p0 p1 level s k \<longleftrightarrow> k \<le> length s \<and> level + depth p0 p1 (take k s) = 0 \<and>
     (\<forall>m < k. 0 < level + depth p0 p1 (take m s))"

lemma closes_Cons:
  assumes "p0 \<noteq> p1" "0 < level"
  shows "closes p0 p1 level (c # s) (Suc k) \<longleftrightarrow>
    closes p0 p1 (level + (if c = p0 then 1 else if c = p1 then -1 else 0)) s k"
proof -
  have all: "(\<forall>m < Suc k. P m) \<longleftrightarrow> P 0 \<and> (\<forall>m < k. P (Suc m))" for P by (metis gr0_conv_Suc less_Suc_eq_0_disj)
  show ?thesis unfolding closes_def all using assms by (auto simp: depth_Cons algebra_simps)
qed

lemma closes_0: "0 < level \<Longrightarrow> \<not> closes p0 p1 level s 0"
  by (simp add: closes_def)

lemma balpar_scan_closes:
  assumes "p0 \<noteq> p1"
  shows "0 < level \<Longrightarrow> 0 < n \<Longrightarrow> balpar_scan p0 p1 level pos s = n \<longleftrightarrow>
    (\<exists>k. n = pos + k \<and> closes p0 p1 (int level) s k)"
proof (induction s arbitrary: level pos)
  case Nil
  then show ?case by (auto simp: closes_def)
next
  case (Cons c s)
  have split: "(\<exists>k. n = pos + k \<and> closes p0 p1 (int level) (c # s) k) \<longleftrightarrow>
      (\<exists>k. n = Suc pos + k \<and> closes p0 p1 (int level + (if c = p0 then 1 else if c = p1 then -1 else 0)) s k)"
    using Cons.prems(1) closes_0 [of "int level"] closes_Cons [OF assms, of "int level"]
    by (metis add_Suc_right add_Suc not0_implies_Suc of_nat_0_less_iff)
  have one: "closes p0 p1 0 s k \<longleftrightarrow> k = 0" for k
    by (auto simp: closes_def intro!: gr0I)
  show ?case
  proof (cases "c = p1 \<and> level = 1")
    case True
    with assms show ?thesis unfolding split by (auto simp: one)
  next
    case False
    with assms Cons show ?thesis unfolding split
      by (auto simp: of_nat_diff algebra_simps)
  qed
qed

text \<open>
  \<open>balpar\<close> returns the length of the balanced group at the start of the text: the
  result is \<open>n > 0\<close> exactly when the text starts with the opening parenthesis, its first
  \<open>n\<close> bytes have as many closing as opening parentheses, and every shorter non-empty prefix
  has more opening ones. Otherwise the result is 0.
\<close>
lemma balpar_group:
  assumes "p0 \<noteq> p1" "0 < n"
  shows "balpar s p0 p1 = n \<longleftrightarrow>
    s \<noteq> [] \<and> hd s = p0 \<and> n \<le> length s \<and> depth p0 p1 (take n s) = 0 \<and>
    (\<forall>m. 0 < m \<and> m < n \<longrightarrow> 0 < depth p0 p1 (take m s))"
proof (cases s)
  case Nil
  with assms show ?thesis by (auto simp: balpar_def)
next
  case (Cons c cp)
  have "balpar_scan p0 p1 1 1 cp = n \<longleftrightarrow> closes p0 p1 1 cp (n - 1)"
    using balpar_scan_closes [OF assms(1) _ assms(2), of 1 1 cp] assms(2)
    by (metis Suc_pred' add_diff_cancel_left' of_nat_1 plus_1_eq_Suc zero_less_one)
  also have "\<dots> \<longleftrightarrow> n \<le> length (p0 # cp) \<and> depth p0 p1 (take n (p0 # cp)) = 0 \<and>
      (\<forall>m. 0 < m \<and> m < n \<longrightarrow> 0 < depth p0 p1 (take m (p0 # cp)))"
  proof -
    obtain k where n: "n = Suc k" using assms(2) gr0_implies_Suc by blast
    have "(\<forall>m. 0 < m \<and> m < Suc k \<longrightarrow> Q m) \<longleftrightarrow> (\<forall>m < k. Q (Suc m))" for Q
      by (metis Suc_less_eq gr0_implies_Suc zero_less_Suc)
    with assms(1) show ?thesis by (simp add: closes_def n depth_Cons)
  qed
  finally show ?thesis using Cons assms(2) by (auto simp: balpar_def)
qed

definition blank :: "string \<Rightarrow> bool" where
  "blank s \<longleftrightarrow> list_all ISSPACE s"

definition trimmed :: "string \<Rightarrow> bool" where
  "trimmed v \<longleftrightarrow> v = [] \<or> \<not> ISSPACE (hd v) \<and> \<not> ISSPACE (last v)"

lemma equals_not_space [simp]: "\<not> ISSPACE CHR ''=''"
  by (simp add: ctype_defs)

lemma trim_right_trimmed: "trimmed (trim_right (dropWhile ISSPACE s))"
  and trim_right_split: "\<exists>w. blank w \<and> s = trim_right s @ w"
proof -
  have "s = trim_right s @ rev (takeWhile ISSPACE (rev s))"
    unfolding trim_right_eq by (metis rev_append rev_rev_ident takeWhile_dropWhile_id)
  moreover have "blank (rev (takeWhile ISSPACE (rev s)))"
    by (auto simp: blank_def list_all_iff dest: set_takeWhileD)
  ultimately show "\<exists>w. blank w \<and> s = trim_right s @ w" by blast
  let ?v = "trim_right (dropWhile ISSPACE s)"
  show "trimmed ?v"
  proof (cases "?v = []")
    case False
    then have d: "dropWhile ISSPACE (rev (dropWhile ISSPACE s)) \<noteq> []" by (simp add: trim_right_eq)
    then have "\<not> ISSPACE (last ?v)" by (simp add: trim_right_eq last_rev hd_dropWhile)
    moreover have "hd ?v = hd (dropWhile ISSPACE s)"
      using False trim_back_append [of _ "dropWhile ISSPACE s"] by (metis hd_take trim_right_def take_eq_Nil2 zero_less_iff_neq_zero)
    moreover have "dropWhile ISSPACE s \<noteq> []" using d by (metis dropWhile.simps(1) rev.simps(1))
    ultimately show ?thesis using hd_dropWhile [of ISSPACE s] by (simp add: trimmed_def)
  qed (simp add: trimmed_def)
qed

lemma dropWhile_blank: "blank w \<Longrightarrow> dropWhile ISSPACE (w @ s) = dropWhile ISSPACE s"
  by (simp add: blank_def dropWhile_append2 list_all_iff)

lemma blank_prefix: "\<exists>w. blank w \<and> s = w @ dropWhile ISSPACE s"
proof (intro exI conjI)
  show "s = takeWhile ISSPACE s @ dropWhile ISSPACE s" by simp
  show "blank (takeWhile ISSPACE s)" by (auto simp: blank_def list_all_iff dest: set_takeWhileD)
qed

lemma trimmed_trim:
  assumes "trimmed v" "blank w"
  shows "trim_right (dropWhile ISSPACE (v @ w)) = v"
proof (cases v)
  case Nil
  then show ?thesis using dropWhile_blank [OF assms(2), of "[]"] by (simp add: trim_right_def)
next
  case (Cons c cs)
  with assms have "dropWhile ISSPACE (v @ w) = v @ w" by (simp add: trimmed_def)
  with assms show ?thesis by (auto simp: trimmed_def blank_def intro!: trim_right_app_blank)
qed

text \<open>The name stops at a blank or an equals sign.\<close>

abbreviation name_char :: "char \<Rightarrow> bool" where
  "name_char c \<equiv> \<not> ISSPACE c \<and> c \<noteq> CHR ''=''"

lemma name_scan:
  assumes "list_all name_char n" "blank w"
  shows "dropWhile ISSPACE (dropWhile name_char (n @ w @ CHR ''='' # s)) = CHR ''='' # s"
    "takeWhile name_char (n @ w @ CHR ''='' # s) = n"
proof -
  have stop: "w @ CHR ''='' # s = [] \<or> \<not> name_char (hd (w @ CHR ''='' # s))"
    using assms(2) by (cases w) (auto simp: blank_def)
  show "takeWhile name_char (n @ w @ CHR ''='' # s) = n"
    using takeWhile_app [OF assms(1) stop] .
  show "dropWhile ISSPACE (dropWhile name_char (n @ w @ CHR ''='' # s)) = CHR ''='' # s"
    unfolding dropWhile_app [OF assms(1) stop] by (simp add: dropWhile_blank [OF assms(2)])
qed

text \<open>
  \<open>split_nameval\<close> succeeds exactly on text of the form \<open>name = value\<close> with any blanks
  around the three parts, where the name has no blank and no equals sign, and it delivers
  that name and the value without the blanks around it. The name may be empty.
\<close>
lemma split_nameval_form:
  "split_nameval buf = Inr (n, v) \<longleftrightarrow>
   (\<exists>w1 w2 w3 w4. blank w1 \<and> blank w2 \<and> blank w3 \<and> blank w4 \<and> list_all name_char n \<and> trimmed v \<and>
      buf = w1 @ n @ w2 @ ''='' @ w3 @ v @ w4)" (is "?L \<longleftrightarrow> ?R")
proof
  assume ?L
  define np where "np = dropWhile ISSPACE buf"
  define ep where "ep = dropWhile name_char np"
  define cp where "cp = dropWhile ISSPACE ep"
  from \<open>?L\<close> have cp: "cp \<noteq> []" "hd cp = CHR ''=''" and n: "n = takeWhile name_char np"
    and v: "v = trim_right (dropWhile ISSPACE (tl cp))"
    by (auto simp: split_nameval_def Let_def np_def ep_def cp_def split: if_splits)
  obtain w1 where w1: "blank w1" "buf = w1 @ np" using blank_prefix unfolding np_def by blast
  obtain w2 where w2: "blank w2" "ep = w2 @ cp" using blank_prefix unfolding cp_def by blast
  obtain w3 where w3: "blank w3" "tl cp = w3 @ dropWhile ISSPACE (tl cp)" using blank_prefix by blast
  obtain w4 where w4: "blank w4" "dropWhile ISSPACE (tl cp) = v @ w4"
    using trim_right_split [of "dropWhile ISSPACE (tl cp)"] unfolding v by blast
  have "np = n @ ep" by (simp add: n ep_def)
  moreover have "cp = CHR ''='' # w3 @ v @ w4" using cp w3(2) w4(2) by (metis list.collapse)
  ultimately have "buf = w1 @ n @ w2 @ ''='' @ w3 @ v @ w4" using w1 w2 by simp
  moreover have "list_all name_char n" by (auto simp: n list_all_iff dest: set_takeWhileD)
  moreover have "trimmed v" unfolding v by (rule trim_right_trimmed)
  ultimately show ?R using w1 w2 w3 w4 by blast
next
  assume ?R
  then obtain w1 w2 w3 w4 where w: "blank w1" "blank w2" "blank w3" "blank w4" "list_all name_char n" "trimmed v"
    and buf: "buf = w1 @ n @ w2 @ CHR ''='' # w3 @ v @ w4" by auto
  define w2' where "w2' = (if n = [] then [] else w2)"
  have np: "dropWhile ISSPACE buf = n @ w2' @ CHR ''='' # w3 @ v @ w4"
    using w unfolding buf w2'_def by (cases n) (simp_all add: dropWhile_blank)
  have "blank w2'" using w(2) by (simp add: w2'_def blank_def)
  from name_scan [OF w(5) this] show ?L
    using trimmed_trim [OF w(6,4)]
    by (simp add: split_nameval_def Let_def np dropWhile_blank [OF w(3)] del: dropWhile_eq_Nil_conv)
qed

end
