(* ===== verification/Argv.thy ===== *)
theory Argv
  imports Stringops "HOL-Library.Multiset"
begin

text \<open>
  String arrays: \<open>src/util/argv.c\<close>, \<open>src/util/argv_split.c\<close> and
  \<open>src/util/argv_splitq.c\<close>.

  A slot of the pointer array holds a string, a null pointer, or whatever the allocator
  left there (\<open>Junk\<close>). The array has \<open>len + 1\<close> slots. \<open>av_holds a ss\<close> is the
  representation invariant: the strings \<open>ss\<close> come first, then the null pointer that ends
  the array, and \<open>argc < len\<close>. Every operation is shown to be the list operation it
  stands for; the splitters are the word lists of the tokenizers.
\<close>

section \<open>The array\<close>

datatype slot = Junk | Null | Str string

record argv =
  av_len :: nat
  av_argc :: nat
  av_argv :: "slot list"

definition slot_read :: "slot list \<Rightarrow> nat \<Rightarrow> slot outcome" where
  "slot_read arr i = (if i < length arr then Ok (arr ! i) else Fault)"

definition slot_write :: "slot list \<Rightarrow> nat \<Rightarrow> slot \<Rightarrow> slot list outcome" where
  "slot_write arr i s = (if i < length arr then Ok (arr[i := s]) else Fault)"

text \<open>\<open>myfree\<close> of the string in a slot.\<close>

fun myfree :: "slot \<Rightarrow> unit outcome" where
  "myfree (Str s) = Ok ()"
| "myfree Null = Panic ''myfree: null pointer input''"
| "myfree Junk = Fault"

definition put_slot :: "argv \<Rightarrow> nat \<Rightarrow> slot \<Rightarrow> argv outcome" where
  "put_slot a i s = obind (slot_write (av_argv a) i s) (\<lambda>arr. Ok (a\<lparr>av_argv := arr\<rparr>))"

section \<open>Operations\<close>

definition argv_alloc :: "int \<Rightarrow> argv outcome" where
  "argv_alloc len =
     (let sane_len = (if len < 2 then 2 else nat len)
      in put_slot \<lparr>av_len = sane_len, av_argc = 0, av_argv = replicate (sane_len + 1) Junk\<rparr> 0 Null)"

text \<open>The loop \<open>for (pos = from; pos < to; pos++) myfree(argv[pos])\<close>, over \<open>k\<close> slots.\<close>

fun free_slots :: "slot list \<Rightarrow> nat \<Rightarrow> nat \<Rightarrow> unit outcome" where
  "free_slots arr pos 0 = Ok ()"
| "free_slots arr pos (Suc k) =
     obind (slot_read arr pos) (\<lambda>s. obind (myfree s) (\<lambda>_. free_slots arr (Suc pos) k))"

definition argv_free :: "argv \<Rightarrow> unit outcome" where
  "argv_free a = free_slots (av_argv a) 0 (av_argc a)"

definition argv_extend :: "argv \<Rightarrow> argv" where
  "argv_extend a =
     (let new_len = av_len a * 2
      in a\<lparr>av_argv := take (new_len + 1) (av_argv a) @ replicate (new_len + 1 - length (av_argv a)) Junk,
           av_len := new_len\<rparr>)"

definition ARGV_SPACE_LEFT :: "argv \<Rightarrow> int" where
  "ARGV_SPACE_LEFT a = int (av_len a) - int (av_argc a) - 1"

definition argv_push :: "argv \<Rightarrow> string \<Rightarrow> argv outcome" where
  "argv_push a s =
     (let a = (if ARGV_SPACE_LEFT a \<le> 0 then argv_extend a else a)
      in obind (put_slot a (av_argc a) (Str s)) (\<lambda>a. Ok (a\<lparr>av_argc := av_argc a + 1\<rparr>)))"

fun argv_add_loop :: "argv \<Rightarrow> string list \<Rightarrow> argv outcome" where
  "argv_add_loop a [] = Ok a"
| "argv_add_loop a (arg # ap) = obind (argv_push a arg) (\<lambda>a. argv_add_loop a ap)"

definition argv_terminate :: "argv \<Rightarrow> argv outcome" where
  "argv_terminate a = put_slot a (av_argc a) Null"

definition argv_add :: "argv \<Rightarrow> string list \<Rightarrow> argv outcome" where
  "argv_add a args = obind (argv_add_loop a args) (\<lambda>a. put_slot a (av_argc a) Null)"

fun argv_addn_loop :: "argv \<Rightarrow> (string \<times> int) list \<Rightarrow> argv outcome" where
  "argv_addn_loop a [] = Ok a"
| "argv_addn_loop a ((arg, len) # ap) =
     (if len < 0 then Panic ''argv_addn: bad string length''
      else obind (argv_push a (take (nat len) arg)) (\<lambda>a. argv_addn_loop a ap))"

definition argv_addn :: "argv \<Rightarrow> (string \<times> int) list \<Rightarrow> argv outcome" where
  "argv_addn a args = obind (argv_addn_loop a args) (\<lambda>a. put_slot a (av_argc a) Null)"

definition argv_truncate :: "argv \<Rightarrow> int \<Rightarrow> argv outcome" where
  "argv_truncate a len =
     (if len < 0 then Panic ''argv_truncate: bad length''
      else if len < int (av_argc a) then
        obind (free_slots (av_argv a) (nat len) (av_argc a - nat len)) (\<lambda>_.
        let a = a\<lparr>av_argc := nat len\<rparr> in put_slot a (av_argc a) Null)
      else Ok a)"

text \<open>The loop \<open>for (pos = argc; pos >= where; pos--) argv[pos + 1] = argv[pos]\<close>.\<close>

fun shift_up :: "slot list \<Rightarrow> nat \<Rightarrow> nat \<Rightarrow> slot list outcome" where
  "shift_up arr pos wh =
     (if pos \<ge> wh then
        obind (slot_read arr pos) (\<lambda>s.
        obind (slot_write arr (pos + 1) s) (\<lambda>arr.
        if pos = 0 then Ok arr else shift_up arr (pos - 1) wh))
      else Ok arr)"

declare shift_up.simps [simp del]

definition argv_insert_one :: "argv \<Rightarrow> int \<Rightarrow> string \<Rightarrow> argv outcome" where
  "argv_insert_one a wh arg =
     (if wh < 0 \<or> wh > int (av_argc a) then Panic ''argv_insert_one bad position''
      else let a = (if ARGV_SPACE_LEFT a \<le> 0 then argv_extend a else a) in
           obind (shift_up (av_argv a) (av_argc a) (nat wh)) (\<lambda>arr.
           obind (put_slot (a\<lparr>av_argv := arr\<rparr>) (nat wh) (Str arg)) (\<lambda>a.
           Ok (a\<lparr>av_argc := av_argc a + 1\<rparr>))))"

definition argv_replace_one :: "argv \<Rightarrow> int \<Rightarrow> string \<Rightarrow> argv outcome" where
  "argv_replace_one a wh arg =
     (if wh < 0 \<or> wh \<ge> int (av_argc a) then Panic ''argv_replace_one bad position''
      else obind (slot_read (av_argv a) (nat wh)) (\<lambda>temp.
           obind (put_slot a (nat wh) (Str arg)) (\<lambda>a.
           obind (myfree temp) (\<lambda>_. Ok a))))"

text \<open>The loop \<open>argv[pos] = argv[pos + how_many]\<close> with \<open>pos\<close> going up, \<open>k\<close> times.\<close>

fun shift_down :: "slot list \<Rightarrow> nat \<Rightarrow> nat \<Rightarrow> nat \<Rightarrow> slot list outcome" where
  "shift_down arr pos how_many 0 = Ok arr"
| "shift_down arr pos how_many (Suc k) =
     obind (slot_read arr (pos + how_many)) (\<lambda>s.
     obind (slot_write arr pos s) (\<lambda>arr. shift_down arr (Suc pos) how_many k))"

text \<open>
  The range check of \<open>argv_delete\<close> adds two \<open>ssize_t\<close> values; a sum that is none is a fault.
\<close>

definition argv_delete :: "argv \<Rightarrow> int \<Rightarrow> int \<Rightarrow> argv outcome" where
  "argv_delete a first how_many =
     (if first < 0 \<or> how_many < 0 then Panic ''argv_delete bad range''
      else obind (ssize_value (first + how_many)) (\<lambda>last_pos.
           if last_pos > int (av_argc a) then Panic ''argv_delete bad range''
           else obind (free_slots (av_argv a) (nat first) (nat how_many)) (\<lambda>_.
                obind (shift_down (av_argv a) (nat first) (nat how_many)
                         (av_argc a - nat how_many + 1 - nat first)) (\<lambda>arr.
                Ok (a\<lparr>av_argv := arr, av_argc := av_argc a - nat how_many\<rparr>)))))"

text \<open>
  \<open>argv_sort\<close> hands the first \<open>argc\<close> slots to \<open>qsort\<close> with \<open>argv_cmp\<close>. Strings that
  compare equal are equal, so every correct sorting function has the same result;
  insertion computes it.
\<close>

fun argv_cmp :: "slot \<Rightarrow> slot \<Rightarrow> int" where
  "argv_cmp (Str s1) (Str s2) = strcmp s1 s2"
| "argv_cmp _ _ = 0"

fun insert_cmp :: "('a \<Rightarrow> 'a \<Rightarrow> int) \<Rightarrow> 'a \<Rightarrow> 'a list \<Rightarrow> 'a list" where
  "insert_cmp cmp x [] = [x]"
| "insert_cmp cmp x (y # ys) = (if cmp x y \<le> 0 then x # y # ys else y # insert_cmp cmp x ys)"

definition qsort :: "('a \<Rightarrow> 'a \<Rightarrow> int) \<Rightarrow> 'a list \<Rightarrow> 'a list" where
  "qsort cmp xs = foldr (insert_cmp cmp) xs []"

definition argv_sort :: "argv \<Rightarrow> argv" where
  "argv_sort a =
     a\<lparr>av_argv := qsort argv_cmp (take (av_argc a) (av_argv a)) @ drop (av_argc a) (av_argv a)\<rparr>"

section \<open>Splitters\<close>

lemma mystrtokq_scan_shorter: "length (snd (mystrtokq_scan sep p0 p1 level cp)) \<le> length cp - 1"
proof (induction sep p0 p1 level cp rule: mystrtokq_scan.induct)
  case (2 sep p0 p1 level ch cp)
  then show ?case by (auto simp: Let_def split: prod.splits)
qed simp

lemma mystrtokq_shorter:
  assumes "mystrtokq src sep p0 p1 = (Some tok, src')"
  shows "length src' < length src"
proof -
  define st where "st = dropWhile (\<lambda>c. c \<in> set sep) src"
  have "st \<noteq> []" "src' = snd (mystrtokq_scan sep p0 p1 0 st)"
    using assms by (auto simp: mystrtokq_def st_def Let_def simp del: dropWhile_eq_Nil_conv split: prod.splits if_splits)
  moreover have "length st \<le> length src" unfolding st_def by (rule length_dropWhile_le)
  ultimately show ?thesis
    using mystrtokq_scan_shorter [of sep p0 p1 0 st] by (cases st) auto
qed

function argv_split_append_loop :: "argv \<Rightarrow> string \<Rightarrow> string \<Rightarrow> argv outcome" where
  "argv_split_append_loop a bp delim =
     (case mystrtok bp delim of
        (None, _) \<Rightarrow> Ok a
      | (Some arg, bp) \<Rightarrow> obind (argv_add a [arg]) (\<lambda>a. argv_split_append_loop a bp delim))"
  by pat_completeness auto
termination
  by (relation "measure (\<lambda>(_, bp, _). length bp)") (auto dest: mystrtok_shorter [OF sym])

declare argv_split_append_loop.simps [simp del]

definition argv_split_append :: "argv \<Rightarrow> string \<Rightarrow> string \<Rightarrow> argv outcome" where
  "argv_split_append a str delim = obind (argv_split_append_loop a str delim) argv_terminate"

definition argv_split :: "string \<Rightarrow> string \<Rightarrow> argv outcome" where
  "argv_split str delim =
     obind (argv_alloc 1) (\<lambda>a. obind (argv_split_append_loop a str delim) argv_terminate)"

text \<open>The counted loop, \<open>cnt\<close> being its remaining number of rounds; it returns \<open>bp\<close> too.\<close>

fun argv_split_count_loop :: "nat \<Rightarrow> argv \<Rightarrow> string \<Rightarrow> string \<Rightarrow> (argv \<times> string) outcome" where
  "argv_split_count_loop 0 a bp delim = Ok (a, bp)"
| "argv_split_count_loop (Suc cnt) a bp delim =
     (case mystrtok bp delim of
        (None, bp) \<Rightarrow> Ok (a, bp)
      | (Some arg, bp) \<Rightarrow> obind (argv_add a [arg]) (\<lambda>a. argv_split_count_loop cnt a bp delim))"

text \<open>The rest of the string after the counted loop becomes the last element.\<close>

definition argv_add_rest :: "argv \<Rightarrow> string \<Rightarrow> string \<Rightarrow> argv outcome" where
  "argv_add_rest a bp delim =
     (let bp = (if bp \<noteq> [] then drop (strspn bp delim) bp else bp)
      in obind (if bp \<noteq> [] then argv_add a [bp] else Ok a) argv_terminate)"

definition argv_split_count :: "string \<Rightarrow> string \<Rightarrow> int \<Rightarrow> argv outcome" where
  "argv_split_count str delim cnt =
     obind (argv_alloc 1) (\<lambda>a.
     if cnt < 1 then Panic ''argv_split_count: bad count''
     else obind (argv_split_count_loop (nat (cnt - 1)) a str delim) (\<lambda>(a, bp). argv_add_rest a bp delim))"

function argv_splitq_append_loop :: "argv \<Rightarrow> string \<Rightarrow> string \<Rightarrow> char \<Rightarrow> char \<Rightarrow> argv outcome" where
  "argv_splitq_append_loop a bp delim p0 p1 =
     (case mystrtokq bp delim p0 p1 of
        (None, _) \<Rightarrow> Ok a
      | (Some arg, bp) \<Rightarrow> obind (argv_add a [arg]) (\<lambda>a. argv_splitq_append_loop a bp delim p0 p1))"
  by pat_completeness auto
termination
  by (relation "measure (\<lambda>(_, bp, _). length bp)") (auto dest: mystrtokq_shorter [OF sym])

declare argv_splitq_append_loop.simps [simp del]

definition argv_splitq_append :: "argv \<Rightarrow> string \<Rightarrow> string \<Rightarrow> char \<Rightarrow> char \<Rightarrow> argv outcome" where
  "argv_splitq_append a str delim p0 p1 = obind (argv_splitq_append_loop a str delim p0 p1) argv_terminate"

definition argv_splitq :: "string \<Rightarrow> string \<Rightarrow> char \<Rightarrow> char \<Rightarrow> argv outcome" where
  "argv_splitq str delim p0 p1 =
     obind (argv_alloc 1) (\<lambda>a. obind (argv_splitq_append_loop a str delim p0 p1) argv_terminate)"

fun argv_splitq_count_loop :: "nat \<Rightarrow> argv \<Rightarrow> string \<Rightarrow> string \<Rightarrow> char \<Rightarrow> char \<Rightarrow> (argv \<times> string) outcome" where
  "argv_splitq_count_loop 0 a bp delim p0 p1 = Ok (a, bp)"
| "argv_splitq_count_loop (Suc cnt) a bp delim p0 p1 =
     (case mystrtokq bp delim p0 p1 of
        (None, bp) \<Rightarrow> Ok (a, bp)
      | (Some arg, bp) \<Rightarrow> obind (argv_add a [arg]) (\<lambda>a. argv_splitq_count_loop cnt a bp delim p0 p1))"

definition argv_splitq_count :: "string \<Rightarrow> string \<Rightarrow> char \<Rightarrow> char \<Rightarrow> int \<Rightarrow> argv outcome" where
  "argv_splitq_count str delim p0 p1 cnt =
     obind (argv_alloc 1) (\<lambda>a.
     if cnt < 1 then Panic ''argv_splitq_count: bad count''
     else obind (argv_splitq_count_loop (nat (cnt - 1)) a str delim p0 p1) (\<lambda>(a, bp). argv_add_rest a bp delim))"

section \<open>Representation\<close>

text \<open>\<open>av_open\<close>: the strings are in place, the array need not be terminated.\<close>

definition av_open :: "argv \<Rightarrow> string list \<Rightarrow> bool" where
  "av_open a ss \<longleftrightarrow> length (av_argv a) = av_len a + 1 \<and> length ss < av_len a \<and> av_argc a = length ss \<and>
     take (length ss) (av_argv a) = map Str ss"

definition av_holds :: "argv \<Rightarrow> string list \<Rightarrow> bool" where
  "av_holds a ss \<longleftrightarrow> av_open a ss \<and> av_argv a ! length ss = Null"

lemma av_holds_open: "av_holds a ss \<Longrightarrow> av_open a ss"
  by (simp add: av_holds_def)

lemma av_open_rest: "av_open a ss \<Longrightarrow> \<exists>rest. av_argv a = map Str ss @ rest \<and> rest \<noteq> []"
  unfolding av_open_def
  by (rule exI [of _ "drop (length ss) (av_argv a)"]) (auto, metis append_take_drop_id)

lemma av_openI:
  "av_argv a = map Str ss @ rest \<Longrightarrow> length (av_argv a) = av_len a + 1 \<Longrightarrow> length ss < av_len a \<Longrightarrow>
     av_argc a = length ss \<Longrightarrow> av_open a ss"
  by (simp add: av_open_def)

lemma av_extend_open: "av_open a ss \<Longrightarrow> av_open (argv_extend a) ss \<and> Suc (length ss) < av_len (argv_extend a)"
  by (auto simp: av_open_def argv_extend_def Let_def)

lemma av_extend_nth: "av_open a ss \<Longrightarrow> i \<le> length ss \<Longrightarrow> av_argv (argv_extend a) ! i = av_argv a ! i"
  by (auto simp: av_open_def argv_extend_def Let_def nth_append)

lemma put_slot_terminate: "av_open a ss \<Longrightarrow> returns (put_slot a (av_argc a) Null) (\<lambda>a. av_holds a ss)"
  by (auto simp: put_slot_def slot_write_def av_open_def av_holds_def)

lemma argv_push_ok:
  assumes "av_open a ss"
  shows "returns (argv_push a s) (\<lambda>a. av_open a (ss @ [s]))"
proof -
  define b where "b = (if ARGV_SPACE_LEFT a \<le> 0 then argv_extend a else a)"
  have b: "av_open b ss" "Suc (length ss) < av_len b"
    using assms av_extend_open [OF assms] by (auto simp: b_def ARGV_SPACE_LEFT_def av_open_def)
  then show ?thesis
    unfolding argv_push_def Let_def b_def [symmetric]
    by (auto simp: put_slot_def slot_write_def av_open_def take_Suc_conv_app_nth)
qed

lemma argv_add_loop_ok: "av_open a ss \<Longrightarrow> returns (argv_add_loop a args) (\<lambda>a. av_open a (ss @ args))"
proof (induction args arbitrary: a ss)
  case (Cons s args)
  have "returns (argv_add_loop a' args) (\<lambda>a. av_open a (ss @ s # args))" if "av_open a' (ss @ [s])" for a'
    using Cons.IH [OF that] by simp
  then show ?case using argv_push_ok [OF Cons.prems] by (auto intro!: returns_bind)
qed simp

lemma argv_addn_loop_ok:
  "av_open a ss \<Longrightarrow> \<forall>(_, len) \<in> set args. 0 \<le> len \<Longrightarrow>
     returns (argv_addn_loop a args) (\<lambda>a. av_open a (ss @ map (\<lambda>(arg, len). take (nat len) arg) args))"
proof (induction args arbitrary: a ss)
  case (Cons p args)
  obtain s n where p: "p = (s, n)" by force
  have "returns (argv_addn_loop a' args) (\<lambda>a. av_open a (ss @ take (nat n) s # map (\<lambda>(arg, len). take (nat len) arg) args))"
    if "av_open a' (ss @ [take (nat n) s])" for a'
    using Cons.IH [OF that] Cons.prems(2) by simp
  then show ?case using argv_push_ok [OF Cons.prems(1)] Cons.prems(2) p by (auto intro!: returns_bind)
qed simp

lemma argv_addn_loop_bad:
  "av_open a ss \<Longrightarrow> \<exists>(_, len) \<in> set args. len < 0 \<Longrightarrow> argv_addn_loop a args = Panic ''argv_addn: bad string length''"
proof (induction args arbitrary: a ss)
  case (Cons p args)
  obtain s n where p: "p = (s, n)" by force
  obtain a' where "argv_push a (take (nat n) s) = Ok a'" "av_open a' (ss @ [take (nat n) s])"
    using argv_push_ok [OF Cons.prems(1), of "take (nat n) s"] by (auto simp: returns_def)
  then show ?case using Cons.IH [of a'] Cons.prems(2) p by (cases "n < 0") auto
qed simp

lemma argv_add_ok:
  assumes "av_holds a ss"
  shows "returns (argv_add a args) (\<lambda>a. av_holds a (ss @ args))"
  unfolding argv_add_def
  by (rule returns_bind [OF argv_add_loop_ok [OF av_holds_open [OF assms]] put_slot_terminate])

lemma argv_alloc_ok: "returns (argv_alloc len) (\<lambda>a. av_holds a [])"
  by (auto simp: argv_alloc_def put_slot_def slot_write_def av_holds_def av_open_def Let_def)

lemma free_slots_ok: "av_open a ss \<Longrightarrow> pos + k \<le> length ss \<Longrightarrow> free_slots (av_argv a) pos k = Ok ()"
proof (induction k arbitrary: pos)
  case (Suc k)
  have "av_argv a ! pos = Str (ss ! pos)"
    using Suc.prems by (auto simp: av_open_def dest!: arg_cong [where f = "\<lambda>xs. xs ! pos"])
  then show ?case using Suc by (auto simp: slot_read_def av_open_def)
qed simp

lemma argv_truncate_ok:
  assumes "av_holds a ss" "0 \<le> len"
  shows "returns (argv_truncate a len) (\<lambda>a. av_holds a (take (nat len) ss))"
proof (cases "len < int (length ss)")
  case True
  have "av_open (a\<lparr>av_argc := nat len\<rparr>) (take (nat len) ss)"
    using assms True by (auto simp: av_holds_def av_open_def min_def take_map [symmetric] dest: arg_cong [where f = "take (nat len)"])
  then have "returns (put_slot (a\<lparr>av_argc := nat len\<rparr>) (nat len) Null) (\<lambda>a. av_holds a (take (nat len) ss))"
    using put_slot_terminate by fastforce
  moreover have "free_slots (av_argv a) (nat len) (length ss - nat len) = Ok ()" "av_argc a = length ss"
    using free_slots_ok [OF av_holds_open [OF assms(1)], of "nat len" "length ss - nat len"] True assms
    by (auto simp: av_holds_def av_open_def)
  ultimately show ?thesis using assms(2) True by (simp add: argv_truncate_def)
qed (use assms in \<open>auto simp: argv_truncate_def av_holds_def av_open_def\<close>)

lemma argv_replace_ok:
  assumes "av_holds a ss" "i < length ss"
  shows "returns (argv_replace_one a (int i) s) (\<lambda>a. av_holds a (ss[i := s]))"
proof -
  obtain rest where r: "av_argv a = map Str ss @ rest" using av_open_rest [OF av_holds_open [OF assms(1)]] by auto
  then have "av_argv a ! i = Str (ss ! i)" using assms(2) by (simp add: nth_append)
  then show ?thesis
    using assms r by (auto simp: argv_replace_one_def slot_read_def put_slot_def slot_write_def av_holds_def av_open_def
        list_update_append map_update nth_append)
qed

lemma shift_up_ok:
  "ys \<noteq> [] \<Longrightarrow> shift_up (xs @ ys @ z # rest) (length xs + length ys - 1) (length xs) = Ok (xs @ hd ys # ys @ rest)"
proof (induction ys arbitrary: z rest rule: rev_induct)
  case (snoc y ys)
  have w: "(xs @ (ys @ [y]) @ z # rest)[Suc (length xs + length ys) := y] = xs @ ys @ y # y # rest"
    by (simp add: list_update_append)
  show ?case
  proof (cases "ys = []")
    case True
    have "xs \<noteq> [] \<Longrightarrow> \<not> length xs \<le> length xs - Suc 0" by (cases xs) auto
    then have stop: "xs \<noteq> [] \<Longrightarrow> shift_up arr (length xs - Suc 0) (length xs) = Ok arr" for arr
      by (subst shift_up.simps) simp
    from True w show ?thesis
      by (subst shift_up.simps) (auto simp: slot_read_def slot_write_def nth_append stop)
  next
    case False
    with w snoc.IH [of y "y # rest"] show ?thesis
      by (subst shift_up.simps) (simp add: slot_read_def slot_write_def nth_append)
  qed
qed simp

lemma argv_insert_ok:
  assumes "av_holds a ss" "i \<le> length ss"
  shows "returns (argv_insert_one a (int i) s) (\<lambda>a. av_holds a (take i ss @ s # drop i ss))"
proof -
  define b where "b = (if ARGV_SPACE_LEFT a \<le> 0 then argv_extend a else a)"
  have b: "av_open b ss" "Suc (length ss) < av_len b" "av_argv b ! length ss = Null"
    using assms av_extend_open [OF av_holds_open [OF assms(1)]] av_extend_nth [OF av_holds_open [OF assms(1)]]
    by (auto simp: b_def ARGV_SPACE_LEFT_def av_open_def av_holds_def)
  then obtain r where r: "av_argv b = map Str ss @ r" using av_open_rest by blast
  have "length r = av_len b + 1 - length ss" using b(1) r by (auto simp: av_open_def)
  with b(2) obtain r0 z rest where r0: "r = r0 # z # rest" by (cases r; cases "tl r") auto
  with b(3) r have arr: "av_argv b = map Str (take i ss) @ (map Str (drop i ss) @ [Null]) @ z # rest"
    by (simp add: nth_append map_append [symmetric] del: map_append)
  have sh: "shift_up (av_argv b) (length ss) i =
      Ok (map Str (take i ss) @ hd (map Str (drop i ss) @ [Null]) # (map Str (drop i ss) @ [Null]) @ rest)"
    using shift_up_ok [of "map Str (drop i ss) @ [Null]" "map Str (take i ss)" z rest] assms(2) arr by simp
  have up: "(map Str (take i ss) @ x # ys)[i := Str s] = map Str (take i ss @ [s]) @ ys" for x ys
    using assms(2) by (simp add: list_update_append)
  show ?thesis
    using assms b(1,2) sh up arr
    unfolding argv_insert_one_def Let_def b_def [symmetric]
    by (auto simp: put_slot_def slot_write_def av_holds_def av_open_def nth_append min_def Suc_diff_le)
qed

lemma shift_down_ok:
  "\<exists>z. length z = length gap \<and> shift_down (xs @ gap @ ys @ rest) (length xs) (length gap) (length ys) = Ok (xs @ ys @ z @ rest)"
proof (induction ys arbitrary: xs gap)
  case (Cons y ys)
  have w: "(xs @ gap @ y # ys @ rest)[length xs := y] = (xs @ [y]) @ tl (gap @ [y]) @ ys @ rest"
    by (cases gap) (simp_all add: list_update_append)
  show ?case using Cons.IH [where xs = "xs @ [y]" and gap = "tl (gap @ [y])"] w
    by (auto simp: slot_read_def slot_write_def nth_append)
qed simp

lemma argv_delete_ok:
  assumes "av_holds a ss" "first + n \<le> length ss" "int (first + n) \<le> SSIZE_T_MAX"
  shows "returns (argv_delete a (int first) (int n)) (\<lambda>a. av_holds a (take first ss @ drop (first + n) ss))"
proof -
  obtain r where r: "av_argv a = map Str ss @ Null # r"
    using av_open_rest [OF av_holds_open [OF assms(1)]] assms(1) by (auto simp: av_holds_def nth_append neq_Nil_conv)
  define gap where "gap = map Str (take n (drop first ss))"
  define ys where "ys = map Str (drop (first + n) ss) @ [Null]"
  have arr: "av_argv a = map Str (take first ss) @ gap @ ys @ r"
    using r by (simp add: gap_def ys_def map_append [symmetric] del: map_append)
      (metis append_take_drop_id drop_drop add.commute)
  have len: "length gap = n" "length ys = length ss - n + 1 - first" "length (map Str (take first ss)) = first"
    using assms(2) by (auto simp: gap_def ys_def)
  obtain z where z: "length z = n" "shift_down (av_argv a) first n (length ss - n + 1 - first) =
      Ok (map Str (take first ss) @ ys @ z @ r)"
    using shift_down_ok [of gap "map Str (take first ss)" ys r] len arr by auto
  have "ssize_value (int first + int n) = Ok (int first + int n)" using assms(3) by (simp add: ssize_value_def SSIZE_T_MAX_def)
  then show ?thesis
    using assms z free_slots_ok [OF av_holds_open [OF assms(1)], of first n] r
    by (auto simp: argv_delete_def av_holds_def av_open_def ys_def min_def nth_append)
qed

section \<open>Interface of the array for its clients\<close>

text \<open>
  What the splitters need: adding one string appends it. Inside, the loop over a tokenizer
  is shown to append the list of its tokens.
\<close>

locale string_sink =
  fixes holds :: "'a \<Rightarrow> string list \<Rightarrow> bool"
    and add :: "'a \<Rightarrow> string \<Rightarrow> 'a outcome"
  assumes add_appends: "holds a ss \<Longrightarrow> returns (add a s) (\<lambda>a. holds a (ss @ [s]))"
begin

lemma fill:
  assumes "\<And>a. loop a [] = Ok a" "\<And>a s ts. loop a (s # ts) = obind (add a s) (\<lambda>a. loop a ts)"
  shows "holds a ss \<Longrightarrow> returns (loop a ts) (\<lambda>a. holds a (ss @ ts))"
proof (induction ts arbitrary: a ss)
  case (Cons t ts)
  have "returns (loop b ts) (\<lambda>a. holds a (ss @ t # ts))" if "holds b (ss @ [t])" for b
    using Cons.IH [OF that] by simp
  then show ?case unfolding assms(2) by (rule returns_bind [OF add_appends [OF Cons.prems]])
qed (simp add: assms(1))

end

interpretation av: string_sink av_holds "\<lambda>a s. argv_add a [s]"
  by unfold_locales (rule argv_add_ok)

fun add_each :: "argv \<Rightarrow> string list \<Rightarrow> argv outcome" where
  "add_each a [] = Ok a"
| "add_each a (s # ts) = obind (argv_add a [s]) (\<lambda>a. add_each a ts)"

lemmas add_each_ok = av.fill [of add_each, OF add_each.simps]

lemma terminate_ok: "av_holds a ss \<Longrightarrow> returns (argv_terminate a) (\<lambda>a. av_holds a ss)"
  unfolding argv_terminate_def by (rule put_slot_terminate [OF av_holds_open])

lemma split_loop_tokens: "argv_split_append_loop a bp delim = add_each a (strtok_all bp delim)"
proof (induction a bp delim rule: argv_split_append_loop.induct)
  case (1 a bp delim)
  show ?case
  proof (cases "mystrtok bp delim")
    case (Pair t bp')
    then show ?thesis
      using "1.IH" [of t bp'] by (subst argv_split_append_loop.simps, subst strtok_all.simps)
        (cases t, auto intro!: obind_cong)
  qed
qed

text \<open>The tokens of the quoting tokenizer, and the first tokens with the position behind them.\<close>

function strtokq_all :: "string \<Rightarrow> string \<Rightarrow> char \<Rightarrow> char \<Rightarrow> string list" where
  "strtokq_all bp sep p0 p1 =
     (case mystrtokq bp sep p0 p1 of (None, _) \<Rightarrow> [] | (Some arg, bp) \<Rightarrow> arg # strtokq_all bp sep p0 p1)"
  by pat_completeness auto
termination
  by (relation "measure (\<lambda>(bp, _). length bp)") (auto dest: mystrtokq_shorter [OF sym])

declare strtokq_all.simps [simp del]

lemma splitq_loop_tokens: "argv_splitq_append_loop a bp delim p0 p1 = add_each a (strtokq_all bp delim p0 p1)"
proof (induction a bp delim p0 p1 rule: argv_splitq_append_loop.induct)
  case (1 a bp delim p0 p1)
  show ?case
  proof (cases "mystrtokq bp delim p0 p1")
    case (Pair t bp')
    then show ?thesis
      using "1.IH" [of t bp'] by (subst argv_splitq_append_loop.simps, subst strtokq_all.simps)
        (cases t, auto intro!: obind_cong)
  qed
qed

lemma split_append_ok:
  assumes "av_holds a ss"
  shows "returns (argv_split_append a str delim) (\<lambda>a. av_holds a (ss @ words_of (set delim) str))"
  unfolding argv_split_append_def split_loop_tokens strtok_all_words
  by (rule returns_bind [OF add_each_ok [OF assms] terminate_ok])

lemma count_loop_tokens:
  assumes "av_holds a ss"
  shows "returns (argv_split_count_loop n a bp delim) (\<lambda>(a, bp'). \<exists>pre. bp = pre @ bp' \<and>
    av_holds a (ss @ take n (words_of (set delim) bp)) \<and>
    words_of (set delim) pre = take n (words_of (set delim) bp) \<and>
    words_of (set delim) bp' = drop n (words_of (set delim) bp))"
  using assms
proof (induction n arbitrary: a ss bp)
  case (Suc n)
  let ?w = "words_of (set delim)"
  show ?case
  proof (cases "mystrtok bp delim")
    case (Pair t bp')
    show ?thesis
    proof (cases t)
      case None
      then have "bp' = []" "strtok_all bp delim = []"
        using Pair by (auto simp: mystrtok_def Let_def strtok_all.simps [of bp] split: if_splits)
      then show ?thesis using Suc.prems Pair None by (simp add: strtok_all_words words_of_def)
    next
      case (Some w)
      obtain pre where pre: "bp = pre @ bp'" "\<And>x y. bp' = x @ y \<Longrightarrow> ?w (pre @ x) = w # ?w x"
        using mystrtok_prefix [of bp delim w bp'] Pair Some by blast
      have bp: "?w bp = w # ?w bp'" using pre(2) [of bp' "[]"] pre(1) by simp
      have "returns (argv_split_count_loop n b bp' delim) (\<lambda>(a, bp''). \<exists>p. bp = p @ bp'' \<and>
          av_holds a (ss @ take (Suc n) (?w bp)) \<and> ?w p = take (Suc n) (?w bp) \<and> ?w bp'' = drop (Suc n) (?w bp))"
        if b: "av_holds b (ss @ [w])" for b
      proof (rule returns_mono [OF Suc.IH [OF b, of bp']], clarify)
        fix a bp'' p
        assume "bp' = p @ bp''" "av_holds a ((ss @ [w]) @ take n (?w (p @ bp'')))" "?w p = take n (?w (p @ bp''))"
          "?w bp'' = drop n (?w (p @ bp''))"
        then show "\<exists>p. bp = p @ bp'' \<and> av_holds a (ss @ take (Suc n) (?w bp)) \<and>
            ?w p = take (Suc n) (?w bp) \<and> ?w bp'' = drop (Suc n) (?w bp)"
          using pre(2) [of p bp''] pre(1) bp by (intro exI [of _ "pre @ p"]) simp
      qed
      then show ?thesis using argv_add_ok [OF Suc.prems, of "[w]"] Pair Some by (auto intro!: returns_bind)
    qed
  qed
qed (simp add: words_of_def)

lemma add_rest_ok:
  assumes "av_holds a ss"
  shows "returns (argv_add_rest a bp delim) (\<lambda>a. av_holds a (ss @
    (if dropWhile (\<lambda>c. c \<in> set delim) bp = [] then [] else [dropWhile (\<lambda>c. c \<in> set delim) bp])))"
proof -
  define r where "r = dropWhile (\<lambda>c. c \<in> set delim) bp"
  have "argv_add_rest a bp delim = obind (if r \<noteq> [] then argv_add a [r] else Ok a) argv_terminate"
    by (simp add: argv_add_rest_def r_def Let_def del: dropWhile_eq_Nil_conv)
  moreover have "returns (if r \<noteq> [] then argv_add a [r] else Ok a) (\<lambda>a. av_holds a (ss @ (if r = [] then [] else [r])))"
    using argv_add_ok [OF assms, of "[r]"] assms by simp
  ultimately show ?thesis unfolding r_def [symmetric] by (simp only:) (rule returns_bind [OF _ terminate_ok])
qed

lemma split_count_ok:
  assumes "1 \<le> cnt"
  shows "returns (argv_split_count str delim cnt) (\<lambda>a. \<exists>pre rest. str = pre @ rest \<and>
    av_holds a (words_of (set delim) pre @ (if rest = [] then [] else [rest])) \<and>
    words_of (set delim) pre = take (nat (cnt - 1)) (words_of (set delim) str) \<and>
    words_of (set delim) rest = drop (nat (cnt - 1)) (words_of (set delim) str) \<and>
    (rest = [] \<or> hd rest \<notin> set delim))"
proof -
  define n where "n = nat (cnt - 1)"
  let ?w = "words_of (set delim)"
  have "returns (obind (argv_split_count_loop n a str delim) (\<lambda>(a, bp). argv_add_rest a bp delim)) (\<lambda>a. \<exists>pre rest.
      str = pre @ rest \<and> av_holds a (?w pre @ (if rest = [] then [] else [rest])) \<and>
      ?w pre = take n (?w str) \<and> ?w rest = drop n (?w str) \<and> (rest = [] \<or> hd rest \<notin> set delim))" if "av_holds a []" for a
  proof (rule returns_bind [OF count_loop_tokens [OF that, of n str delim]], clarify)
    fix b bp pre
    assume str: "str = pre @ bp" and b: "av_holds b ([] @ take n (?w (pre @ bp)))"
      and w: "?w pre = take n (?w (pre @ bp))" "?w bp = drop n (?w (pre @ bp))"
    define ds r where "ds = takeWhile (\<lambda>c. c \<in> set delim) bp" and "r = dropWhile (\<lambda>c. c \<in> set delim) bp"
    have "pre @ bp = (pre @ ds) @ r" by (simp add: ds_def r_def)
    moreover have "?w (pre @ ds) = ?w pre"
      by (rule words_of_trailing) (auto simp: ds_def dest: set_takeWhileD)
    moreover have "?w r = ?w bp" "r = [] \<or> hd r \<notin> set delim"
      using hd_dropWhile [of "\<lambda>c. c \<in> set delim" bp] by (auto simp: r_def words_of_delims simp del: dropWhile_eq_Nil_conv)
    moreover have "returns (argv_add_rest b bp delim) (\<lambda>a. av_holds a (?w pre @ (if r = [] then [] else [r])))"
      using add_rest_ok [OF b, of bp delim] w(1) unfolding r_def by simp
    ultimately show "returns (argv_add_rest b bp delim) (\<lambda>a. \<exists>pre' rest.
      pre @ bp = pre' @ rest \<and> av_holds a (?w pre' @ (if rest = [] then [] else [rest])) \<and>
      ?w pre' = take n (?w (pre @ bp)) \<and> ?w rest = drop n (?w (pre @ bp)) \<and> (rest = [] \<or> hd rest \<notin> set delim))"
      using w by (elim returns_mono) metis
  qed
  then show ?thesis
    unfolding argv_split_count_def n_def [symmetric] by (intro returns_bind [OF argv_alloc_ok]) (use assms in auto)
qed

section \<open>Sorting\<close>

lemma insert_cmp_mset: "mset (insert_cmp cmp x ys) = add_mset x (mset ys)"
  by (induction ys) auto

lemma qsort_mset: "mset (qsort cmp xs) = mset xs"
  by (induction xs) (auto simp: qsort_def insert_cmp_mset)

lemma insert_strcmp_sorted:
  "sorted_wrt (\<lambda>x y. strcmp x y \<le> 0) ys \<Longrightarrow> sorted_wrt (\<lambda>x y. strcmp x y \<le> 0) (insert_cmp strcmp x ys)"
proof (induction ys)
  case (Cons y ys)
  have set: "set (insert_cmp strcmp x ys) = insert x (set ys)"
    using insert_cmp_mset [of strcmp x ys] by (metis set_mset_add_mset_insert set_mset_mset)
  have "strcmp y x \<le> 0" if "\<not> strcmp x y \<le> 0" using that strcmp_swap [of y x] by simp
  then show ?case using Cons set strcmp_trans by auto
qed simp

lemma qsort_strcmp_sorted: "sorted_wrt (\<lambda>x y. strcmp x y \<le> 0) (qsort strcmp xs)"
  by (induction xs) (auto simp: qsort_def insert_strcmp_sorted)

lemma insert_argv_cmp: "insert_cmp argv_cmp (Str x) (map Str ys) = map Str (insert_cmp strcmp x ys)"
  by (induction ys) auto

lemma qsort_argv_cmp: "qsort argv_cmp (map Str xs) = map Str (qsort strcmp xs)"
  by (induction xs) (auto simp: qsort_def insert_argv_cmp)

lemma argv_sort_ok:
  assumes "av_holds a ss"
  shows "av_holds (argv_sort a) (qsort strcmp ss)"
proof -
  have "length (qsort strcmp ss) = length ss" by (metis qsort_mset size_mset)
  then show ?thesis
    using assms by (auto simp: av_holds_def av_open_def argv_sort_def qsort_argv_cmp nth_append)
qed

section \<open>Properties\<close>

text \<open>
  C24: The operations on a terminated array of strings \<open>ss\<close> never touch memory outside the
  array, keep it terminated, and are the list operations: add, truncate, insert, replace,
  delete, sort. Each position, length and range may be any integer, and the bad ones are
  panics. One case escapes the range check of \<open>argv_delete\<close>: when the end of the range is above
  \<open>SSIZE_T_MAX\<close>, the sum that the check computes overflows.
\<close>

theorem argv_operations:
  assumes "av_holds a ss"
  shows "returns (argv_add a args) (\<lambda>a. av_holds a (ss @ args)) \<and>
    (if list_all (\<lambda>(_, len). 0 \<le> len) pairs
     then returns (argv_addn a pairs) (\<lambda>a. av_holds a (ss @ map (\<lambda>(arg, len). take (nat len) arg) pairs))
     else argv_addn a pairs = Panic ''argv_addn: bad string length'') \<and>
    (if len < 0 then argv_truncate a len = Panic ''argv_truncate: bad length''
     else returns (argv_truncate a len) (\<lambda>a. av_holds a (take (nat len) ss))) \<and>
    (if wh < 0 \<or> wh > int (length ss) then argv_insert_one a wh s = Panic ''argv_insert_one bad position''
     else returns (argv_insert_one a wh s) (\<lambda>a. av_holds a (take (nat wh) ss @ s # drop (nat wh) ss))) \<and>
    (if wh < 0 \<or> wh \<ge> int (length ss) then argv_replace_one a wh s = Panic ''argv_replace_one bad position''
     else returns (argv_replace_one a wh s) (\<lambda>a. av_holds a (ss[nat wh := s]))) \<and>
    (if 0 \<le> first \<and> 0 \<le> n \<and> first + n > SSIZE_T_MAX then argv_delete a first n = Fault
     else if first < 0 \<or> n < 0 \<or> first + n > int (length ss) then argv_delete a first n = Panic ''argv_delete bad range''
     else returns (argv_delete a first n) (\<lambda>a. av_holds a (take (nat first) ss @ drop (nat (first + n)) ss))) \<and>
    (\<exists>ts. av_holds (argv_sort a) ts \<and> mset ts = mset ss \<and> sorted_wrt (\<lambda>x y. strcmp x y \<le> 0) ts) \<and>
    argv_free a = Ok ()"
proof (intro conjI)
  have argc: "av_argc a = length ss" using assms by (simp add: av_holds_def av_open_def)
  note open_a = av_holds_open [OF assms]
  show "returns (argv_add a args) (\<lambda>a. av_holds a (ss @ args))" using assms by (rule argv_add_ok)
  show "if list_all (\<lambda>(_, len). 0 \<le> len) pairs
     then returns (argv_addn a pairs) (\<lambda>a. av_holds a (ss @ map (\<lambda>(arg, len). take (nat len) arg) pairs))
     else argv_addn a pairs = Panic ''argv_addn: bad string length''"
  proof (cases "list_all (\<lambda>(_, len). 0 \<le> len) pairs")
    case True
    then have "\<forall>(_, len) \<in> set pairs. 0 \<le> len" by (simp add: list_all_iff)
    then show ?thesis
      using True returns_bind [OF argv_addn_loop_ok [OF open_a] put_slot_terminate] by (simp add: argv_addn_def)
  next
    case False
    then have "\<exists>(_, len) \<in> set pairs. len < 0" by (force simp: list_all_iff)
    then show ?thesis using False argv_addn_loop_bad [OF open_a] by (simp add: argv_addn_def)
  qed
  show "if len < 0 then argv_truncate a len = Panic ''argv_truncate: bad length''
     else returns (argv_truncate a len) (\<lambda>a. av_holds a (take (nat len) ss))"
    using argv_truncate_ok [OF assms, of len] by (simp add: argv_truncate_def)
  show "if wh < 0 \<or> wh > int (length ss) then argv_insert_one a wh s = Panic ''argv_insert_one bad position''
     else returns (argv_insert_one a wh s) (\<lambda>a. av_holds a (take (nat wh) ss @ s # drop (nat wh) ss))"
    using argv_insert_ok [OF assms, of "nat wh" s] argc by (auto simp: argv_insert_one_def)
  show "if wh < 0 \<or> wh \<ge> int (length ss) then argv_replace_one a wh s = Panic ''argv_replace_one bad position''
     else returns (argv_replace_one a wh s) (\<lambda>a. av_holds a (ss[nat wh := s]))"
    using argv_replace_ok [OF assms, of "nat wh" s] argc by (auto simp: argv_replace_one_def)
  show "if 0 \<le> first \<and> 0 \<le> n \<and> first + n > SSIZE_T_MAX then argv_delete a first n = Fault
     else if first < 0 \<or> n < 0 \<or> first + n > int (length ss) then argv_delete a first n = Panic ''argv_delete bad range''
     else returns (argv_delete a first n) (\<lambda>a. av_holds a (take (nat first) ss @ drop (nat (first + n)) ss))"
    using argv_delete_ok [OF assms, of "nat first" "nat n"] argc
    by (auto simp: argv_delete_def ssize_value_def nat_add_distrib)
  show "\<exists>ts. av_holds (argv_sort a) ts \<and> mset ts = mset ss \<and> sorted_wrt (\<lambda>x y. strcmp x y \<le> 0) ts"
    using argv_sort_ok [OF assms] qsort_mset qsort_strcmp_sorted by blast
  show "argv_free a = Ok ()" using free_slots_ok [OF open_a, of 0] argc by (simp add: argv_free_def)
qed

theorem argv_operations_witness:
  "returns (argv_alloc 0) (\<lambda>a. returns (argv_add a [''b'', ''a'']) (\<lambda>b.
     returns (argv_insert_one b 1 ''c'') (\<lambda>a. av_holds a [''b'', ''c'', ''a'']) \<and>
     returns (argv_delete b 0 1) (\<lambda>a. av_holds a [''a''])))"
proof (rule returns_mono [OF argv_alloc_ok])
  fix a assume "av_holds a []"
  then have "returns (argv_add a [''b'', ''a'']) (\<lambda>b. av_holds b [''b'', ''a''])"
    using argv_operations [of a "[]" "[''b'', ''a'']"] by simp
  then show "returns (argv_add a [''b'', ''a'']) (\<lambda>b.
     returns (argv_insert_one b 1 ''c'') (\<lambda>a. av_holds a [''b'', ''c'', ''a'']) \<and>
     returns (argv_delete b 0 1) (\<lambda>a. av_holds a [''a'']))"
  proof (rule returns_mono)
    fix b assume b: "av_holds b [''b'', ''a'']"
    show "returns (argv_insert_one b 1 ''c'') (\<lambda>a. av_holds a [''b'', ''c'', ''a'']) \<and>
      returns (argv_delete b 0 1) (\<lambda>a. av_holds a [''a''])"
      using argv_operations [OF b, of "[]" "[]" 0 1 "''c''" 0 1] by (simp add: SSIZE_T_MAX_def)
  qed
qed

text \<open>
  C25: \<open>argv_split\<close> returns exactly the words between delimiters. With a count the input falls
  into a first part and a rest: the array has the first \<open>count - 1\<close> words, which are the words
  of the first part, and then, unless it is empty, the rest of the input as it stands. The rest
  begins with no delimiter and has the remaining words, so it starts at the next word and keeps
  every delimiter behind it. A count below one is a panic.
\<close>

theorem argv_split_words:
  "returns (argv_split str delim) (\<lambda>a. av_holds a (words_of (set delim) str)) \<and>
   (if cnt < 1 then argv_split_count str delim cnt = Panic ''argv_split_count: bad count''
    else returns (argv_split_count str delim cnt) (\<lambda>a. \<exists>pre rest. str = pre @ rest \<and>
      av_holds a (words_of (set delim) pre @ (if rest = [] then [] else [rest])) \<and>
      words_of (set delim) pre = take (nat (cnt - 1)) (words_of (set delim) str) \<and>
      words_of (set delim) rest = drop (nat (cnt - 1)) (words_of (set delim) str) \<and>
      (rest = [] \<or> hd rest \<notin> set delim)))"
proof (intro conjI)
  have "returns (argv_split_append a str delim) (\<lambda>a. av_holds a (words_of (set delim) str))" if "av_holds a []" for a
    using split_append_ok [OF that] by simp
  then show "returns (argv_split str delim) (\<lambda>a. av_holds a (words_of (set delim) str))"
    unfolding argv_split_def argv_split_append_def by (rule returns_bind [OF argv_alloc_ok])
  have "argv_split_count str delim cnt = Panic ''argv_split_count: bad count''" if "cnt < 1"
    using that argv_alloc_ok [of 1] by (auto simp: argv_split_count_def returns_def)
  then show "if cnt < 1 then argv_split_count str delim cnt = Panic ''argv_split_count: bad count''
    else returns (argv_split_count str delim cnt) (\<lambda>a. \<exists>pre rest. str = pre @ rest \<and>
      av_holds a (words_of (set delim) pre @ (if rest = [] then [] else [rest])) \<and>
      words_of (set delim) pre = take (nat (cnt - 1)) (words_of (set delim) str) \<and>
      words_of (set delim) rest = drop (nat (cnt - 1)) (words_of (set delim) str) \<and>
      (rest = [] \<or> hd rest \<notin> set delim))"
    using split_count_ok [of cnt str delim] by simp
qed

theorem argv_split_words_witness:
  "returns (argv_split_count '',a,,b,c,'' '','' 2) (\<lambda>a. av_holds a [''a'', ''b,c,''])"
proof -
  have w: "words_of (set '','') '',a,,b,c,'' = [''a'', ''b'', ''c'']" by (simp add: words_of_def)
  have rest: "rest = ''b,c,''" if "'',a,,b,c,'' = pre @ rest" "words_of (set '','') rest = [''b'', ''c'']"
    "rest = [] \<or> hd rest \<notin> set '',''" for pre rest
    using that by (auto simp: Cons_eq_append_conv words_of_def)
  have "av_holds a [''a'', ''b,c,'']"
    if "\<exists>pre rest. '',a,,b,c,'' = pre @ rest \<and> av_holds a (words_of (set '','') pre @ (if rest = [] then [] else [rest])) \<and>
      words_of (set '','') pre = [''a''] \<and> words_of (set '','') rest = [''b'', ''c''] \<and> (rest = [] \<or> hd rest \<notin> set '','')" for a
    using that by (elim exE conjE) (frule (2) rest, simp)
  then show ?thesis
    using argv_split_words [of "'',a,,b,c,''" "'',''" 2] unfolding w by (simp, elim conjE returns_mono, blast)
qed

end
