(* ===== verification/Vbuf.thy ===== *)
theory Vbuf
  imports Util_Prelude "HOL-Library.Word"
begin

text \<open>
  The generic buffer of \<open>src/util/vbuf.h\<close> and \<open>src/util/vbuf.c\<close>: one byte at a time
  through \<open>VBUF_GET\<close> and \<open>VBUF_PUT\<close>, in bulk through \<open>vbuf_read\<close> and
  \<open>vbuf_write\<close>, with call-backs of the application for the empty and full conditions.

  The block of memory behind a buffer is a list of bytes, the read/write position an offset
  into it. An application embeds the structure into its own (\<open>VBUF_TO_APPL\<close>), which is
  record extension here: the operations work on every extension of \<open>vbuf\<close>, and a call-back
  takes and returns the whole application record. A call-back may refuse to make progress, in
  which case the code calls itself for ever; the recursion is a \<open>partial_function\<close> into
  \<open>option\<close> where \<open>None\<close> is that case.

  The locale \<open>vbuf_writer\<close> is the contract between the buffer and an application that
  writes; its lemmas show that the bulk \<open>vbuf_write\<close> is the byte-wise loop the source keeps
  beside it, and that both return.
\<close>

section \<open>Memory blocks\<close>

definition mem_read :: "char list \<Rightarrow> int \<Rightarrow> char outcome" where
  "mem_read d p = (if 0 \<le> p \<and> p < int (length d) then Ok (d ! nat p) else Fault)"

definition mem_write :: "char list \<Rightarrow> int \<Rightarrow> char list \<Rightarrow> char list outcome" where
  "mem_write d p bs =
     (if 0 \<le> p \<and> p + int (length bs) \<le> int (length d)
      then Ok (take (nat p) d @ bs @ drop (nat p + length bs) d) else Fault)"

definition mem_block :: "char list \<Rightarrow> int \<Rightarrow> int \<Rightarrow> char list outcome" where
  "mem_block d p n =
     (if 0 \<le> p \<and> 0 \<le> n \<and> p + n \<le> int (length d)
      then Ok (take (nat n) (drop (nat p) d)) else Fault)"

lemma mem_write_Nil [simp]: "0 \<le> p \<Longrightarrow> p \<le> int (length d) \<Longrightarrow> mem_write d p [] = Ok d"
  by (simp add: mem_write_def)

lemma mem_write_length: "mem_write d p bs = Ok d' \<Longrightarrow> length d' = length d"
  by (auto simp: mem_write_def split: if_splits)

lemma mem_write_Cons:
  assumes "0 \<le> p" and "p + int (length (b # bs)) \<le> int (length d)"
  shows "mem_write d p (b # bs) = obind (mem_write d p [b]) (\<lambda>d. mem_write d (p + 1) bs)"
proof -
  obtain i where p: "p = int i" using assms(1) nonneg_int_cases by blast
  then have "Suc i + length bs \<le> length d" using assms(2) by simp
  then show ?thesis
    by (auto simp: mem_write_def p nat_add_distrib take_add min_def add.commute)
qed

section \<open>The buffer structure\<close>

record vbuf =
  vb_flags :: "32 word"
  vb_data :: "char list"
  vb_len :: int
  vb_cnt :: int
  vb_ptr :: int

type_synonym 'a vbuf_fn = "'a vbuf_scheme \<Rightarrow> (int \<times> 'a vbuf_scheme) outcome"

definition VBUF_FLAG_RD_ERR :: "32 word" where "VBUF_FLAG_RD_ERR = 1"
definition VBUF_FLAG_WR_ERR :: "32 word" where "VBUF_FLAG_WR_ERR = 2"
definition VBUF_FLAG_EOF :: "32 word" where "VBUF_FLAG_EOF = 4"
definition VBUF_FLAG_RD_TIMEOUT :: "32 word" where "VBUF_FLAG_RD_TIMEOUT = 8"
definition VBUF_FLAG_WR_TIMEOUT :: "32 word" where "VBUF_FLAG_WR_TIMEOUT = 16"

definition VBUF_FLAG_ERR :: "32 word" where
  "VBUF_FLAG_ERR = VBUF_FLAG_RD_ERR OR VBUF_FLAG_WR_ERR"

definition VBUF_FLAG_TIMEOUT :: "32 word" where
  "VBUF_FLAG_TIMEOUT = VBUF_FLAG_RD_TIMEOUT OR VBUF_FLAG_WR_TIMEOUT"

definition VBUF_FLAG_BAD :: "32 word" where
  "VBUF_FLAG_BAD = VBUF_FLAG_ERR OR VBUF_FLAG_EOF OR VBUF_FLAG_TIMEOUT"

definition vbuf_rd_error :: "'a vbuf_scheme \<Rightarrow> bool" where
  "vbuf_rd_error bp \<longleftrightarrow> vb_flags bp AND (VBUF_FLAG_RD_ERR OR VBUF_FLAG_RD_TIMEOUT) \<noteq> 0"

definition vbuf_wr_error :: "'a vbuf_scheme \<Rightarrow> bool" where
  "vbuf_wr_error bp \<longleftrightarrow> vb_flags bp AND (VBUF_FLAG_WR_ERR OR VBUF_FLAG_WR_TIMEOUT) \<noteq> 0"

definition vbuf_error :: "'a vbuf_scheme \<Rightarrow> bool" where
  "vbuf_error bp \<longleftrightarrow> vb_flags bp AND (VBUF_FLAG_ERR OR VBUF_FLAG_TIMEOUT) \<noteq> 0"

definition vbuf_eof :: "'a vbuf_scheme \<Rightarrow> bool" where
  "vbuf_eof bp \<longleftrightarrow> vb_flags bp AND VBUF_FLAG_EOF \<noteq> 0"

definition vbuf_timeout :: "'a vbuf_scheme \<Rightarrow> bool" where
  "vbuf_timeout bp \<longleftrightarrow> vb_flags bp AND VBUF_FLAG_TIMEOUT \<noteq> 0"

definition vbuf_clearerr :: "'a vbuf_scheme \<Rightarrow> 'a vbuf_scheme" where
  "vbuf_clearerr bp = bp\<lparr>vb_flags := vb_flags bp AND NOT VBUF_FLAG_BAD\<rparr>"

definition VBUF_EOF :: int where
  "VBUF_EOF = -1"

lemmas vbuf_flag_defs =
  VBUF_FLAG_RD_ERR_def VBUF_FLAG_WR_ERR_def VBUF_FLAG_EOF_def VBUF_FLAG_RD_TIMEOUT_def
  VBUF_FLAG_WR_TIMEOUT_def VBUF_FLAG_ERR_def VBUF_FLAG_TIMEOUT_def VBUF_FLAG_BAD_def

section \<open>Single-byte operations\<close>

text \<open>The two fast paths of \<open>VBUF_GET\<close> and \<open>VBUF_PUT\<close>.\<close>

definition vbuf_take :: "'a vbuf_scheme \<Rightarrow> (int \<times> 'a vbuf_scheme) outcome" where
  "vbuf_take bp =
     obind (mem_read (vb_data bp) (vb_ptr bp)) (\<lambda>c.
     Ok (int (ord c), bp\<lparr>vb_cnt := vb_cnt bp + 1, vb_ptr := vb_ptr bp + 1\<rparr>))"

definition vbuf_advance :: "'a vbuf_scheme \<Rightarrow> char list \<Rightarrow> int \<Rightarrow> 'a vbuf_scheme" where
  "vbuf_advance bp d n = bp\<lparr>vb_data := d, vb_ptr := vb_ptr bp + n, vb_cnt := vb_cnt bp - n\<rparr>"

lemma vbuf_advance_sel [simp]:
  "vb_data (vbuf_advance bp d n) = d" "vb_ptr (vbuf_advance bp d n) = vb_ptr bp + n"
  "vb_cnt (vbuf_advance bp d n) = vb_cnt bp - n" "vb_len (vbuf_advance bp d n) = vb_len bp"
  "vb_flags (vbuf_advance bp d n) = vb_flags bp"
  by (simp_all add: vbuf_advance_def)

lemma vbuf_advance_advance [simp]:
  "vbuf_advance (vbuf_advance bp d m) e n = vbuf_advance bp e (m + n)"
  by (simp add: vbuf_advance_def algebra_simps)

lemma vbuf_advance_0 [simp]: "vbuf_advance bp (vb_data bp) 0 = bp"
  by (simp add: vbuf_advance_def)

definition vbuf_store :: "'a vbuf_scheme \<Rightarrow> char \<Rightarrow> (int \<times> 'a vbuf_scheme) outcome" where
  "vbuf_store bp ch =
     obind (mem_write (vb_data bp) (vb_ptr bp) [ch]) (\<lambda>d.
     Ok (int (ord ch), vbuf_advance bp d 1))"

partial_function (option) VBUF_GET ::
  "'a vbuf_fn \<Rightarrow> 'a vbuf_scheme \<Rightarrow> (int \<times> 'a vbuf_scheme) outcome option" where
  "VBUF_GET get_ready bp =
     (if vb_cnt bp < 0 then Some (vbuf_take bp)
      else case get_ready bp of
          Ok (r, bp') \<Rightarrow> if r \<noteq> 0 then Some (Ok (VBUF_EOF, bp')) else VBUF_GET get_ready bp'
        | Fatal m \<Rightarrow> Some (Fatal m) | Panic m \<Rightarrow> Some (Panic m)
        | Fault \<Rightarrow> Some Fault | Diverge \<Rightarrow> Some Diverge)"

partial_function (option) VBUF_PUT ::
  "'a vbuf_fn \<Rightarrow> 'a vbuf_scheme \<Rightarrow> char \<Rightarrow> (int \<times> 'a vbuf_scheme) outcome option" where
  "VBUF_PUT put_ready bp ch =
     (if vb_cnt bp > 0 then Some (vbuf_store bp ch)
      else case put_ready bp of
          Ok (r, bp') \<Rightarrow> if r \<noteq> 0 then Some (Ok (VBUF_EOF, bp')) else VBUF_PUT put_ready bp' ch
        | Fatal m \<Rightarrow> Some (Fatal m) | Panic m \<Rightarrow> Some (Panic m)
        | Fault \<Rightarrow> Some Fault | Diverge \<Rightarrow> Some Diverge)"

definition vbuf_get :: "'a vbuf_fn \<Rightarrow> 'a vbuf_scheme \<Rightarrow> (int \<times> 'a vbuf_scheme) outcome" where
  "vbuf_get get_ready bp =
     obind (get_ready bp) (\<lambda>(r, bp).
     if r \<noteq> 0 then Ok (VBUF_EOF, bp) else run (VBUF_GET get_ready bp))"

definition vbuf_put :: "'a vbuf_fn \<Rightarrow> 'a vbuf_scheme \<Rightarrow> char \<Rightarrow> (int \<times> 'a vbuf_scheme) outcome" where
  "vbuf_put put_ready bp ch =
     obind (put_ready bp) (\<lambda>(r, bp).
     if r \<noteq> 0 then Ok (VBUF_EOF, bp) else run (VBUF_PUT put_ready bp ch))"

definition vbuf_unget :: "'a vbuf_scheme \<Rightarrow> int \<Rightarrow> (int \<times> 'a vbuf_scheme) outcome" where
  "vbuf_unget bp ch =
     (if ch AND 0xff \<noteq> ch \<or> - vb_cnt bp \<ge> vb_len bp
      then Ok (VBUF_EOF, bp\<lparr>vb_flags := vb_flags bp OR VBUF_FLAG_RD_ERR\<rparr>)
      else obind (mem_write (vb_data bp) (vb_ptr bp - 1) [char_of ch]) (\<lambda>d.
           Ok (ch, bp\<lparr>vb_cnt := vb_cnt bp - 1,
                      vb_flags := vb_flags bp AND NOT VBUF_FLAG_EOF,
                      vb_ptr := vb_ptr bp - 1, vb_data := d\<rparr>)))"

text \<open>The macros as the source writes them: fast path, else the function.\<close>

lemma VBUF_GET_unfold:
  "run (VBUF_GET f bp) = (if vb_cnt bp < 0 then vbuf_take bp else vbuf_get f bp)"
  by (subst VBUF_GET.simps) (auto simp: vbuf_get_def run_def split: outcome.split)

lemma VBUF_PUT_unfold:
  "run (VBUF_PUT f bp ch) = (if vb_cnt bp > 0 then vbuf_store bp ch else vbuf_put f bp ch)"
  by (subst VBUF_PUT.simps) (auto simp: vbuf_put_def run_def split: outcome.split)

section \<open>Bulk operations\<close>

text \<open>
  \<open>vbuf_read\<close>: the bytes it copied to the caller's memory and the buffer afterwards; the
  count that the C function returns is their number. A negative chunk size is a \<open>memcpy\<close>
  of a huge block.
\<close>

partial_function (option) vbuf_read_loop ::
  "'a vbuf_fn \<Rightarrow> 'a vbuf_scheme \<Rightarrow> char list \<Rightarrow> int \<Rightarrow> (char list \<times> 'a vbuf_scheme) outcome option" where
  "vbuf_read_loop get_ready bp cp count =
     (if count \<le> 0 then Some (Ok (cp, bp))
      else case (if vb_cnt bp \<ge> 0 then get_ready bp else Ok (0, bp)) of
          Ok (r, bp) \<Rightarrow>
            if r \<noteq> 0 then Some (Ok (cp, bp))
            else (let n = (if count < - vb_cnt bp then count else - vb_cnt bp) in
                  case mem_block (vb_data bp) (vb_ptr bp) n of
                    Ok bs \<Rightarrow> vbuf_read_loop get_ready
                               (bp\<lparr>vb_ptr := vb_ptr bp + n, vb_cnt := vb_cnt bp + n\<rparr>) (cp @ bs) (count - n)
                  | _ \<Rightarrow> Some Fault)
        | Fatal m \<Rightarrow> Some (Fatal m) | Panic m \<Rightarrow> Some (Panic m)
        | Fault \<Rightarrow> Some Fault | Diverge \<Rightarrow> Some Diverge)"

definition vbuf_read ::
  "'a vbuf_fn \<Rightarrow> 'a vbuf_scheme \<Rightarrow> int \<Rightarrow> (char list \<times> 'a vbuf_scheme) outcome" where
  "vbuf_read get_ready bp len = run (vbuf_read_loop get_ready bp [] len)"

text \<open>\<open>vbuf_write\<close> of the bytes at \<open>cp\<close>; the value is the transfer count.\<close>

partial_function (option) vbuf_write_loop ::
  "'a vbuf_fn \<Rightarrow> 'a vbuf_scheme \<Rightarrow> char list \<Rightarrow> int \<Rightarrow> (int \<times> 'a vbuf_scheme) outcome option" where
  "vbuf_write_loop put_ready bp cp sent =
     (if cp = [] then Some (Ok (sent, bp))
      else case (if vb_cnt bp \<le> 0 then put_ready bp else Ok (0, bp)) of
          Ok (r, bp) \<Rightarrow>
            if r \<noteq> 0 then Some (Ok (sent, bp))
            else (let n = (if int (length cp) < vb_cnt bp then int (length cp) else vb_cnt bp) in
                  if n < 0 then Some Fault
                  else case mem_write (vb_data bp) (vb_ptr bp) (take (nat n) cp) of
                    Ok d \<Rightarrow> vbuf_write_loop put_ready (vbuf_advance bp d n)
                              (drop (nat n) cp) (sent + n)
                  | _ \<Rightarrow> Some Fault)
        | Fatal m \<Rightarrow> Some (Fatal m) | Panic m \<Rightarrow> Some (Panic m)
        | Fault \<Rightarrow> Some Fault | Diverge \<Rightarrow> Some Diverge)"

definition vbuf_write ::
  "'a vbuf_fn \<Rightarrow> 'a vbuf_scheme \<Rightarrow> char list \<Rightarrow> (int \<times> 'a vbuf_scheme) outcome" where
  "vbuf_write put_ready bp buf = run (vbuf_write_loop put_ready bp buf 0)"

text \<open>
  The byte-wise loop of \<open>vbuf_write\<close>, which the source keeps under \<open>#if 0\<close> beside the code that is
  compiled. It is a specification here: \<open>vbuf_write\<close> is compared with it.
\<close>

fun vbuf_write_bytes ::
  "'a vbuf_fn \<Rightarrow> 'a vbuf_scheme \<Rightarrow> char list \<Rightarrow> int \<Rightarrow> (int \<times> 'a vbuf_scheme) outcome" where
  "vbuf_write_bytes put_ready bp [] count = Ok (count, bp)"
| "vbuf_write_bytes put_ready bp (b # bs) count =
     obind (run (VBUF_PUT put_ready bp b)) (\<lambda>(r, bp).
     if r < 0 then Ok (count, bp) else vbuf_write_bytes put_ready bp bs (count + 1))"

section \<open>The contract of a writing application\<close>

text \<open>
  \<open>writable\<close> is the application's invariant. It keeps the write window inside the block,
  storing a byte keeps it, and a \<open>put_ready\<close> that reports success has made room.
\<close>

locale vbuf_writer =
  fixes put_ready :: "'a vbuf_fn"
    and writable :: "'a vbuf_scheme \<Rightarrow> bool"
  assumes window: "writable bp \<Longrightarrow> 0 \<le> vb_ptr bp \<and> vb_ptr bp + vb_cnt bp \<le> int (length (vb_data bp))"
    and store_keeps: "writable bp \<Longrightarrow> 0 < vb_cnt bp \<Longrightarrow> vbuf_store bp ch = Ok (r, bp') \<Longrightarrow> writable bp'"
    and ready_progress: "writable bp \<Longrightarrow> vb_cnt bp \<le> 0 \<Longrightarrow> put_ready bp = Ok (0, bp') \<Longrightarrow>
      writable bp' \<and> 0 < vb_cnt bp'"
begin

lemma put_returns:
  assumes "writable bp"
  shows "VBUF_PUT put_ready bp ch \<noteq> None"
proof (cases "vb_cnt bp > 0")
  case False
  have *: "put_ready bp = Ok (0, bp') \<Longrightarrow> VBUF_PUT put_ready bp' ch \<noteq> None" for bp'
    using ready_progress assms False by (subst VBUF_PUT.simps) auto
  show ?thesis
    by (subst VBUF_PUT.simps) (use * in \<open>auto split: outcome.split\<close>)
qed (subst VBUF_PUT.simps, simp)

lemma put_stores:
  assumes "writable bp" "0 < vb_cnt bp"
  obtains d where "mem_write (vb_data bp) (vb_ptr bp) [ch] = Ok d"
    and "run (VBUF_PUT put_ready bp ch) =
      Ok (int (ord ch), vbuf_advance bp d 1)"
    and "writable (vbuf_advance bp d 1)"
proof -
  from window [OF assms(1)] assms(2) obtain d where d: "mem_write (vb_data bp) (vb_ptr bp) [ch] = Ok d"
    by (auto simp: mem_write_def)
  moreover from d have "vbuf_store bp ch =
      Ok (int (ord ch), vbuf_advance bp d 1)"
    by (simp add: vbuf_store_def)
  ultimately show thesis
    using that store_keeps [OF assms] assms(2) by (simp add: VBUF_PUT_unfold)
qed

lemma bytes_chunk:
  "writable bp \<Longrightarrow> int (length bs) \<le> vb_cnt bp \<Longrightarrow>
   \<exists>d. mem_write (vb_data bp) (vb_ptr bp) bs = Ok d \<and>
     writable (vbuf_advance bp d (int (length bs))) \<and>
     vbuf_write_bytes put_ready bp (bs @ cs) k =
       vbuf_write_bytes put_ready (vbuf_advance bp d (int (length bs))) cs (k + int (length bs))"
proof (induction bs arbitrary: bp k)
  case Nil
  then show ?case using window [OF Nil(1)] by simp
next
  case (Cons b bs)
  let ?n = "int (length bs)"
  from Cons.prems have cnt: "0 < vb_cnt bp" by simp
  from put_stores [OF Cons.prems(1) cnt, of b] obtain d where
    d: "mem_write (vb_data bp) (vb_ptr bp) [b] = Ok d" and
    put: "run (VBUF_PUT put_ready bp b) =
      Ok (int (ord b), vbuf_advance bp d 1)" and
    wr: "writable (vbuf_advance bp d 1)" by blast
  from Cons.IH [OF wr, of "k + 1"] Cons.prems obtain d' where
    d': "mem_write d (vb_ptr bp + 1) bs = Ok d'" and
    rest: "writable (vbuf_advance bp d' (1 + ?n))"
      "vbuf_write_bytes put_ready (vbuf_advance bp d 1) (bs @ cs) (k + 1) =
        vbuf_write_bytes put_ready (vbuf_advance bp d' (1 + ?n)) cs (k + 1 + ?n)"
    by auto
  have "mem_write (vb_data bp) (vb_ptr bp) (b # bs) = Ok d'"
    using window [OF Cons.prems(1)] Cons.prems(2) d d' by (subst mem_write_Cons) auto
  with put rest show ?case by (simp add: algebra_simps)
qed

lemma bytes_ready:
  assumes "vb_cnt bp \<le> 0" "put_ready bp = Ok (0, bp')"
  shows "vbuf_write_bytes put_ready bp (b # bs) k = vbuf_write_bytes put_ready bp' (b # bs) k"
proof -
  have "run (VBUF_PUT put_ready bp b) = run (VBUF_PUT put_ready bp' b)"
    using assms by (subst (1) VBUF_PUT_unfold) (simp add: vbuf_put_def)
  then show ?thesis by simp
qed

lemma write_window:
  assumes "writable bp" "0 < vb_cnt bp" "cp \<noteq> []"
    and IH: "\<And>bp' cp' k'. length cp' < length cp \<Longrightarrow> writable bp' \<Longrightarrow>
      vbuf_write_loop put_ready bp' cp' k' = Some (vbuf_write_bytes put_ready bp' cp' k')"
  shows "vbuf_write_loop put_ready bp cp k = Some (vbuf_write_bytes put_ready bp cp k)"
proof -
  define n where "n = (if int (length cp) < vb_cnt bp then int (length cp) else vb_cnt bp)"
  have n: "0 < n" "n \<le> vb_cnt bp" "n \<le> int (length cp)"
    using assms(2,3) by (auto simp: n_def)
  have len: "int (length (take (nat n) cp)) = n" using n by simp
  from bytes_chunk [OF assms(1), of "take (nat n) cp" "drop (nat n) cp" k] n len obtain d where
    d: "mem_write (vb_data bp) (vb_ptr bp) (take (nat n) cp) = Ok d" and
    w: "writable (vbuf_advance bp d n)" and
    e: "vbuf_write_bytes put_ready bp cp k = vbuf_write_bytes put_ready
      (vbuf_advance bp d n) (drop (nat n) cp) (k + n)"
    by (auto simp: Let_def)
  have "vbuf_write_loop put_ready bp cp k = vbuf_write_loop put_ready
      (vbuf_advance bp d n) (drop (nat n) cp) (k + n)"
    using assms(2,3) n d by (subst vbuf_write_loop.simps) (simp add: Let_def flip: n_def)
  also have "\<dots> = Some (vbuf_write_bytes put_ready bp cp k)"
    unfolding e using w n assms(3) by (intro IH) auto
  finally show ?thesis .
qed

lemma write_loop_bytes:
  "writable bp \<Longrightarrow> vbuf_write_loop put_ready bp cp k = Some (vbuf_write_bytes put_ready bp cp k)"
proof (induction cp arbitrary: bp k rule: length_induct)
  case (1 cp)
  show ?case
  proof (cases cp)
    case Nil
    then show ?thesis by (subst vbuf_write_loop.simps) simp
  next
    case (Cons b bs)
    show ?thesis
    proof (cases "0 < vb_cnt bp")
      case True
      show ?thesis by (rule write_window [OF 1(2) True]) (use 1(1) Cons in auto)
    next
      case False
      show ?thesis
      proof (cases "\<exists>bp'. put_ready bp = Ok (0, bp')")
        case True
        then obtain bp' where r: "put_ready bp = Ok (0, bp')" ..
        with ready_progress 1(2) False have w: "writable bp'" "0 < vb_cnt bp'" by auto
        have "vbuf_write_loop put_ready bp cp k = vbuf_write_loop put_ready bp' cp k"
          unfolding Cons using False r w
          by (simp add: Let_def vbuf_write_loop.simps [of put_ready bp "b # bs" k]
              vbuf_write_loop.simps [of put_ready bp' "b # bs" k])
        also have "\<dots> = Some (vbuf_write_bytes put_ready bp' cp k)"
          by (rule write_window [OF w]) (use 1(1) Cons in auto)
        finally show ?thesis using bytes_ready [of bp bp' b bs k] False r Cons by simp
      next
        case stop: False
        with False Cons show ?thesis
          by (subst vbuf_write_loop.simps)
            (auto simp: VBUF_PUT_unfold vbuf_put_def VBUF_EOF_def split: outcome.split)
      qed
    qed
  qed
qed

lemma write_bytes: "writable bp \<Longrightarrow> vbuf_write put_ready bp buf = vbuf_write_bytes put_ready bp buf 0"
  by (simp add: vbuf_write_def write_loop_bytes)

end

end
