(* ===== verification/Vstring.thy ===== *)
theory Vstring
  imports Vbuf
begin

text \<open>
  The arbitrary-length string manager of \<open>src/util/vstring.h\<close> and
  \<open>src/util/vstring.c\<close>, and the two allocators of \<open>src/util/mymalloc.c\<close> it calls.

  A \<open>VSTRING\<close> extends the generic buffer with \<open>maxlen\<close>. The first group of lemmas is
  about the buffer invariant \<open>vs_inv\<close> and memory safety, the second shows that every
  operation is the list operation it stands for on \<open>vs_contents\<close>, the bytes between the
  start of the block and the write position. The side condition \<open>room\<close> says how much may
  be added before \<open>vstring_extend\<close> reports a length overflow.
\<close>

section \<open>Allocation\<close>

text \<open>
  \<open>mymalloc\<close> and \<open>myrealloc\<close> fill fresh memory with \<open>FILLER\<close>. Running out of memory
  is not modelled: the program ends in that case.
\<close>

definition FILLER :: char where
  "FILLER = CHR 0xFF"

definition mymalloc :: "int \<Rightarrow> char list outcome" where
  "mymalloc len =
     (if len < 1 then Panic ''mymalloc: requested length'' else Ok (replicate (nat len) FILLER))"

definition myrealloc :: "char list \<Rightarrow> int \<Rightarrow> char list outcome" where
  "myrealloc old len =
     (if len < 1 then Panic ''myrealloc: requested length''
      else Ok (take (nat len) old @ replicate (nat len - length old) FILLER))"

section \<open>The structure\<close>

record vstring = vbuf +
  vs_maxlen :: int

definition VSTRING_FLAG_EXACT :: "32 word" where
  "VSTRING_FLAG_EXACT = 256"

definition vs_exact :: "vstring \<Rightarrow> bool" where
  "vs_exact vp \<longleftrightarrow> vb_flags vp AND VSTRING_FLAG_EXACT \<noteq> 0"

text \<open>\<open>VSTRING_LEN\<close>, and the bytes it counts.\<close>

definition VSTRING_LEN :: "vstring \<Rightarrow> int" where
  "VSTRING_LEN vp = vb_ptr vp"

definition vs_contents :: "vstring \<Rightarrow> char list" where
  "vs_contents vp = take (nat (vb_ptr vp)) (vb_data vp)"

definition vstring_avail :: "vstring \<Rightarrow> int" where
  "vstring_avail vp = vb_cnt vp"

section \<open>Buffer growth\<close>

definition vstring_extend :: "vstring \<Rightarrow> int \<Rightarrow> vstring outcome" where
  "vstring_extend bp incr =
     (let used = vb_ptr bp;
          incr = (if \<not> vs_exact bp \<and> vb_len bp > incr then vb_len bp else incr)
      in if vb_len bp > SSIZE_T_MAX - incr then Fatal ''vstring_extend: length overflow''
         else (let new_len = vb_len bp + incr in
               obind (myrealloc (vb_data bp) new_len) (\<lambda>d.
               Ok (bp\<lparr>vb_data := d, vb_len := new_len, vb_ptr := used, vb_cnt := new_len - used\<rparr>))))"

definition vstring_buf_get_ready :: "vstring \<Rightarrow> (int \<times> vstring) outcome" where
  "vstring_buf_get_ready bp = Panic ''vstring_buf_get: write-only buffer''"

definition vstring_buf_put_ready :: "vstring \<Rightarrow> (int \<times> vstring) outcome" where
  "vstring_buf_put_ready bp = obind (vstring_extend bp 0) (\<lambda>bp. Ok (0, bp))"

definition vstring_buf_space :: "vstring \<Rightarrow> int \<Rightarrow> (int \<times> vstring) outcome" where
  "vstring_buf_space bp len =
     (if len < 0 then Panic ''vstring_buf_space: bad length''
      else let need = len - vb_cnt bp in
           if need > 0 then obind (vstring_extend bp need) (\<lambda>bp. Ok (0, bp)) else Ok (0, bp))"

section \<open>The macros\<close>

definition VSTRING_SPACE :: "vstring \<Rightarrow> int \<Rightarrow> vstring outcome" where
  "VSTRING_SPACE vp len = obind (vstring_buf_space vp len) (\<lambda>(_, vp). Ok vp)"

definition VSTRING_RESET :: "vstring \<Rightarrow> vstring" where
  "VSTRING_RESET vp = vp\<lparr>vb_ptr := 0, vb_cnt := vb_len vp\<rparr>"

definition VSTRING_TERMINATE :: "vstring \<Rightarrow> vstring outcome" where
  "VSTRING_TERMINATE vp =
     obind (if vb_cnt vp \<le> 0 then VSTRING_SPACE vp 1 else Ok vp) (\<lambda>vp.
     obind (mem_write (vb_data vp) (vb_ptr vp) [NUL]) (\<lambda>d. Ok (vp\<lparr>vb_data := d\<rparr>)))"

definition VSTRING_ADDCH :: "vstring \<Rightarrow> char \<Rightarrow> vstring outcome" where
  "VSTRING_ADDCH vp ch = obind (run (VBUF_PUT vstring_buf_put_ready vp ch)) (\<lambda>(_, vp). Ok vp)"

definition VSTRING_AT_OFFSET :: "vstring \<Rightarrow> int \<Rightarrow> vstring" where
  "VSTRING_AT_OFFSET vp offset = vp\<lparr>vb_ptr := offset, vb_cnt := vb_len vp - offset\<rparr>"

function VSTRING_SKIP :: "vstring \<Rightarrow> vstring outcome" where
  "VSTRING_SKIP vp =
     (if vb_cnt vp > 0 then
        obind (mem_read (vb_data vp) (vb_ptr vp)) (\<lambda>c.
        if c \<noteq> NUL then VSTRING_SKIP (vp\<lparr>vb_ptr := vb_ptr vp + 1, vb_cnt := vb_cnt vp - 1\<rparr>)
        else Ok vp)
      else Ok vp)"
  by pat_completeness auto
termination
  by (relation "measure (\<lambda>vp. nat (vb_cnt vp))") auto

declare VSTRING_SKIP.simps [simp del]

text \<open>Several bytes through \<open>VSTRING_ADDCH\<close>, in order.\<close>

fun addchs :: "vstring \<Rightarrow> char list \<Rightarrow> vstring outcome" where
  "addchs vp [] = Ok vp"
| "addchs vp (c # cs) = obind (VSTRING_ADDCH vp c) (\<lambda>vp. addchs vp cs)"

lemma addchs_append: "addchs vp (cs @ ds) = obind (addchs vp cs) (\<lambda>vp. addchs vp ds)"
  by (induction cs arbitrary: vp) (simp_all add: outcome_simps)

section \<open>The functions\<close>

definition vstring_alloc :: "int \<Rightarrow> vstring outcome" where
  "vstring_alloc len =
     (if len < 1 then Panic ''vstring_alloc: bad length''
      else obind (mymalloc len) (\<lambda>d.
        let vp = VSTRING_RESET
              \<lparr>vb_flags = 0, vb_data = d, vb_len = len, vb_cnt = 0, vb_ptr = 0, vs_maxlen = 0\<rparr>
        in obind (mem_write (vb_data vp) 0 [NUL]) (\<lambda>d. Ok (vp\<lparr>vb_data := d\<rparr>))))"

datatype vstring_ctl_arg = CA_VSTRING_CTL_MAXLEN int | CA_VSTRING_CTL_EXACT

fun vstring_ctl :: "vstring \<Rightarrow> vstring_ctl_arg list \<Rightarrow> vstring outcome" where
  "vstring_ctl vp [] = Ok vp"
| "vstring_ctl vp (CA_VSTRING_CTL_MAXLEN n # args) =
     (if n < 0 then Panic ''vstring_ctl: bad max length''
      else vstring_ctl (vp\<lparr>vs_maxlen := n\<rparr>) args)"
| "vstring_ctl vp (CA_VSTRING_CTL_EXACT # args) =
     vstring_ctl (vp\<lparr>vb_flags := vb_flags vp OR VSTRING_FLAG_EXACT\<rparr>) args"

definition vstring_truncate :: "vstring \<Rightarrow> int \<Rightarrow> vstring outcome" where
  "vstring_truncate vp len =
     obind
       (if len < 0 then
          obind (ssize_value (- len)) (\<lambda>len.
          let move = VSTRING_LEN vp - len in
          if move > 0 then
            obind (mem_block (vb_data vp) move len) (\<lambda>bs.
            obind (mem_write (vb_data vp) 0 bs) (\<lambda>d. Ok (vp\<lparr>vb_data := d\<rparr>, len)))
          else Ok (vp, len))
        else Ok (vp, len))
     (\<lambda>(vp, len). Ok (if len < VSTRING_LEN vp then VSTRING_AT_OFFSET vp len else vp))"

definition vstring_strcat :: "vstring \<Rightarrow> string \<Rightarrow> vstring outcome" where
  "vstring_strcat vp src = obind (addchs vp src) VSTRING_TERMINATE"

definition vstring_strcpy :: "vstring \<Rightarrow> string \<Rightarrow> vstring outcome" where
  "vstring_strcpy vp src = obind (addchs (VSTRING_RESET vp) src) VSTRING_TERMINATE"

text \<open>The loops with a byte count as well: \<open>while (len-- > 0 && *src)\<close>.\<close>

fun addchs_n :: "vstring \<Rightarrow> string \<Rightarrow> int \<Rightarrow> vstring outcome" where
  "addchs_n vp [] len = Ok vp"
| "addchs_n vp (c # src) len =
     (if len > 0 then obind (VSTRING_ADDCH vp c) (\<lambda>vp. addchs_n vp src (len - 1)) else Ok vp)"

definition vstring_strncat :: "vstring \<Rightarrow> string \<Rightarrow> int \<Rightarrow> vstring outcome" where
  "vstring_strncat vp src len = obind (addchs_n vp src len) VSTRING_TERMINATE"

definition vstring_strncpy :: "vstring \<Rightarrow> string \<Rightarrow> int \<Rightarrow> vstring outcome" where
  "vstring_strncpy vp src len = obind (addchs_n (VSTRING_RESET vp) src len) VSTRING_TERMINATE"

text \<open>
  The memory variants take a block of \<open>len\<close> bytes, here the list of those bytes.
\<close>

definition vstring_memcpy :: "vstring \<Rightarrow> char list \<Rightarrow> vstring outcome" where
  "vstring_memcpy vp src =
     obind (VSTRING_SPACE (VSTRING_RESET vp) (int (length src))) (\<lambda>vp.
     obind (mem_write (vb_data vp) 0 src) (\<lambda>d.
     Ok (VSTRING_AT_OFFSET (vp\<lparr>vb_data := d\<rparr>) (int (length src)))))"

definition vstring_memcat :: "vstring \<Rightarrow> char list \<Rightarrow> vstring outcome" where
  "vstring_memcat vp src =
     obind (VSTRING_SPACE vp (int (length src))) (\<lambda>vp.
     obind (mem_write (vb_data vp) (vb_ptr vp) src) (\<lambda>d.
     let vp = vp\<lparr>vb_data := d\<rparr> in
     Ok (VSTRING_AT_OFFSET vp (int (length src) + VSTRING_LEN vp))))"

function vstring_memchr_from :: "vstring \<Rightarrow> char \<Rightarrow> int \<Rightarrow> int option outcome" where
  "vstring_memchr_from vp ch cp =
     (if cp < vb_ptr vp then
        obind (mem_read (vb_data vp) cp) (\<lambda>c.
        if c = ch then Ok (Some cp) else vstring_memchr_from vp ch (cp + 1))
      else Ok None)"
  by pat_completeness auto
termination
  by (relation "measure (\<lambda>(vp, ch, cp). nat (vb_ptr vp - cp))") auto

declare vstring_memchr_from.simps [simp del]

definition vstring_memchr :: "vstring \<Rightarrow> char \<Rightarrow> int option outcome" where
  "vstring_memchr vp ch = vstring_memchr_from vp ch 0"

text \<open>
  The two moves of an insertion: the text behind \<open>start\<close>, then \<open>len\<close> bytes from \<open>buf\<close>. The
  copy faults when the block behind \<open>buf\<close> is shorter.
\<close>

definition vs_splice :: "vstring \<Rightarrow> int \<Rightarrow> char list \<Rightarrow> int \<Rightarrow> vstring outcome" where
  "vs_splice vp start buf len =
     obind (mem_block (vb_data vp) start (VSTRING_LEN vp - start)) (\<lambda>tail.
     obind (mem_write (vb_data vp) (start + len) tail) (\<lambda>d.
     obind (mem_block buf 0 len) (\<lambda>bs.
     obind (mem_write d start bs) (\<lambda>d. Ok (vp\<lparr>vb_data := d\<rparr>)))))"

definition vstring_insert :: "vstring \<Rightarrow> int \<Rightarrow> char list \<Rightarrow> int \<Rightarrow> vstring outcome" where
  "vstring_insert vp start buf len =
     (if start < 0 \<or> start \<ge> VSTRING_LEN vp then Panic ''vstring_insert: bad start''
      else if len < 0 then Panic ''vstring_insert: bad length''
      else
        obind (ssize_value (VSTRING_LEN vp + len)) (\<lambda>new_len.
        obind (VSTRING_SPACE vp len) (\<lambda>vp.
        obind (vs_splice vp start buf len) (\<lambda>vp.
        VSTRING_TERMINATE (VSTRING_AT_OFFSET vp new_len)))))"

definition vstring_prepend :: "vstring \<Rightarrow> char list \<Rightarrow> int \<Rightarrow> vstring outcome" where
  "vstring_prepend vp buf len =
     (if len < 0 then Panic ''vstring_prepend: bad length''
      else
        obind (ssize_value (VSTRING_LEN vp + len)) (\<lambda>new_len.
        obind (VSTRING_SPACE vp len) (\<lambda>vp.
        obind (vs_splice vp 0 buf len) (\<lambda>vp.
        VSTRING_TERMINATE (VSTRING_AT_OFFSET vp new_len)))))"

text \<open>\<open>vstring_export\<close> gives the block away; \<open>vstring_import\<close> adopts one.\<close>

definition vstring_export :: "vstring \<Rightarrow> char list" where
  "vstring_export vp = vb_data vp"

definition vstring_import :: "string \<Rightarrow> vstring" where
  "vstring_import str =
     VSTRING_AT_OFFSET
       \<lparr>vb_flags = 0, vb_data = str @ [NUL], vb_len = int (length str) + 1,
        vb_cnt = 0, vb_ptr = 0, vs_maxlen = 0\<rparr> (int (length str))"

section \<open>Invariant and representation\<close>

definition vs_inv :: "vstring \<Rightarrow> bool" where
  "vs_inv vp \<longleftrightarrow> 1 \<le> vb_len vp \<and> vb_len vp \<le> SSIZE_T_MAX \<and> int (length (vb_data vp)) = vb_len vp \<and>
     0 \<le> vb_ptr vp \<and> vb_ptr vp \<le> vb_len vp \<and> vb_cnt vp = vb_len vp - vb_ptr vp"

text \<open>\<open>vs_holds vp bs\<close>: a well-formed string in the default allocation mode that holds \<open>bs\<close>.\<close>

definition vs_holds :: "vstring \<Rightarrow> char list \<Rightarrow> bool" where
  "vs_holds vp bs \<longleftrightarrow> vs_inv vp \<and> \<not> vs_exact vp \<and> vs_contents vp = bs"

definition vs_terminated :: "vstring \<Rightarrow> bool" where
  "vs_terminated vp \<longleftrightarrow> vb_ptr vp < vb_len vp \<and> vb_data vp ! nat (vb_ptr vp) = NUL"

text \<open>\<open>n\<close> bytes can still be held without the length overflow of \<open>vstring_extend\<close>.\<close>

definition room :: "nat \<Rightarrow> bool" where
  "room n \<longleftrightarrow> 2 * int n \<le> SSIZE_T_MAX"

lemma room_mono: "room n \<Longrightarrow> m \<le> n \<Longrightarrow> room m"
  by (simp add: room_def)

lemma vs_holds_ptr: "vs_holds vp bs \<Longrightarrow> vb_ptr vp = int (length bs)"
  by (auto simp: vs_holds_def vs_inv_def vs_contents_def)

lemma vs_holds_inv: "vs_holds vp bs \<Longrightarrow> vs_inv vp"
  by (simp add: vs_holds_def)

lemma vs_holds_LEN: "vs_holds vp bs \<Longrightarrow> VSTRING_LEN vp = int (length bs)"
  by (simp add: VSTRING_LEN_def vs_holds_ptr)

section \<open>Growth keeps the contents\<close>

lemma vstring_extend_ok:
  assumes "vs_inv vp" "0 \<le> incr" "vb_len vp + max incr (vb_len vp) \<le> SSIZE_T_MAX"
  shows "returns (vstring_extend vp incr) (\<lambda>vp'. vs_inv vp' \<and> vs_contents vp' = vs_contents vp \<and>
     vb_ptr vp' = vb_ptr vp \<and> vb_flags vp' = vb_flags vp \<and> vb_cnt vp + incr \<le> vb_cnt vp' \<and>
     (vs_exact vp \<or> vb_cnt vp + vb_len vp \<le> vb_cnt vp'))"
  using assms
  by (auto simp: vstring_extend_def myrealloc_def vs_inv_def vs_contents_def Let_def max_def
      nat_add_distrib split: if_splits)

lemma VSTRING_SPACE_ok:
  assumes "vs_inv vp" "room (nat (vb_ptr vp) + n)"
  shows "returns (VSTRING_SPACE vp (int n)) (\<lambda>vp'. vs_inv vp' \<and> vs_contents vp' = vs_contents vp \<and>
     vb_ptr vp' = vb_ptr vp \<and> vb_flags vp' = vb_flags vp \<and> int n \<le> vb_cnt vp')"
proof (cases "int n - vb_cnt vp > 0")
  case True
  with assms have "returns (vstring_extend vp (int n - vb_cnt vp)) (\<lambda>vp'. vs_inv vp' \<and>
     vs_contents vp' = vs_contents vp \<and> vb_ptr vp' = vb_ptr vp \<and> vb_flags vp' = vb_flags vp \<and>
     int n \<le> vb_cnt vp')"
    by (intro returns_mono [OF vstring_extend_ok]) (auto simp: room_def vs_inv_def)
  with True show ?thesis
    by (auto simp: VSTRING_SPACE_def vstring_buf_space_def returns_def)
qed (use assms in \<open>simp add: VSTRING_SPACE_def vstring_buf_space_def\<close>)

lemma vs_inv_store:
  assumes "vs_inv vp" "0 < vb_cnt vp" "vbuf_store vp ch = Ok (r, vp')"
  shows "vs_inv vp'" "vs_contents vp' = vs_contents vp @ [ch]" "vb_flags vp' = vb_flags vp"
proof -
  from assms obtain d where d: "mem_write (vb_data vp) (vb_ptr vp) [ch] = Ok d"
    and vp': "vp' = vbuf_advance vp d 1" by (auto simp: vbuf_store_def)
  show "vs_inv vp'" using assms(1,2) mem_write_length [OF d] by (auto simp: vs_inv_def vp')
  show "vs_contents vp' = vs_contents vp @ [ch]"
    using assms(1,2) d by (auto simp: vs_contents_def vp' vs_inv_def mem_write_def nat_add_distrib
        take_Suc_conv_app_nth nth_append)
  show "vb_flags vp' = vb_flags vp" by (simp add: vp')
qed

lemma put_ready_progress:
  assumes "vs_inv vp" "\<not> vs_exact vp" "vb_cnt vp \<le> 0" "vstring_buf_put_ready vp = Ok (0, vp')"
  shows "vs_inv vp' \<and> \<not> vs_exact vp' \<and> 0 < vb_cnt vp'"
  using assms by (auto simp: vstring_buf_put_ready_def vstring_extend_def myrealloc_def Let_def
      vs_inv_def vs_exact_def split: if_splits)

interpretation vs: vbuf_writer vstring_buf_put_ready "\<lambda>vp. vs_inv vp \<and> \<not> vs_exact vp"
proof
  fix bp bp' :: vstring and ch r
  show "vs_inv bp \<and> \<not> vs_exact bp \<Longrightarrow>
      0 \<le> vb_ptr bp \<and> vb_ptr bp + vb_cnt bp \<le> int (length (vb_data bp))"
    by (simp add: vs_inv_def)
  show "vs_inv bp \<and> \<not> vs_exact bp \<Longrightarrow> 0 < vb_cnt bp \<Longrightarrow> vbuf_store bp ch = Ok (r, bp') \<Longrightarrow>
      vs_inv bp' \<and> \<not> vs_exact bp'"
    by (auto simp: vs_exact_def vs_inv_store)
  show "vs_inv bp \<and> \<not> vs_exact bp \<Longrightarrow> vb_cnt bp \<le> 0 \<Longrightarrow> vstring_buf_put_ready bp = Ok (0, bp') \<Longrightarrow>
      (vs_inv bp' \<and> \<not> vs_exact bp') \<and> 0 < vb_cnt bp'"
    using put_ready_progress by blast
qed

lemma ADDCH_store:
  assumes "vs_holds vp bs" "0 < vb_cnt vp"
  shows "returns (VSTRING_ADDCH vp ch) (\<lambda>vp'. vs_holds vp' (bs @ [ch]))"
proof -
  have "vs_inv vp \<and> \<not> vs_exact vp" using assms(1) by (simp add: vs_holds_def)
  from vs.put_stores [OF this assms(2), of ch] obtain d where
    d: "mem_write (vb_data vp) (vb_ptr vp) [ch] = Ok d"
    and put: "run (VBUF_PUT vstring_buf_put_ready vp ch) = Ok (int (ord ch), vbuf_advance vp d 1)"
    by blast
  from d have "vbuf_store vp ch = Ok (int (ord ch), vbuf_advance vp d 1)"
    by (simp add: vbuf_store_def)
  from vs_inv_store [OF _ assms(2) this] assms(1) put show ?thesis
    by (simp add: VSTRING_ADDCH_def vs_holds_def vs_exact_def)
qed

lemma ADDCH_ok:
  assumes "vs_holds vp bs" "room (length bs)"
  shows "returns (VSTRING_ADDCH vp ch) (\<lambda>vp'. vs_holds vp' (bs @ [ch]))"
proof (cases "0 < vb_cnt vp")
  case False
  with assms have "returns (vstring_extend vp 0) (\<lambda>vp'. vs_holds vp' bs \<and> 0 < vb_cnt vp')"
    by (intro returns_mono [OF vstring_extend_ok])
      (auto simp: vs_holds_def vs_inv_def room_def vs_exact_def vs_contents_def)
  then obtain vp' where e: "vstring_extend vp 0 = Ok vp'" "vs_holds vp' bs" "0 < vb_cnt vp'"
    by (rule returnsE) auto
  then have "VSTRING_ADDCH vp ch = VSTRING_ADDCH vp' ch"
    using False unfolding VSTRING_ADDCH_def
    by (subst (1) VBUF_PUT_unfold) (simp add: vbuf_put_def vstring_buf_put_ready_def)
  with ADDCH_store [OF e(2,3)] show ?thesis by simp
qed (use ADDCH_store assms in blast)

lemma addchs_ok:
  "vs_holds vp bs \<Longrightarrow> room (length bs + length cs) \<Longrightarrow> returns (addchs vp cs) (\<lambda>vp'. vs_holds vp' (bs @ cs))"
proof (induction cs arbitrary: vp bs)
  case (Cons c cs)
  then have "returns (VSTRING_ADDCH vp c) (\<lambda>vp'. vs_holds vp' (bs @ [c]))"
    by (intro ADDCH_ok) (auto intro: room_mono)
  then show ?case
    using Cons.IH [of _ "bs @ [c]"] Cons.prems(2) by (auto intro!: returns_bind)
qed simp

lemma addchs_n_eq: "addchs_n vp src len = addchs vp (take (nat len) src)"
  by (induction vp src len rule: addchs_n.induct)
    (auto simp: take_Cons' nat_diff_distrib intro!: obind_cong)

lemma VSTRING_RESET_holds: "vs_holds vp bs \<Longrightarrow> vs_holds (VSTRING_RESET vp) []"
  by (auto simp: vs_holds_def VSTRING_RESET_def vs_inv_def vs_contents_def vs_exact_def)

lemma VSTRING_TERMINATE_ok:
  assumes "vs_holds vp bs" "room (Suc (length bs))"
  shows "returns (VSTRING_TERMINATE vp) (\<lambda>vp'. vs_holds vp' bs \<and> vs_terminated vp')"
proof -
  have inv: "vs_inv vp" and ptr: "nat (vb_ptr vp) = length bs"
    using assms(1) by (auto simp: vs_holds_def vs_holds_ptr)
  have space: "returns (if vb_cnt vp \<le> 0 then VSTRING_SPACE vp 1 else Ok vp)
      (\<lambda>vp'. vs_holds vp' bs \<and> 0 < vb_cnt vp')"
    using VSTRING_SPACE_ok [OF inv, of 1] assms ptr
    by (auto simp: vs_holds_def vs_exact_def elim!: returns_mono)
  have store: "returns (obind (mem_write (vb_data v) (vb_ptr v) [NUL]) (\<lambda>d. Ok (v\<lparr>vb_data := d\<rparr>)))
      (\<lambda>vp'. vs_holds vp' bs \<and> vs_terminated vp')" if "vs_holds v bs \<and> 0 < vb_cnt v" for v
    using that by (auto simp: vs_holds_def vs_inv_def mem_write_def vs_contents_def vs_terminated_def
        vs_exact_def nth_append)
  show ?thesis unfolding VSTRING_TERMINATE_def by (rule returns_bind [OF space store])
qed

section \<open>The functions as list operations\<close>

lemma vstring_alloc_ok:
  assumes "1 \<le> len" "len \<le> SSIZE_T_MAX"
  shows "returns (vstring_alloc len) (\<lambda>vp. vs_holds vp [] \<and> vs_terminated vp \<and> vstring_avail vp = len)"
  using assms by (auto simp: vstring_alloc_def mymalloc_def VSTRING_RESET_def mem_write_def vs_holds_def
      vs_inv_def vs_exact_def vs_contents_def vs_terminated_def vstring_avail_def Let_def VSTRING_FLAG_EXACT_def)

text \<open>An empty string, the concrete buffer of the witnesses.\<close>

definition empty_vstring :: vstring where
  "empty_vstring = (case vstring_alloc 1 of Ok vp \<Rightarrow> vp | _ \<Rightarrow> undefined)"

lemma empty_vstring_holds: "vs_holds empty_vstring []"
  using vstring_alloc_ok [of 1] by (auto simp: empty_vstring_def SSIZE_T_MAX_def elim!: returnsE)

lemma vstring_strcat_ok:
  assumes "vs_holds vp bs" "room (Suc (length bs + length src))"
  shows "returns (vstring_strcat vp src) (\<lambda>vp'. vs_holds vp' (bs @ src) \<and> vs_terminated vp')"
  unfolding vstring_strcat_def
proof (rule returns_bind [OF addchs_ok [OF assms(1)]])
  show "room (length bs + length src)" using assms(2) by (rule room_mono) simp
qed (use assms(2) in \<open>auto intro!: VSTRING_TERMINATE_ok\<close>)

lemma vstring_strcpy_ok:
  assumes "vs_holds vp bs" "room (Suc (length src))"
  shows "returns (vstring_strcpy vp src) (\<lambda>vp'. vs_holds vp' src \<and> vs_terminated vp')"
  using vstring_strcat_ok [OF VSTRING_RESET_holds [OF assms(1)], of src] assms(2)
  by (simp add: vstring_strcat_def vstring_strcpy_def)

lemma vstring_strncat_eq: "vstring_strncat vp src len = vstring_strcat vp (take (nat len) src)"
  by (simp add: vstring_strncat_def vstring_strcat_def addchs_n_eq)

lemma vstring_strncpy_eq: "vstring_strncpy vp src len = vstring_strcpy vp (take (nat len) src)"
  by (simp add: vstring_strncpy_def vstring_strcpy_def addchs_n_eq)

text \<open>A block written at the write position, the position then moved behind it.\<close>

lemma block_written:
  assumes "vs_inv vp" "\<not> vs_exact vp" "int (length src) \<le> vb_cnt vp"
  shows "returns (mem_write (vb_data vp) (vb_ptr vp) src)
    (\<lambda>d. vs_holds (VSTRING_AT_OFFSET (vp\<lparr>vb_data := d\<rparr>) (int (length src) + vb_ptr vp)) (vs_contents vp @ src))"
  using assms by (auto simp: vs_inv_def mem_write_def vs_holds_def VSTRING_AT_OFFSET_def vs_contents_def
      vs_exact_def nat_add_distrib)

lemma vstring_memcat_ok:
  assumes "vs_holds vp bs" "room (length bs + length src)"
  shows "returns (vstring_memcat vp src) (\<lambda>vp'. vs_holds vp' (bs @ src))"
proof -
  have space: "returns (VSTRING_SPACE vp (int (length src)))
      (\<lambda>vp'. vs_holds vp' bs \<and> int (length src) \<le> vb_cnt vp')"
    using assms VSTRING_SPACE_ok [of vp "length src"] vs_holds_ptr [OF assms(1)]
    by (auto simp: vs_holds_def vs_exact_def elim!: returns_mono)
  have store: "returns (mem_write (vb_data v) (vb_ptr v) src)
      (\<lambda>d. vs_holds (VSTRING_AT_OFFSET (v\<lparr>vb_data := d\<rparr>) (int (length src) + vb_ptr v)) (bs @ src))"
    if "vs_holds v bs \<and> int (length src) \<le> vb_cnt v" for v
    using block_written [of v src] that by (auto simp: vs_holds_def)
  show ?thesis unfolding vstring_memcat_def
    by (rule returns_bind [OF space])
      (auto simp: Let_def VSTRING_LEN_def intro!: returns_bind [OF store])
qed

lemma VSTRING_SPACE_ptr: "VSTRING_SPACE vp n = Ok vp' \<Longrightarrow> vb_ptr vp' = vb_ptr vp"
  by (auto simp: VSTRING_SPACE_def vstring_buf_space_def vstring_extend_def Let_def split: if_splits)

lemma vstring_memcpy_eq: "vstring_memcpy vp src = vstring_memcat (VSTRING_RESET vp) src"
proof -
  have "vb_ptr vp' = 0" if "VSTRING_SPACE (VSTRING_RESET vp) (int (length src)) = Ok vp'" for vp'
    using VSTRING_SPACE_ptr [OF that] by (simp add: VSTRING_RESET_def)
  then show ?thesis unfolding vstring_memcpy_def vstring_memcat_def
    by (intro obind_cong) (auto simp: VSTRING_LEN_def Let_def)
qed

lemma vstring_truncate_ok:
  assumes "vs_holds vp bs" "- SSIZE_T_MAX \<le> len"
  shows "returns (vstring_truncate vp len) (\<lambda>vp'. vs_holds vp'
    (if 0 \<le> len then take (nat len) bs else drop (length bs - nat (- len)) bs))"
proof -
  have neg: "len < 0 \<Longrightarrow> ssize_value (- len) = Ok (- len)" using assms(2) by (simp add: SSIZE_T_MAX_def)
  have ptr: "vb_ptr vp = int (length bs)" by (rule vs_holds_ptr [OF assms(1)])
  have cut: "vs_holds (if n < VSTRING_LEN v then VSTRING_AT_OFFSET v n else v) (take (nat n) cs)"
    if "vs_holds v cs" "0 \<le> n" for v cs n
    using that by (cases "n < vb_ptr v") (auto simp: vs_holds_def vs_inv_def VSTRING_AT_OFFSET_def
        vs_exact_def vs_contents_def VSTRING_LEN_def min.absorb1 min.absorb2)
  show ?thesis
  proof (cases "len < 0 \<and> VSTRING_LEN vp + len > 0")
    case True
    define k where "k = nat (- len)"
    have k: "- len = int k" "k \<le> length bs" "0 < length bs - k"
      using True by (auto simp: k_def VSTRING_LEN_def ptr)
    let ?d = "drop (length bs - k) bs @ drop k (vb_data vp)"
    have "take (length bs) (vb_data vp) = bs"
      using assms(1) by (simp add: vs_holds_def vs_contents_def ptr)
    then have "take k (drop (length bs - k) (vb_data vp)) = drop (length bs - k) bs"
      using k(2) by (metis diff_diff_cancel drop_take)
    then have "mem_block (vb_data vp) (VSTRING_LEN vp - - len) (- len) = Ok (drop (length bs - k) bs)"
      using assms k by (auto simp: vs_holds_def vs_inv_def mem_block_def VSTRING_LEN_def ptr nat_diff_distrib)
    moreover have "mem_write (vb_data vp) 0 (drop (length bs - k) bs) = Ok ?d"
      using assms k by (auto simp: vs_holds_def vs_inv_def mem_write_def ptr)
    moreover have "vs_holds (VSTRING_AT_OFFSET (vp\<lparr>vb_data := ?d\<rparr>) (int k)) (drop (length bs - k) bs)"
      using assms k by (auto simp: vs_holds_def vs_inv_def VSTRING_AT_OFFSET_def vs_exact_def
          vs_contents_def ptr)
    ultimately show ?thesis
      using True k neg unfolding vstring_truncate_def by (simp add: Let_def VSTRING_LEN_def ptr)
  next
    case False
    then show ?thesis
      using neg cut [OF assms(1), of "\<bar>len\<bar>"] assms(1) unfolding vstring_truncate_def
      by (auto simp: Let_def VSTRING_LEN_def ptr)
  qed
qed

lemma vs_splice_ok:
  assumes "vs_holds vp bs" "int (length buf) \<le> vb_cnt vp" "start \<le> length bs"
  shows "returns (vs_splice vp (int start) (buf @ tail) (int (length buf)))
    (\<lambda>v. vs_holds (VSTRING_AT_OFFSET v (VSTRING_LEN vp + int (length buf))) (take start bs @ buf @ drop start bs))"
proof -
  let ?n = "length buf" and ?L = "length bs" and ?D = "vb_data vp"
  have bs: "take ?L ?D = bs" and ptr: "vb_ptr vp = int ?L" and len: "?L + ?n \<le> length ?D"
    and inv: "vs_inv vp" "\<not> vs_exact vp"
    using assms vs_holds_ptr [OF assms(1)] by (auto simp: vs_holds_def vs_inv_def vs_contents_def)
  let ?d1 = "take (start + ?n) ?D @ drop start bs @ drop (?L + ?n) ?D"
  let ?d2 = "take start bs @ buf @ drop start bs @ drop (?L + ?n) ?D"
  have pre: "take start ?D = take start bs"
    using assms(3) bs by (metis min.absorb1 take_take)
  have "mem_block ?D (int start) (VSTRING_LEN vp - int start) = Ok (drop start bs)"
    using assms(3) len bs by (auto simp: mem_block_def VSTRING_LEN_def ptr take_drop nat_diff_distrib)
  moreover have "mem_write ?D (int start + int ?n) (drop start bs) = Ok ?d1"
    using assms(3) len by (auto simp: mem_write_def nat_add_distrib add.commute)
  moreover have "mem_write ?d1 (int start) buf = Ok ?d2"
    using assms(3) len pre by (simp add: mem_write_def min_def)
  moreover have "vs_holds (VSTRING_AT_OFFSET (vp\<lparr>vb_data := ?d2\<rparr>) (VSTRING_LEN vp + int ?n))
      (take start bs @ buf @ drop start bs)"
    using assms(3) len inv by (auto simp: vs_holds_def vs_inv_def VSTRING_AT_OFFSET_def VSTRING_LEN_def
        vs_exact_def vs_contents_def ptr nat_add_distrib)
  moreover have "mem_block (buf @ tail) 0 (int ?n) = Ok buf" by (simp add: mem_block_def)
  ultimately show ?thesis by (simp add: vs_splice_def)
qed

lemma space_then:
  assumes "vs_holds vp bs" "room (length bs + n)"
    and "\<And>v. vs_holds v bs \<Longrightarrow> int n \<le> vb_cnt v \<Longrightarrow> VSTRING_LEN v = VSTRING_LEN vp \<Longrightarrow> returns (f v) Q"
  shows "returns (obind (VSTRING_SPACE vp (int n)) f) Q"
proof (rule returns_bind)
  show "returns (VSTRING_SPACE vp (int n)) (\<lambda>v. vs_holds v bs \<and> int n \<le> vb_cnt v \<and> VSTRING_LEN v = VSTRING_LEN vp)"
    using assms(1,2) VSTRING_SPACE_ok [of vp n] vs_holds_ptr [OF assms(1)]
    by (auto simp: vs_holds_def vs_exact_def VSTRING_LEN_def elim!: returns_mono)
qed (use assms(3) in blast)

lemma splice_terminate_ok:
  assumes "vs_holds vp bs" "start \<le> length bs" "room (Suc (length bs + length buf))"
  shows "returns (obind (ssize_value (VSTRING_LEN vp + int (length buf))) (\<lambda>new_len.
      obind (VSTRING_SPACE vp (int (length buf))) (\<lambda>v. obind (vs_splice v (int start) (buf @ tail) (int (length buf)))
      (\<lambda>v. VSTRING_TERMINATE (VSTRING_AT_OFFSET v new_len)))))
    (\<lambda>vp'. vs_holds vp' (take start bs @ buf @ drop start bs) \<and> vs_terminated vp')"
proof -
  have new_len: "ssize_value (VSTRING_LEN vp + int (length buf)) = Ok (VSTRING_LEN vp + int (length buf))"
    using assms(3) vs_holds_LEN [OF assms(1)] by (simp add: ssize_value_def room_def SSIZE_T_MAX_def)
  show ?thesis unfolding new_len obind.simps
  proof (rule space_then [OF assms(1)])
    show "room (length bs + length buf)" using assms(3) by (rule room_mono) simp
    fix v assume v: "vs_holds v bs" "int (length buf) \<le> vb_cnt v" "VSTRING_LEN v = VSTRING_LEN vp"
    have r: "room (Suc (length (take start bs @ buf @ drop start bs)))"
      using assms(2,3) by (simp add: add.commute)
    show "returns (obind (vs_splice v (int start) (buf @ tail) (int (length buf)))
        (\<lambda>v. VSTRING_TERMINATE (VSTRING_AT_OFFSET v (VSTRING_LEN vp + int (length buf)))))
      (\<lambda>vp'. vs_holds vp' (take start bs @ buf @ drop start bs) \<and> vs_terminated vp')"
      unfolding v(3) [symmetric]
      by (rule returns_bind [OF vs_splice_ok [OF v(1,2) assms(2)]]) (rule VSTRING_TERMINATE_ok [OF _ r])
  qed
qed

lemma vstring_insert_ok:
  assumes "vs_holds vp bs" "start < length bs" "room (Suc (length bs + length buf))"
  shows "returns (vstring_insert vp (int start) (buf @ tail) (int (length buf)))
    (\<lambda>vp'. vs_holds vp' (take start bs @ buf @ drop start bs) \<and> vs_terminated vp')"
  using splice_terminate_ok [OF assms(1), of start buf tail] assms vs_holds_LEN [OF assms(1)]
  by (simp add: vstring_insert_def)

lemma vstring_prepend_ok:
  assumes "vs_holds vp bs" "room (Suc (length bs + length buf))"
  shows "returns (vstring_prepend vp (buf @ tail) (int (length buf))) (\<lambda>vp'. vs_holds vp' (buf @ bs) \<and> vs_terminated vp')"
  using splice_terminate_ok [OF assms(1), of 0 buf tail] assms by (simp add: vstring_prepend_def)

lemma vstring_memchr_from_ok:
  assumes "vs_holds vp bs" "i \<le> length bs"
  shows "vstring_memchr_from vp ch (int i) =
    Ok (if ch \<in> set (drop i bs) then Some (int (i + length (takeWhile (\<lambda>c. c \<noteq> ch) (drop i bs)))) else None)"
  using assms(2)
proof (induction "length bs - i" arbitrary: i)
  case 0
  with vs_holds_ptr [OF assms(1)] show ?case by (subst vstring_memchr_from.simps) auto
next
  case (Suc n)
  then have i: "i < length bs" by simp
  have inv: "length bs \<le> length (vb_data vp)" "bs = take (length bs) (vb_data vp)"
    using assms(1) vs_holds_ptr [OF assms(1)] by (auto simp: vs_holds_def vs_inv_def vs_contents_def)
  have rd: "mem_read (vb_data vp) (int i) = Ok (bs ! i)"
    using i inv by (auto simp: mem_read_def) (metis nth_take)
  have d: "drop i bs = bs ! i # drop (Suc i) bs" using i by (simp add: Cons_nth_drop_Suc)
  show ?case
    using Suc.hyps(1) [of "Suc i"] Suc.hyps(2) i rd vs_holds_ptr [OF assms(1)]
    by (subst vstring_memchr_from.simps) (auto simp: d add.commute)
qed

lemma vstring_import_holds:
  "room (Suc (length str)) \<Longrightarrow> vs_holds (vstring_import str) str \<and> vs_terminated (vstring_import str)"
  by (simp add: vstring_import_def VSTRING_AT_OFFSET_def vs_holds_def vs_inv_def vs_exact_def
      VSTRING_FLAG_EXACT_def vs_contents_def vs_terminated_def nth_append room_def)

section \<open>Properties\<close>

text \<open>
  C15. The writing operations are the list operations they document. On a well-formed string
  that holds \<open>bs\<close>, as long as the result is no longer than half the address range, each call
  returns (no overflow, no access outside the block, no endless loop), the result is
  well-formed again and holds the copied, appended or bounded text, and the string functions
  leave it null-terminated.
\<close>
theorem vstring_writes:
  assumes "vs_holds vp bs" "room (Suc (length bs + length src))"
  shows "returns (vstring_strcpy vp src) (\<lambda>v. vs_holds v src \<and> vs_terminated v)
    \<and> returns (vstring_strncpy vp src n) (\<lambda>v. vs_holds v (take (nat n) src) \<and> vs_terminated v)
    \<and> returns (vstring_strcat vp src) (\<lambda>v. vs_holds v (bs @ src) \<and> vs_terminated v)
    \<and> returns (vstring_strncat vp src n) (\<lambda>v. vs_holds v (bs @ take (nat n) src) \<and> vs_terminated v)
    \<and> returns (vstring_memcpy vp src) (\<lambda>v. vs_holds v src)
    \<and> returns (vstring_memcat vp src) (\<lambda>v. vs_holds v (bs @ src))"
proof (intro conjI)
  note r = room_mono [OF assms(2)]
  show "returns (vstring_strcpy vp src) (\<lambda>v. vs_holds v src \<and> vs_terminated v)"
    by (rule vstring_strcpy_ok [OF assms(1)], rule r) simp
  show "returns (vstring_strncpy vp src n) (\<lambda>v. vs_holds v (take (nat n) src) \<and> vs_terminated v)"
    unfolding vstring_strncpy_eq by (rule vstring_strcpy_ok [OF assms(1)], rule r) simp
  show "returns (vstring_strcat vp src) (\<lambda>v. vs_holds v (bs @ src) \<and> vs_terminated v)"
    by (rule vstring_strcat_ok [OF assms])
  show "returns (vstring_strncat vp src n) (\<lambda>v. vs_holds v (bs @ take (nat n) src) \<and> vs_terminated v)"
    unfolding vstring_strncat_eq by (rule vstring_strcat_ok [OF assms(1)], rule r) simp
  show "returns (vstring_memcat vp src) (\<lambda>v. vs_holds v (bs @ src))"
    by (rule vstring_memcat_ok [OF assms(1)], rule r) simp
  show "returns (vstring_memcpy vp src) (\<lambda>v. vs_holds v src)"
    unfolding vstring_memcpy_eq using vstring_memcat_ok [OF VSTRING_RESET_holds [OF assms(1)], of src] r
    by simp
qed

theorem vstring_writes_witness:
  "returns (vstring_strcpy (vstring_import ''ab'') ''xyz'') (\<lambda>v. vs_holds v ''xyz'' \<and> vs_terminated v)
   \<and> returns (vstring_memcat (vstring_import ''ab'') ''xyz'') (\<lambda>v. vs_holds v ''abxyz'')"
  using vstring_writes [of "vstring_import ''ab''" "''ab''" "''xyz''"] vstring_import_holds [of "''ab''"]
  by (simp add: room_def SSIZE_T_MAX_def)

text \<open>
  C33. The editing operations, called with a block \<open>buf\<close> and a number of bytes \<open>len\<close> of it:
  \<open>vstring_insert\<close> splices those bytes in at the position, \<open>vstring_prepend\<close> in front, \<open>vstring_truncate\<close>
  keeps the head for a length that is not negative and the tail for a negative one, and \<open>vstring_memchr\<close>
  finds the first occurrence. A start position before or behind the text and a negative number of bytes are
  panics. The least value of \<open>ssize_t\<close> is not a legal length for \<open>vstring_truncate\<close>, which negates it.
\<close>
theorem vstring_edits:
  assumes "vs_holds vp bs" "room (Suc (length bs + length buf))" "len \<le> int (length buf)"
  shows "(if len < 0 then vstring_prepend vp buf len = Panic ''vstring_prepend: bad length''
       else returns (vstring_prepend vp buf len) (\<lambda>v. vs_holds v (take (nat len) buf @ bs) \<and> vs_terminated v))
    \<and> (if start < 0 \<or> int (length bs) \<le> start then vstring_insert vp start buf len = Panic ''vstring_insert: bad start''
       else if len < 0 then vstring_insert vp start buf len = Panic ''vstring_insert: bad length''
       else returns (vstring_insert vp start buf len)
              (\<lambda>v. vs_holds v (take (nat start) bs @ take (nat len) buf @ drop (nat start) bs) \<and> vs_terminated v))
    \<and> (if n = - SSIZE_T_MAX - 1 then vstring_truncate vp n = Fault
       else - SSIZE_T_MAX \<le> n \<longrightarrow> returns (vstring_truncate vp n)
         (\<lambda>v. vs_holds v (if 0 \<le> n then take (nat n) bs else drop (length bs - nat (- n)) bs)))
    \<and> vstring_memchr vp ch =
         Ok (if ch \<in> set bs then Some (int (length (takeWhile (\<lambda>c. c \<noteq> ch) bs))) else None)"
proof (intro conjI)
  define src rest where "src = take (nat len) buf" and "rest = drop (nat len) buf"
  have buf: "src @ rest = buf" by (simp add: src_def rest_def)
  have len: "int (length src) = len" if "\<not> len < 0" using assms(3) that by (simp add: src_def)
  have room: "room (Suc (length bs + length src))" using assms(2) by (rule room_mono) (simp add: src_def)
  note LEN = vs_holds_LEN [OF assms(1)]
  have "returns (vstring_prepend vp buf len) (\<lambda>v. vs_holds v (src @ bs) \<and> vs_terminated v)" if "\<not> len < 0"
    using vstring_prepend_ok [OF assms(1) room, of rest] unfolding buf len [OF that] .
  then show "if len < 0 then vstring_prepend vp buf len = Panic ''vstring_prepend: bad length''
      else returns (vstring_prepend vp buf len) (\<lambda>v. vs_holds v (take (nat len) buf @ bs) \<and> vs_terminated v)"
    unfolding src_def by (simp add: vstring_prepend_def)
  have "returns (vstring_insert vp start buf len)
      (\<lambda>v. vs_holds v (take (nat start) bs @ src @ drop (nat start) bs) \<and> vs_terminated v)"
    if "\<not> (start < 0 \<or> int (length bs) \<le> start)" "\<not> len < 0"
    using vstring_insert_ok [OF assms(1) _ room, of "nat start" rest] that(1) unfolding buf len [OF that(2)]
    by (simp add: nat_less_iff)
  then show "if start < 0 \<or> int (length bs) \<le> start then vstring_insert vp start buf len = Panic ''vstring_insert: bad start''
      else if len < 0 then vstring_insert vp start buf len = Panic ''vstring_insert: bad length''
      else returns (vstring_insert vp start buf len)
             (\<lambda>v. vs_holds v (take (nat start) bs @ take (nat len) buf @ drop (nat start) bs) \<and> vs_terminated v)"
    unfolding src_def using LEN by (simp add: vstring_insert_def)
  show "if n = - SSIZE_T_MAX - 1 then vstring_truncate vp n = Fault
      else - SSIZE_T_MAX \<le> n \<longrightarrow> returns (vstring_truncate vp n)
        (\<lambda>v. vs_holds v (if 0 \<le> n then take (nat n) bs else drop (length bs - nat (- n)) bs))"
    using vstring_truncate_ok [OF assms(1), of n] by (simp add: vstring_truncate_def ssize_value_def SSIZE_T_MAX_def)
  show "vstring_memchr vp ch =
      Ok (if ch \<in> set bs then Some (int (length (takeWhile (\<lambda>c. c \<noteq> ch) bs))) else None)"
    using vstring_memchr_from_ok [OF assms(1), of 0 ch] by (simp add: vstring_memchr_def)
qed

theorem vstring_edits_witness:
  "returns (vstring_insert (vstring_import ''ad'') 1 ''bcx'' 2) (\<lambda>v. vs_holds v ''abcd'' \<and> vs_terminated v)
   \<and> returns (vstring_truncate (vstring_import ''ad'') (-1)) (\<lambda>v. vs_holds v ''d'')"
  using vstring_edits [of "vstring_import ''ad''" "''ad''" "''bcx''" 2 1 "-1" "CHR ''a''"]
    vstring_import_holds [of "''ad''"]
  by (simp add: room_def SSIZE_T_MAX_def)

text \<open>
  C32. Bulk output into a string, \<open>vbuf_write\<close>, copies block by block; it gives exactly the
  buffer, the count and the error that the byte-wise loop of \<open>VBUF_PUT\<close> calls gives.
\<close>
theorem vbuf_write_is_bytewise:
  assumes "vs_inv vp" "\<not> vs_exact vp"
  shows "vbuf_write vstring_buf_put_ready vp buf = vbuf_write_bytes vstring_buf_put_ready vp buf 0"
  using vs.write_bytes [of vp buf] assms by simp

theorem vbuf_write_is_bytewise_witness:
  "vbuf_write vstring_buf_put_ready (vstring_import ''ab'') ''cdef'' =
   vbuf_write_bytes vstring_buf_put_ready (vstring_import ''ab'') ''cdef'' 0"
  using vbuf_write_is_bytewise [of "vstring_import ''ab''" "''cdef''"] vstring_import_holds [of "''ab''"]
  by (simp add: room_def SSIZE_T_MAX_def vs_holds_def)

lemma exact_put_ready_id:
  assumes "vs_inv vp" "vs_exact vp" "vb_cnt vp = 0"
  shows "vstring_buf_put_ready vp = Ok (0, vp)"
  using assms by (auto simp: vstring_buf_put_ready_def vstring_extend_def myrealloc_def vs_inv_def Let_def)

lemma VBUF_PUT_stuck:
  assumes "put_ready bp = Ok (0, bp)" "vb_cnt bp \<le> 0"
  shows "VBUF_PUT put_ready bp ch = None"
proof (rule ccontr)
  assume "VBUF_PUT put_ready bp ch \<noteq> None"
  then obtain y where ret: "VBUF_PUT put_ready bp ch = Some y" by blast
  have "\<not> (put_ready = put_ready \<and> bp = bp)"
    by (rule VBUF_PUT.raw_induct [where P = "\<lambda>f b c y. \<not> (f = put_ready \<and> b = bp)", OF _ ret])
      (use assms in fastforce)
  then show False by simp
qed

text \<open>
  C38. A string in the exact allocation mode (\<open>CA_VSTRING_CTL_EXACT\<close>) whose buffer is full
  never gets its next byte: \<open>vstring_buf_put_ready\<close> asks for an increment of zero, the
  buffer does not grow, and \<open>VSTRING_ADDCH\<close> calls itself for ever. The documentation
  promises that the string is extended when it fills up.
\<close>
theorem exact_addch_diverges:
  assumes "vs_inv vp" "vs_exact vp" "vb_cnt vp = 0"
  shows "VSTRING_ADDCH vp ch = Diverge"
  using VBUF_PUT_stuck [of vstring_buf_put_ready vp ch] exact_put_ready_id [OF assms] assms(3) by (simp add: VSTRING_ADDCH_def run_def)

theorem exact_addch_diverges_witness:
  "obind (vstring_alloc 1) (\<lambda>vp. obind (vstring_ctl vp [CA_VSTRING_CTL_EXACT]) (\<lambda>vp.
   obind (VSTRING_ADDCH vp CHR ''a'') (\<lambda>vp. VSTRING_ADDCH vp CHR ''b''))) = Diverge"
proof -
  define v where "v = \<lparr>vb_flags = VSTRING_FLAG_EXACT, vb_data = ''a'', vb_len = 1, vb_cnt = 0, vb_ptr = 1, vs_maxlen = 0\<rparr>"
  have "obind (vstring_alloc 1) (\<lambda>vp. obind (vstring_ctl vp [CA_VSTRING_CTL_EXACT]) (\<lambda>vp.
      VSTRING_ADDCH vp CHR ''a'')) = Ok v"
    by (simp add: vstring_alloc_def mymalloc_def VSTRING_RESET_def mem_write_def VSTRING_ADDCH_def
        VBUF_PUT_unfold vbuf_store_def vbuf_advance_def v_def)
  moreover have "VSTRING_ADDCH v CHR ''b'' = Diverge"
    by (rule exact_addch_diverges)
      (simp_all add: v_def vs_inv_def vs_exact_def VSTRING_FLAG_EXACT_def SSIZE_T_MAX_def)
  ultimately show ?thesis by (auto simp flip: obind_assoc)
qed

end
