(* ===== verification/Codec.thy ===== *)
theory Codec
  imports Vstring
begin

text \<open>
  The contract of the binary-to-text codecs of \<open>src/util\<close>: an encoder writes the text
  of a block of bytes into a \<open>VSTRING\<close>, and the decoder applied to such a text writes
  the bytes. \<open>text_of\<close> is the text and \<open>valid\<close> the input domain. The margin of 64
  bytes covers the terminator and the space that formatted output reserves.
\<close>

text \<open>\<open>stored r cs\<close>: the call returned a string that holds \<open>cs\<close> and is null terminated.\<close>

definition stored :: "vstring outcome \<Rightarrow> char list \<Rightarrow> bool" where
  "stored r cs \<longleftrightarrow> returns r (\<lambda>vp. vs_holds vp cs \<and> vs_terminated vp)"

definition decoded :: "vstring option outcome \<Rightarrow> char list \<Rightarrow> bool" where
  "decoded r cs \<longleftrightarrow> returns r (\<lambda>ov. \<exists>vp. ov = Some vp \<and> vs_holds vp cs \<and> vs_terminated vp)"

lemma stored_addchs:
  assumes "vs_holds vp bs" "room (Suc (length bs + length cs))"
  shows "stored (obind (addchs vp cs) VSTRING_TERMINATE) (bs @ cs)"
  unfolding stored_def
  by (rule returns_bind [OF addchs_ok [OF assms(1)]]) (use assms in \<open>auto intro: VSTRING_TERMINATE_ok room_mono\<close>)

lemma stored_reset:
  assumes "vs_holds vp bs" "room (Suc (length cs))"
  shows "stored (obind (addchs (VSTRING_RESET vp) cs) VSTRING_TERMINATE) cs"
  using stored_addchs [OF VSTRING_RESET_holds [OF assms(1)], of cs] assms(2) by simp

lemma decoded_stored:
  "stored r cs \<Longrightarrow> decoded (obind r (\<lambda>vp. Ok (Some vp))) cs"
  by (auto simp: stored_def decoded_def elim!: returnsE)

text \<open>The end of a decoder: a null result is passed on, a string is terminated.\<close>

definition finish_decode :: "vstring option outcome \<Rightarrow> vstring option outcome" where
  "finish_decode r = obind r (\<lambda>r. case r of
     None \<Rightarrow> Ok None
   | Some result \<Rightarrow> obind (VSTRING_TERMINATE result) (\<lambda>result. Ok (Some result)))"

lemma decoded_unique: "decoded r cs \<Longrightarrow> decoded r ds \<Longrightarrow> cs = ds"
  by (auto simp: decoded_def vs_holds_def elim!: returnsE)

locale codec =
  fixes encode :: "vstring \<Rightarrow> char list \<Rightarrow> vstring outcome"
    and decode :: "vstring \<Rightarrow> char list \<Rightarrow> vstring option outcome"
    and text_of :: "char list \<Rightarrow> string"
    and valid :: "char list \<Rightarrow> bool"
  assumes text_grows: "length cs \<le> length (text_of cs)"
    and encode_text: "valid cs \<Longrightarrow> vs_holds vp bs \<Longrightarrow> room (length (text_of cs) + 64) \<Longrightarrow>
          stored (encode vp cs) (text_of cs)"
    and decode_text: "valid cs \<Longrightarrow> vs_holds vp bs \<Longrightarrow> room (Suc (length cs)) \<Longrightarrow>
          decoded (decode vp (text_of cs)) cs"
begin

lemma roundtrip:
  assumes "vs_holds enc bs" "vs_holds dec ds" "valid cs" "room (length (text_of cs) + 64)"
  shows "returns (encode enc cs) (\<lambda>e. vs_contents e = text_of cs \<and> vs_terminated e \<and>
           decoded (decode dec (vs_contents e)) cs)"
proof -
  have "room (Suc (length cs))" by (rule room_mono [OF assms(4)]) (use text_grows [of cs] in simp)
  then have "decoded (decode dec (text_of cs)) cs" using decode_text [OF assms(3,2)] by simp
  then show ?thesis
    using encode_text [OF assms(3,1,4)] by (auto simp: stored_def vs_holds_def elim!: returns_mono)
qed

lemma text_injective:
  assumes "vs_holds vp bs" "valid cs" "valid ds" "room (Suc (length cs))" "room (Suc (length ds))"
    and "text_of cs = text_of ds"
  shows "cs = ds"
  using decode_text [OF assms(2,1,4)] decode_text [OF assms(3,1,5)] assms(6) decoded_unique by metis

end

text \<open>
  Codecs that handle one byte at a time: the encoding loop appends the text of each byte,
  and the decoding loop, at the text of a byte, appends that byte and goes on behind it.
\<close>

locale byte_codec =
  fixes enc_loop :: "vstring \<Rightarrow> char list \<Rightarrow> vstring outcome"
    and step :: "vstring \<Rightarrow> char \<Rightarrow> vstring outcome"
    and dec_loop :: "vstring \<Rightarrow> string \<Rightarrow> vstring option outcome"
    and byte_text :: "char \<Rightarrow> string"
    and valid_byte :: "char \<Rightarrow> bool"
  assumes enc_Nil: "enc_loop vp [] = Ok vp"
    and enc_Cons: "enc_loop vp (c # cs) = obind (step vp c) (\<lambda>vp. enc_loop vp cs)"
    and step_ok: "valid_byte c \<Longrightarrow> vs_holds vp bs \<Longrightarrow> room (length bs + length (byte_text c) + 63) \<Longrightarrow>
          returns (step vp c) (\<lambda>vp. vs_holds vp (bs @ byte_text c))"
    and byte_text_nonempty: "byte_text c \<noteq> []"
    and dec_Nil: "dec_loop vp [] = Ok (Some vp)"
    and dec_text: "valid_byte c \<Longrightarrow> dec_loop vp (byte_text c @ rest) = obind (VSTRING_ADDCH vp c) (\<lambda>vp. dec_loop vp rest)"
begin

definition text_of :: "char list \<Rightarrow> string" where
  "text_of cs = concat (map byte_text cs)"

lemma text_length: "length cs \<le> length (text_of cs)"
proof (induction cs)
  case (Cons c cs)
  then show ?case using byte_text_nonempty [of c] by (cases "byte_text c") (simp_all add: text_of_def)
qed (simp add: text_of_def)

lemma enc_loop_ok:
  "list_all valid_byte cs \<Longrightarrow> vs_holds vp bs \<Longrightarrow> room (length bs + length (text_of cs) + 63) \<Longrightarrow>
     returns (enc_loop vp cs) (\<lambda>vp. vs_holds vp (bs @ text_of cs))"
proof (induction cs arbitrary: vp bs)
  case (Cons c cs)
  have "returns (step vp c) (\<lambda>vp. vs_holds vp (bs @ byte_text c))"
    using step_ok [of c vp bs] Cons.prems room_mono [OF Cons.prems(3)] by (simp add: text_of_def)
  then show ?case
    unfolding enc_Cons using Cons.IH [of _ "bs @ byte_text c"] Cons.prems by (auto simp: text_of_def add.assoc intro!: returns_bind)
qed (simp add: enc_Nil text_of_def)

lemma dec_loop_ok: "list_all valid_byte cs \<Longrightarrow> dec_loop vp (text_of cs) = obind (addchs vp cs) (\<lambda>vp. Ok (Some vp))"
  by (induction cs arbitrary: vp) (simp_all add: text_of_def dec_Nil dec_text outcome_simps)

end

sublocale byte_codec \<subseteq> codec
  "\<lambda>vp cs. obind (enc_loop (VSTRING_RESET vp) cs) VSTRING_TERMINATE"
  "\<lambda>vp s. finish_decode (dec_loop (VSTRING_RESET vp) s)" text_of "list_all valid_byte"
proof
  fix vp bs cs
  show "length cs \<le> length (text_of cs)" by (rule text_length)
  assume cs: "list_all valid_byte cs" and vp: "vs_holds vp bs"
  show "stored (obind (enc_loop (VSTRING_RESET vp) cs) VSTRING_TERMINATE) (text_of cs)"
    if "room (length (text_of cs) + 64)"
    unfolding stored_def
    by (rule returns_bind [OF enc_loop_ok [OF cs VSTRING_RESET_holds [OF vp]]])
      (use VSTRING_TERMINATE_ok room_mono [OF that] in auto)
  show "decoded (finish_decode (dec_loop (VSTRING_RESET vp) (text_of cs))) cs" if "room (Suc (length cs))"
    using decoded_stored [OF stored_reset [OF vp that]]
    by (simp add: dec_loop_ok [OF cs] finish_decode_def outcome_simps)
qed

end
