(* ===== verification/Base64.thy ===== *)
theory Base64
  imports Codec
begin

text \<open>
  The base 64 and base 32 codecs of \<open>src/util/base64_code.c\<close> and
  \<open>src/util/base32_code.c\<close>. Both app to a \<open>VSTRING\<close> byte by byte. The lemmas
  separate the text that is produced from its storage: an encoder is \<open>addchs\<close> of a pure
  function of the input, and decoding that text restores the input.
\<close>

section \<open>Decoding tables\<close>

definition INVALID :: nat where
  "INVALID = 0xff"

text \<open>
  The loop that fills \<open>un_b64\<close> or \<open>un_b32\<close>: each character of the alphabet is assigned
  its position, all others stay at \<open>INVALID\<close>.
\<close>

fun fill_table :: "(char \<Rightarrow> nat) \<Rightarrow> nat \<Rightarrow> string \<Rightarrow> char \<Rightarrow> nat" where
  "fill_table t i [] = t"
| "fill_table t i (c # cp) = fill_table (t(c := i)) (i + 1) cp"

lemma fill_table_other: "c \<notin> set cs \<Longrightarrow> fill_table t i cs c = t c"
  by (induction cs arbitrary: t i) auto

lemma fill_table_nth: "distinct cs \<Longrightarrow> k < length cs \<Longrightarrow> fill_table t i cs (cs ! k) = i + k"
proof (induction cs arbitrary: t i k)
  case (Cons c cs)
  then show ?case by (cases k) (auto simp: fill_table_other)
qed simp

section \<open>Base 64\<close>

definition to_b64 :: string where
  "to_b64 = ''ABCDEFGHIJKLMNOPQRSTUVWXYZabcdefghijklmnopqrstuvwxyz0123456789+/''"

definition un_b64 :: "char \<Rightarrow> nat" where
  "un_b64 = fill_table (\<lambda>_. INVALID) 0 to_b64"

datatype b64_flags = BASE64_FLAG_NONE | BASE64_FLAG_APPEND

fun base64_encode_loop :: "vstring \<Rightarrow> char list \<Rightarrow> vstring outcome" where
  "base64_encode_loop result [] = Ok result"
| "base64_encode_loop result [a] =
     obind (VSTRING_ADDCH result (to_b64 ! drop_bit 2 (ord a))) (\<lambda>result.
     obind (VSTRING_ADDCH result (to_b64 ! push_bit 4 (ord a AND 3))) (\<lambda>result.
     obind (VSTRING_ADDCH result CHR ''='') (\<lambda>result.
     VSTRING_ADDCH result CHR ''='')))"
| "base64_encode_loop result [a, b] =
     obind (VSTRING_ADDCH result (to_b64 ! drop_bit 2 (ord a))) (\<lambda>result.
     obind (VSTRING_ADDCH result (to_b64 ! (push_bit 4 (ord a AND 3) OR drop_bit 4 (ord b)))) (\<lambda>result.
     obind (VSTRING_ADDCH result (to_b64 ! push_bit 2 (ord b AND 15))) (\<lambda>result.
     VSTRING_ADDCH result CHR ''='')))"
| "base64_encode_loop result (a # b # c # cp) =
     obind (VSTRING_ADDCH result (to_b64 ! drop_bit 2 (ord a))) (\<lambda>result.
     obind (VSTRING_ADDCH result (to_b64 ! (push_bit 4 (ord a AND 3) OR drop_bit 4 (ord b)))) (\<lambda>result.
     obind (VSTRING_ADDCH result (to_b64 ! (push_bit 2 (ord b AND 15) OR drop_bit 6 (ord c)))) (\<lambda>result.
     obind (VSTRING_ADDCH result (to_b64 ! (ord c AND 63))) (\<lambda>result.
     base64_encode_loop result cp))))"

definition base64_encode_opt :: "vstring \<Rightarrow> char list \<Rightarrow> b64_flags \<Rightarrow> vstring outcome" where
  "base64_encode_opt result inp flags =
     obind (base64_encode_loop (if flags = BASE64_FLAG_APPEND then result else VSTRING_RESET result) inp)
       VSTRING_TERMINATE"

definition base64_encode :: "vstring \<Rightarrow> char list \<Rightarrow> vstring outcome" where
  "base64_encode result inp = base64_encode_opt result inp BASE64_FLAG_NONE"

text \<open>\<open>None\<close> is the null pointer result; the loop sees at least four bytes at every step.\<close>

fun base64_decode_loop :: "vstring \<Rightarrow> char list \<Rightarrow> vstring option outcome" where
  "base64_decode_loop result (a # b # c # d # cp) =
     (let ch0 = un_b64 a; ch1 = un_b64 b in
      if ch0 = INVALID \<or> ch1 = INVALID then Ok None else
      obind (VSTRING_ADDCH result (char_of (push_bit 2 ch0 OR drop_bit 4 ch1))) (\<lambda>result.
      if c = CHR ''='' then Ok (Some result) else
      let ch2 = un_b64 c in
      if ch2 = INVALID then Ok None else
      obind (VSTRING_ADDCH result (char_of (push_bit 4 ch1 OR drop_bit 2 ch2))) (\<lambda>result.
      if d = CHR ''='' then Ok (Some result) else
      let ch3 = un_b64 d in
      if ch3 = INVALID then Ok None else
      obind (VSTRING_ADDCH result (char_of (push_bit 6 ch2 OR ch3))) (\<lambda>result.
      base64_decode_loop result cp))))"
| "base64_decode_loop result _ = Ok (Some result)"

definition base64_decode_opt :: "vstring \<Rightarrow> char list \<Rightarrow> b64_flags \<Rightarrow> vstring option outcome" where
  "base64_decode_opt result inp flags =
     (if length inp mod 4 \<noteq> 0 then Ok None
      else obind (base64_decode_loop (if flags = BASE64_FLAG_APPEND then result else VSTRING_RESET result) inp)
        (\<lambda>r. case r of None \<Rightarrow> Ok None
              | Some result \<Rightarrow> obind (VSTRING_TERMINATE result) (\<lambda>result. Ok (Some result))))"

definition base64_decode :: "vstring \<Rightarrow> char list \<Rightarrow> vstring option outcome" where
  "base64_decode result inp = base64_decode_opt result inp BASE64_FLAG_NONE"

section \<open>The text behind base 64\<close>

text \<open>The four six-bit groups of three bytes.\<close>

definition sextet1 :: "char \<Rightarrow> nat" where
  "sextet1 a = drop_bit 2 (ord a)"

definition sextet2 :: "char \<Rightarrow> char \<Rightarrow> nat" where
  "sextet2 a b = (push_bit 4 (ord a AND 3) OR drop_bit 4 (ord b))"

definition sextet3 :: "char \<Rightarrow> char \<Rightarrow> nat" where
  "sextet3 b c = (push_bit 2 (ord b AND 15) OR drop_bit 6 (ord c))"

definition sextet4 :: "char \<Rightarrow> nat" where
  "sextet4 c = (ord c AND 63)"

lemmas sextet_defs = sextet1_def sextet2_def sextet3_def sextet4_def

fun b64_text :: "char list \<Rightarrow> string" where
  "b64_text [] = []"
| "b64_text [a] = [to_b64 ! sextet1 a, to_b64 ! sextet2 a NUL, CHR ''='', CHR ''='']"
| "b64_text [a, b] = [to_b64 ! sextet1 a, to_b64 ! sextet2 a b, to_b64 ! sextet3 b NUL, CHR ''='']"
| "b64_text (a # b # c # cp) =
     [to_b64 ! sextet1 a, to_b64 ! sextet2 a b, to_b64 ! sextet3 b c, to_b64 ! sextet4 c] @ b64_text cp"

lemma encode_loop_text: "base64_encode_loop vp cs = addchs vp (b64_text cs)"
  by (induction vp cs rule: base64_encode_loop.induct) (auto simp: sextet_defs intro!: obind_cong)

lemma b64_text_length: "length (b64_text cs) = 4 * ((length cs + 2) div 3)"
proof (induction cs rule: b64_text.induct)
  case (4 a b c cp)
  have "(length (a # b # c # cp) + 2) div 3 = Suc ((length cp + 2) div 3)" by simp
  with 4 show ?case by simp
qed simp_all

lemma un_b64_nth [simp]: "k < 64 \<Longrightarrow> un_b64 (to_b64 ! k) = k"
  using fill_table_nth [of to_b64 k "\<lambda>_. INVALID" 0] by (simp add: un_b64_def to_b64_def)

lemma un_b64_pad: "CHR ''='' \<notin> set to_b64"
  by (simp add: to_b64_def)

lemma to_b64_not_pad [simp]: "k < 64 \<Longrightarrow> to_b64 ! k \<noteq> CHR ''=''"
  using un_b64_pad nth_mem [of k to_b64] by (auto simp: to_b64_def)

lemma sextet_bounds [simp]: "sextet1 a < 64" "sextet2 a b < 64" "sextet3 b c < 64" "sextet4 c < 64"
  unfolding sextet_defs by (rule bits_bound [where k = 6, simplified]; simp only: byte_bits; auto simp: byte_bits simp del: bit_0)+

lemma small_valid: "k < 64 \<Longrightarrow> k \<noteq> INVALID"
  by (simp add: INVALID_def)

lemmas sextet_valid [simp] = sextet_bounds [THEN small_valid]

lemma sextet_bytes [simp]:
  "char_of (push_bit 2 (sextet1 a) OR drop_bit 4 (sextet2 a b)) = a"
  "char_of (push_bit 4 (sextet2 a b) OR drop_bit 2 (sextet3 b c)) = b"
  "char_of (push_bit 6 (sextet3 b c) OR sextet4 c) = c"
  unfolding sextet_defs by (rule char_of_bits8; simp only: byte_bits; simp add: byte_bits del: bit_0)+

text \<open>Decoding what the encoder wrote appends the original bytes.\<close>

lemma decode_loop_text:
  "base64_decode_loop vp (b64_text cs) = obind (addchs vp cs) (\<lambda>vp. Ok (Some vp))"
  by (induction cs arbitrary: vp rule: b64_text.induct) (simp_all add: outcome_simps)

section \<open>Base 32\<close>

definition to_b32 :: string where
  "to_b32 = ''ABCDEFGHIJKLMNOPQRSTUVWXYZ234567''"

definition un_b32 :: "char \<Rightarrow> nat" where
  "un_b32 = fill_table (\<lambda>_. INVALID) 0 to_b32"

definition pad_count :: "nat \<Rightarrow> nat" where
  "pad_count count = [0, 6, 4, 3, 1] ! count"

text \<open>
  The encoding loop. It returns the string and \<open>count\<close>, the number of input bytes in
  the incomplete last group, zero when the loop ended without \<open>break\<close>.
\<close>

fun base32_encode_loop :: "vstring \<Rightarrow> char list \<Rightarrow> (vstring \<times> nat) outcome" where
  "base32_encode_loop result [] = Ok (result, 0)"
| "base32_encode_loop result (c0 # cp) =
     obind (VSTRING_ADDCH result (to_b32 ! drop_bit 3 (ord c0))) (\<lambda>result.
     case cp of
       [] \<Rightarrow> obind (VSTRING_ADDCH result (to_b32 ! push_bit 2 (ord c0 AND 7))) (\<lambda>result. Ok (result, 1))
     | c1 # cp \<Rightarrow>
       obind (VSTRING_ADDCH result (to_b32 ! (push_bit 2 (ord c0 AND 7) OR drop_bit 6 (ord c1)))) (\<lambda>result.
       obind (VSTRING_ADDCH result (to_b32 ! drop_bit 1 (ord c1 AND 63))) (\<lambda>result.
       case cp of
         [] \<Rightarrow> obind (VSTRING_ADDCH result (to_b32 ! push_bit 4 (ord c1 AND 1))) (\<lambda>result. Ok (result, 2))
       | c2 # cp \<Rightarrow>
         obind (VSTRING_ADDCH result (to_b32 ! (push_bit 4 (ord c1 AND 1) OR drop_bit 4 (ord c2)))) (\<lambda>result.
         case cp of
           [] \<Rightarrow> obind (VSTRING_ADDCH result (to_b32 ! push_bit 1 (ord c2 AND 15))) (\<lambda>result. Ok (result, 3))
         | c3 # cp \<Rightarrow>
           obind (VSTRING_ADDCH result (to_b32 ! (push_bit 1 (ord c2 AND 15) OR drop_bit 7 (ord c3)))) (\<lambda>result.
           obind (VSTRING_ADDCH result (to_b32 ! drop_bit 2 (ord c3 AND 127))) (\<lambda>result.
           case cp of
             [] \<Rightarrow> obind (VSTRING_ADDCH result (to_b32 ! push_bit 3 (ord c3 AND 3))) (\<lambda>result. Ok (result, 4))
           | c4 # cp \<Rightarrow>
             obind (VSTRING_ADDCH result (to_b32 ! (push_bit 3 (ord c3 AND 3) OR drop_bit 5 (ord c4)))) (\<lambda>result.
             obind (VSTRING_ADDCH result (to_b32 ! (ord c4 AND 31))) (\<lambda>result.
             base32_encode_loop result cp))))))))"

definition base32_encode :: "vstring \<Rightarrow> char list \<Rightarrow> vstring outcome" where
  "base32_encode result inp =
     obind (base32_encode_loop (VSTRING_RESET result) inp) (\<lambda>(result, count).
     obind (if count > 0 then vstring_strncat result ''======'' (int (pad_count count)) else Ok result)
       VSTRING_TERMINATE)"

text \<open>
  \<open>strcmp (cp, pad)\<close> reads the input up to a null byte; the caller's buffer is null
  terminated after the given length.
\<close>

definition pad_is :: "char list \<Rightarrow> string \<Rightarrow> bool" where
  "pad_is cp pad \<longleftrightarrow> strcmp (takeWhile (\<lambda>c. c \<noteq> NUL) cp) pad = 0"

fun base32_decode_loop :: "vstring \<Rightarrow> char list \<Rightarrow> vstring option outcome" where
  "base32_decode_loop result (a # b # c # d # e # f # g # h # cp) =
     (let ch0 = un_b32 a; ch1 = un_b32 b in
      if ch0 = INVALID \<or> ch1 = INVALID then Ok None else
      obind (VSTRING_ADDCH result (char_of (push_bit 3 ch0 OR drop_bit 2 ch1))) (\<lambda>result.
      if c = CHR ''='' \<and> pad_is (d # e # f # g # h # cp) ''====='' \<and> ch1 AND 3 = 0 then Ok (Some result) else
      let ch2 = un_b32 c; ch3 = un_b32 d in
      if ch2 = INVALID then Ok None else
      if ch3 = INVALID then Ok None else
      obind (VSTRING_ADDCH result (char_of (push_bit 6 ch1 OR push_bit 1 ch2 OR drop_bit 4 ch3))) (\<lambda>result.
      if e = CHR ''='' \<and> pad_is (f # g # h # cp) ''==='' \<and> ch3 AND 15 = 0 then Ok (Some result) else
      let ch4 = un_b32 e in
      if ch4 = INVALID then Ok None else
      obind (VSTRING_ADDCH result (char_of (push_bit 4 ch3 OR drop_bit 1 ch4))) (\<lambda>result.
      if f = CHR ''='' \<and> pad_is (g # h # cp) ''=='' \<and> ch4 AND 1 = 0 then Ok (Some result) else
      let ch5 = un_b32 f; ch6 = un_b32 g in
      if ch5 = INVALID then Ok None else
      if ch6 = INVALID then Ok None else
      obind (VSTRING_ADDCH result (char_of (push_bit 7 ch4 OR push_bit 2 ch5 OR drop_bit 3 ch6))) (\<lambda>result.
      if h = CHR ''='' \<and> ch6 AND 7 = 0 then Ok (Some result) else
      let ch7 = un_b32 h in
      if ch7 = INVALID then Ok None else
      obind (VSTRING_ADDCH result (char_of (push_bit 5 ch6 OR ch7))) (\<lambda>result.
      base32_decode_loop result cp))))))"
| "base32_decode_loop result _ = Ok (Some result)"

definition base32_decode :: "vstring \<Rightarrow> char list \<Rightarrow> vstring option outcome" where
  "base32_decode result inp =
     (if length inp mod 8 \<noteq> 0 then Ok None
      else obind (base32_decode_loop (VSTRING_RESET result) inp)
        (\<lambda>r. case r of None \<Rightarrow> Ok None
              | Some result \<Rightarrow> obind (VSTRING_TERMINATE result) (\<lambda>result. Ok (Some result))))"

section \<open>The text behind base 32\<close>

definition quintet1 :: "char \<Rightarrow> nat" where
  "quintet1 a = drop_bit 3 (ord a)"

definition quintet2 :: "char \<Rightarrow> char \<Rightarrow> nat" where
  "quintet2 a b = (push_bit 2 (ord a AND 7) OR drop_bit 6 (ord b))"

definition quintet3 :: "char \<Rightarrow> nat" where
  "quintet3 b = drop_bit 1 (ord b AND 63)"

definition quintet4 :: "char \<Rightarrow> char \<Rightarrow> nat" where
  "quintet4 b c = (push_bit 4 (ord b AND 1) OR drop_bit 4 (ord c))"

definition quintet5 :: "char \<Rightarrow> char \<Rightarrow> nat" where
  "quintet5 c d = (push_bit 1 (ord c AND 15) OR drop_bit 7 (ord d))"

definition quintet6 :: "char \<Rightarrow> nat" where
  "quintet6 d = drop_bit 2 (ord d AND 127)"

definition quintet7 :: "char \<Rightarrow> char \<Rightarrow> nat" where
  "quintet7 d e = (push_bit 3 (ord d AND 3) OR drop_bit 5 (ord e))"

definition quintet8 :: "char \<Rightarrow> nat" where
  "quintet8 e = (ord e AND 31)"

lemmas quintet_defs = quintet1_def quintet2_def quintet3_def quintet4_def
  quintet5_def quintet6_def quintet7_def quintet8_def

text \<open>The characters of a complete or incomplete group, without the padding.\<close>

fun b32_text :: "char list \<Rightarrow> string" where
  "b32_text [] = []"
| "b32_text [a] = map ((!) to_b32) [quintet1 a, quintet2 a NUL]"
| "b32_text [a, b] = map ((!) to_b32) [quintet1 a, quintet2 a b, quintet3 b, quintet4 b NUL]"
| "b32_text [a, b, c] =
     map ((!) to_b32) [quintet1 a, quintet2 a b, quintet3 b, quintet4 b c, quintet5 c NUL]"
| "b32_text [a, b, c, d] =
     map ((!) to_b32) [quintet1 a, quintet2 a b, quintet3 b, quintet4 b c, quintet5 c d, quintet6 d, quintet7 d NUL]"
| "b32_text (a # b # c # d # e # cp) =
     map ((!) to_b32) [quintet1 a, quintet2 a b, quintet3 b, quintet4 b c, quintet5 c d, quintet6 d,
       quintet7 d e, quintet8 e] @ b32_text cp"

definition b32_pad :: "nat \<Rightarrow> string" where
  "b32_pad n = replicate (pad_count (n mod 5)) CHR ''=''"

lemma encode32_loop_text:
  "base32_encode_loop vp cs = obind (addchs vp (b32_text cs)) (\<lambda>vp. Ok (vp, length cs mod 5))"
  by (induction cs arbitrary: vp rule: b32_text.induct)
    (auto simp: quintet_defs outcome_simps intro!: obind_cong)

lemma un_b32_nth [simp]: "k < 32 \<Longrightarrow> un_b32 (to_b32 ! k) = k"
  using fill_table_nth [of to_b32 k "\<lambda>_. INVALID" 0] by (simp add: un_b32_def to_b32_def)

lemma un_b32_pad: "CHR ''='' \<notin> set to_b32"
  by (simp add: to_b32_def)

lemma to_b32_not_pad [simp]: "k < 32 \<Longrightarrow> to_b32 ! k \<noteq> CHR ''=''"
  using un_b32_pad nth_mem [of k to_b32] by (auto simp: to_b32_def)

lemma quintet_bounds [simp]:
  "quintet1 a < 32" "quintet2 a b < 32" "quintet3 b < 32" "quintet4 b c < 32"
  "quintet5 c d < 32" "quintet6 d < 32" "quintet7 d e < 32" "quintet8 e < 32"
  unfolding quintet_defs by (rule bits_bound [where k = 5, simplified]; simp only: byte_bits; auto simp: byte_bits simp del: bit_0)+

lemmas quintet_valid [simp] = quintet_bounds [THEN less_trans [of _ 32 64, simplified], THEN small_valid]

lemma quintet_bytes:
  "char_of (push_bit 3 (quintet1 a) OR drop_bit 2 (quintet2 a b)) = a"
  "char_of (push_bit 6 (quintet2 a b) OR push_bit 1 (quintet3 b) OR drop_bit 4 (quintet4 b c)) = b"
  "char_of (push_bit 4 (quintet4 b c) OR drop_bit 1 (quintet5 c d)) = c"
  "char_of (push_bit 7 (quintet5 c d) OR push_bit 2 (quintet6 d) OR drop_bit 3 (quintet7 d e)) = d"
  "char_of (push_bit 5 (quintet7 d e) OR quintet8 e) = e"
  unfolding quintet_defs by (rule char_of_bits8; simp only: byte_bits; simp add: byte_bits del: bit_0)+

lemmas quintet_bytes_simps [simp] = quintet_bytes [simplified]

lemma quintet_null_bits:
  "quintet2 a NUL AND 3 = 0" "quintet4 b NUL AND 15 = 0" "quintet5 c NUL AND 1 = 0" "quintet7 d NUL AND 7 = 0"
  unfolding quintet_defs by (rule bit_eqI; simp only: byte_bits; auto simp: byte_bits simp del: bit_0)+

lemmas quintet_null_simps [simp] = quintet_null_bits [simplified]

lemma replicate_pad: "replicate 6 x = [x, x, x, x, x, x]" "replicate 4 x = [x, x, x, x]" "replicate 3 x = [x, x, x]"
  by (simp_all add: numeral_eq_Suc)

lemma b32_pad_simps [simp]:
  "b32_pad 0 = []" "b32_pad (Suc 0) = ''======''" "b32_pad (Suc (Suc 0)) = ''====''"
  "b32_pad (Suc (Suc (Suc 0))) = ''===''" "b32_pad (Suc (Suc (Suc (Suc 0)))) = ''=''"
  by (simp_all add: b32_pad_def pad_count_def replicate_pad)

lemma b32_pad_step [simp]: "b32_pad (Suc (Suc (Suc (Suc (Suc n))))) = b32_pad n"
proof -
  have "Suc (Suc (Suc (Suc (Suc n)))) = n + 5" by simp
  then show ?thesis unfolding b32_pad_def by (metis mod_add_self2)
qed

lemma decode32_loop_text:
  "base32_decode_loop vp (b32_text cs @ b32_pad (length cs)) = obind (addchs vp cs) (\<lambda>vp. Ok (Some vp))"
  by (induction cs arbitrary: vp rule: b32_text.induct) (simp_all add: pad_is_def outcome_simps Let_def)

lemma b32_text_length: "length (b32_text cs @ b32_pad (length cs)) = 8 * ((length cs + 4) div 5)"
proof (induction cs rule: b32_text.induct)
  case (6 a b c d e cp)
  have "(length (a # b # c # d # e # cp) + 4) div 5 = Suc ((length cp + 4) div 5)" by simp
  with 6 show ?case by simp
qed simp_all

lemma encode32_text:
  "base32_encode vp cs = obind (obind (addchs (VSTRING_RESET vp) (b32_text cs))
      (\<lambda>v. if length cs mod 5 > 0 then obind (addchs v (b32_pad (length cs))) VSTRING_TERMINATE else Ok v))
    VSTRING_TERMINATE"
proof -
  have "pad_count (length cs mod 5) \<le> 6"
    using mod_less_divisor [of 5 "length cs"] by (auto simp: pad_count_def nth_Cons' intro: order_trans)
  then have pad: "take (pad_count (length cs mod 5)) ''======'' = b32_pad (length cs)"
    using take_replicate [of "pad_count (length cs mod 5)" 6 "CHR ''=''"]
    by (simp add: replicate_pad b32_pad_def min_absorb1)
  show ?thesis
    by (simp add: base32_encode_def encode32_loop_text vstring_strncat_def addchs_n_eq pad outcome_simps
        if_distrib [of "\<lambda>x. obind x _"] cong: if_cong)
qed

section \<open>The codecs meet the contract\<close>

interpretation b64: codec base64_encode base64_decode b64_text "\<lambda>_. True"
proof
  fix vp bs cs
  show "length cs \<le> length (b64_text cs)" by (simp add: b64_text_length)
  assume vp: "vs_holds vp bs"
  show "stored (base64_encode vp cs) (b64_text cs)" if "room (length (b64_text cs) + 64)"
    using stored_reset [OF vp] room_mono [OF that]
    by (simp add: base64_encode_def base64_encode_opt_def encode_loop_text)
  show "decoded (base64_decode vp (b64_text cs)) cs" if "room (Suc (length cs))"
    using decoded_stored [OF stored_reset [OF vp that]]
    by (simp add: base64_decode_def base64_decode_opt_def decode_loop_text b64_text_length outcome_simps)
qed

interpretation b32: codec base32_encode base32_decode "\<lambda>cs. b32_text cs @ b32_pad (length cs)"
  "\<lambda>_. True"
proof
  fix vp bs cs
  show "length cs \<le> length (b32_text cs @ b32_pad (length cs))" unfolding b32_text_length by simp
  assume vp: "vs_holds vp bs"
  show "stored (base32_encode vp cs) (b32_text cs @ b32_pad (length cs))"
    if "room (length (b32_text cs @ b32_pad (length cs)) + 64)"
  proof -
    have rm: "room (Suc (length (b32_text cs) + length (b32_pad (length cs))))" by (rule room_mono [OF that]) simp
    have body: "returns (addchs (VSTRING_RESET vp) (b32_text cs)) (\<lambda>v. vs_holds v (b32_text cs))"
      using addchs_ok [OF VSTRING_RESET_holds [OF vp], of "b32_text cs"] room_mono [OF rm] by simp
    have none: "length cs mod 5 = 0 \<Longrightarrow> b32_pad (length cs) = []"
      by (simp add: b32_pad_def pad_count_def)
    have pad: "returns (if length cs mod 5 > 0 then obind (addchs v (b32_pad (length cs))) VSTRING_TERMINATE else Ok v)
        (\<lambda>v. vs_holds v (b32_text cs @ b32_pad (length cs)))" if v: "vs_holds v (b32_text cs)" for v
      using stored_addchs [OF v, of "b32_pad (length cs)"] rm none v
      by (auto simp: stored_def elim!: returns_mono)
    show ?thesis
      unfolding encode32_text stored_def
      by (rule returns_bind [OF returns_bind [OF body pad]], assumption)
        (use VSTRING_TERMINATE_ok rm in auto)
  qed
  show "decoded (base32_decode vp (b32_text cs @ b32_pad (length cs))) cs" if "room (Suc (length cs))"
    using decoded_stored [OF stored_reset [OF vp that]] b32_text_length [of cs]
    by (simp add: base32_decode_def decode32_loop_text outcome_simps)
qed

section \<open>Properties\<close>

text \<open>
  C20: \<open>base64_decode\<close> restores what \<open>base64_encode\<close> encoded, for every block of bytes. The
  encoder's string has four characters per three bytes or part of them and is terminated.
\<close>

theorem base64_roundtrip:
  assumes "vs_holds enc bs" "vs_holds dec ds" "room (4 * ((length cs + 2) div 3) + 64)"
  shows "returns (base64_encode enc cs) (\<lambda>e. length (vs_contents e) = 4 * ((length cs + 2) div 3) \<and>
           vs_terminated e \<and> decoded (base64_decode dec (vs_contents e)) cs)"
  using b64.roundtrip [OF assms(1,2) TrueI, of cs] assms(3) b64_text_length [of cs] by (auto elim!: returns_mono)

text \<open>
  C21: \<open>base32_decode\<close> restores what \<open>base32_encode\<close> encoded, for every block of bytes. The
  encoder's string has eight characters per five bytes or part of them and is terminated.
\<close>

theorem base32_roundtrip:
  assumes "vs_holds enc bs" "vs_holds dec ds" "room (8 * ((length cs + 4) div 5) + 64)"
  shows "returns (base32_encode enc cs) (\<lambda>e. length (vs_contents e) = 8 * ((length cs + 4) div 5) \<and>
           vs_terminated e \<and> decoded (base32_decode dec (vs_contents e)) cs)"
  using b32.roundtrip [OF assms(1,2) TrueI, of cs] assms(3) b32_text_length [of cs] by (auto elim!: returns_mono)

theorem base64_roundtrip_witness:
  "returns (base64_encode empty_vstring ''fooba'') (\<lambda>e. length (vs_contents e) = 8 \<and>
     vs_terminated e \<and> decoded (base64_decode empty_vstring (vs_contents e)) ''fooba'')"
  using base64_roundtrip [OF empty_vstring_holds empty_vstring_holds, of "''fooba''"]
  by (simp add: room_def SSIZE_T_MAX_def)

theorem base32_roundtrip_witness:
  "returns (base32_encode empty_vstring ''fooba'') (\<lambda>e. length (vs_contents e) = 8 \<and>
     vs_terminated e \<and> decoded (base32_decode empty_vstring (vs_contents e)) ''fooba'')"
  using base32_roundtrip [OF empty_vstring_holds empty_vstring_holds, of "''fooba''"]
  by (simp add: room_def SSIZE_T_MAX_def)

lemma decode_loop_tail:
  "length cs mod 3 \<noteq> 0 \<Longrightarrow>
     base64_decode_loop vp (b64_text cs @ tail) = obind (addchs vp cs) (\<lambda>vp. Ok (Some vp))"
proof (induction cs arbitrary: vp rule: b64_text.induct)
  case (4 a b c cp)
  then have "length cp mod 3 \<noteq> 0" by (simp add: mod_Suc split: if_splits)
  with 4 show ?case by (simp add: outcome_simps)
qed (simp_all add: outcome_simps)

lemma decode32_loop_tail:
  "length cs mod 5 = 4 \<Longrightarrow>
     base32_decode_loop vp (b32_text cs @ b32_pad (length cs) @ tail) = obind (addchs vp cs) (\<lambda>vp. Ok (Some vp))"
proof (induction cs arbitrary: vp rule: b32_text.induct)
  case (6 a b c d e cp)
  then have "length cp mod 5 = 4" by (simp add: mod_Suc split: if_splits)
  with 6 show ?case by (simp add: outcome_simps Let_def)
qed (simp_all add: outcome_simps Let_def)

text \<open>
  Both decoders stop at the first padded group and accept whatever follows it. The
  base 64 decoder does so for every padding, the base 32 decoder for the single
  \<open>=\<close>, whose branch has no check of the rest of the input.
\<close>

lemma decoders_ignore_tail:
  assumes "vs_holds vp bs" "room (Suc (length cs))"
  shows "(length cs mod 3 \<noteq> 0 \<and> length tail mod 4 = 0 \<longrightarrow> decoded (base64_decode vp (b64_text cs @ tail)) cs) \<and>
    (length cs mod 5 = 4 \<and> length tail mod 8 = 0 \<longrightarrow>
       decoded (base32_decode vp (b32_text cs @ b32_pad (length cs) @ tail)) cs)"
proof (intro conjI impI)
  note ok = decoded_stored [OF stored_reset [OF assms]]
  show "decoded (base64_decode vp (b64_text cs @ tail)) cs" if "length cs mod 3 \<noteq> 0 \<and> length tail mod 4 = 0"
    using ok that by (simp add: base64_decode_def base64_decode_opt_def decode_loop_tail b64_text_length outcome_simps)
  show "decoded (base32_decode vp (b32_text cs @ b32_pad (length cs) @ tail)) cs"
    if that: "length cs mod 5 = 4 \<and> length tail mod 8 = 0"
  proof -
    have "length (b32_text cs @ b32_pad (length cs) @ tail) mod 8 = 0"
      using b32_text_length [of cs] that by (metis append_assoc length_append mod_add_eq mod_mult_self1_is_0 add_0 mod_0)
    then show ?thesis using ok that by (simp add: base32_decode_def decode32_loop_tail outcome_simps)
  qed
qed

end
