(* ===== verification/Vbuf_print.thy ===== *)
theory Vbuf_print
  imports Vstring
begin

text \<open>
  The formatter of \<open>src/util/vbuf_print.c\<close> on a \<open>VSTRING\<close>, and the \<open>sprintf\<close> family of
  \<open>src/util/vstring.c\<close> that calls it.

  The code splits the format into single conversions, rebuilds each conversion in the
  static string \<open>fmt\<close>, reserves space by an estimate, and lets the C library's
  \<open>snprintf\<close> render it; \<open>fmt\<close> is kept as its text. \<open>c_snprintf\<close> is the C library
  function for one conversion. Floating point values and pointers are opaque to the code:
  such an argument is represented by the text that the C library gives for each conversion.
\<close>

section \<open>The C library function for one conversion\<close>

datatype va =
    VaInt int
  | VaLong int
  | VaStr string
  | VaDouble "string \<Rightarrow> string"
  | VaPtr "string \<Rightarrow> string"

definition digit_char :: "bool \<Rightarrow> nat \<Rightarrow> char" where
  "digit_char upper d = char_of (if d < 10 then 48 + d else (if upper then 55 else 87) + d)"

function num_text :: "bool \<Rightarrow> nat \<Rightarrow> nat \<Rightarrow> string" where
  "num_text upper b n =
     (if b < 2 \<or> n < b then [digit_char upper n]
      else num_text upper b (n div b) @ [digit_char upper (n mod b)])"
  by pat_completeness auto
termination
  by (relation "measure (\<lambda>(_, b, n). n)") auto

declare num_text.simps [simp del]

definition num_value :: "string \<Rightarrow> int" where
  "num_value ds = foldl (\<lambda>n c. 10 * n + (int (ord c) - 48)) 0 ds"

text \<open>The value that an unsigned conversion prints, at the width of \<open>int\<close> or \<open>long\<close>.\<close>

definition unsigned_value :: "bool \<Rightarrow> int \<Rightarrow> nat" where
  "unsigned_value long v = nat (v mod (if long then 2 ^ 64 else 2 ^ 32))"

definition int_digits :: "char \<Rightarrow> bool \<Rightarrow> int \<Rightarrow> string" where
  "int_digits ty long v =
     (if ty = CHR ''d'' then num_text False 10 (nat \<bar>v\<bar>)
      else if ty = CHR ''u'' then num_text False 10 (unsigned_value long v)
      else if ty = CHR ''o'' then num_text False 8 (unsigned_value long v)
      else num_text (ty = CHR ''X'') 16 (unsigned_value long v))"

definition int_sign :: "char \<Rightarrow> string \<Rightarrow> int \<Rightarrow> string" where
  "int_sign ty flags v =
     (if ty \<noteq> CHR ''d'' then [] else if v < 0 then ''-''
      else if CHR ''+'' \<in> set flags then ''+'' else [])"

definition pad_field :: "string \<Rightarrow> nat \<Rightarrow> string \<Rightarrow> string" where
  "pad_field flags width body =
     (let pad = replicate (width - length body) CHR '' ''
      in if CHR ''-'' \<in> set flags then body @ pad else pad @ body)"

definition int_field :: "char \<Rightarrow> bool \<Rightarrow> string \<Rightarrow> nat \<Rightarrow> nat option \<Rightarrow> int \<Rightarrow> string" where
  "int_field ty long flags width prec v =
     (let sign = int_sign ty flags v;
          ds = (if prec = Some 0 \<and> v = 0 then [] else int_digits ty long v)
      in case prec of
           Some p \<Rightarrow> pad_field flags width (sign @ replicate (p - length ds) CHR ''0'' @ ds)
         | None \<Rightarrow>
             if CHR ''0'' \<in> set flags \<and> CHR ''-'' \<notin> set flags
             then sign @ replicate (width - length (sign @ ds)) CHR ''0'' @ ds
             else pad_field flags width (sign @ ds))"

text \<open>
  \<open>None\<close>: the C standard gives the call no meaning, because the conversion is malformed
  or does not fit the argument.
\<close>

definition c_render :: "string \<Rightarrow> nat \<Rightarrow> nat option \<Rightarrow> bool \<Rightarrow> char \<Rightarrow> string \<Rightarrow> va \<Rightarrow> string option" where
  "c_render flags width prec long ty fmt arg =
     (case arg of
        VaStr s \<Rightarrow>
          if ty = CHR ''s'' \<and> \<not> long then
            Some (pad_field flags width (case prec of Some p \<Rightarrow> take p s | None \<Rightarrow> s))
          else None
      | VaInt v \<Rightarrow>
          if long then None
          else if ty = CHR ''c'' then Some (pad_field flags width [char_of (nat (v mod 256))])
          else if ty \<in> set ''duoxX'' then Some (int_field ty False flags width prec v)
          else None
      | VaLong v \<Rightarrow>
          if long \<and> ty \<in> set ''duoxX'' then Some (int_field ty True flags width prec v) else None
      | VaDouble f \<Rightarrow> if ty \<in> set ''efg'' then Some (f fmt) else None
      | VaPtr f \<Rightarrow> if ty = CHR ''p'' \<and> \<not> long then Some (f fmt) else None)"

definition c_snprintf :: "string \<Rightarrow> va \<Rightarrow> string option" where
  "c_snprintf fmt arg =
     (let cp = tl fmt;
          flags = takeWhile (\<lambda>c. c \<in> set ''-+0'') cp;
          cp = dropWhile (\<lambda>c. c \<in> set ''-+0'') cp;
          width = nat (num_value (takeWhile ISDIGIT cp));
          cp = dropWhile ISDIGIT cp;
          prec = (if cp \<noteq> [] \<and> hd cp = CHR ''.''
                  then Some (nat (num_value (takeWhile ISDIGIT (tl cp)))) else None);
          cp = (if cp \<noteq> [] \<and> hd cp = CHR ''.'' then dropWhile ISDIGIT (tl cp) else cp);
          long = (cp \<noteq> [] \<and> hd cp = CHR ''l'');
          cp = (if long then tl cp else cp)
      in case cp of [ty] \<Rightarrow> c_render flags width prec long ty fmt arg | _ \<Rightarrow> None)"

section \<open>The formatter\<close>

definition INT_MAX :: int where
  "INT_MAX = 2 ^ 31 - 1"

text \<open>The margins for 64-bit \<open>long\<close>, \<open>double\<close> and pointers, \<open>DBL_MAX_10_EXP\<close> being 308.\<close>

definition INT_SPACE :: int where
  "INT_SPACE = (8 * 8) div 2"

definition DBL_SPACE :: int where
  "DBL_SPACE = (8 * 8) div 2 + 308"

definition PTR_SPACE :: int where
  "PTR_SPACE = (8 * 8) div 2"

text \<open>
  The result of \<open>snprintf\<close> is an \<open>int\<close>: the length of the whole text, or a negative value
  when that length is not an \<open>int\<close>. No other error can happen, because none of the conversions
  is for wide characters. As in ISO C, and unlike in older editions of POSIX, a buffer of more than
  \<open>INT_MAX\<close> bytes is no error by itself.
\<close>

definition snprintf_ret :: "string \<Rightarrow> int" where
  "snprintf_ret out = (if int (length out) > INT_MAX then -1 else int (length out))"

definition VBUF_SNPRINTF :: "vstring \<Rightarrow> int \<Rightarrow> string \<Rightarrow> va \<Rightarrow> vstring outcome" where
  "VBUF_SNPRINTF bp sz fmt arg =
     obind (VSTRING_SPACE bp sz) (\<lambda>bp.
     case c_snprintf fmt arg of
       None \<Rightarrow> Fault
     | Some out \<Rightarrow>
         if snprintf_ret out < 0 then Panic ''vbuf_print: output error''
         else if snprintf_ret out \<ge> vb_cnt bp then Panic ''vbuf_print: output exceeds space''
         else obind (mem_write (vb_data bp) (vb_ptr bp) (out @ [NUL])) (\<lambda>d.
              VSTRING_SKIP (bp\<lparr>vb_data := d\<rparr>)))"

text \<open>\<open>VBUF_STRCAT\<close> copies through \<open>VBUF_PUT\<close>.\<close>

definition VBUF_STRCAT :: "vstring \<Rightarrow> string \<Rightarrow> vstring outcome" where
  "VBUF_STRCAT bp s = addchs bp s"

text \<open>The loops over the digits of a hard-coded width or precision; the digits go to \<open>fmt\<close>.\<close>

fun fmt_number :: "string \<Rightarrow> int \<Rightarrow> string \<Rightarrow> string \<Rightarrow> (int \<times> string \<times> string) outcome" where
  "fmt_number msg n fmt [] = Ok (n, fmt, [])"
| "fmt_number msg n fmt (ch # cp) =
     (if ISDIGIT ch then
        let digit = int (ord ch) - 48 in
        if n > INT_MAX div 10 \<or> n * 10 > INT_MAX - digit then Panic msg
        else fmt_number msg (n * 10 + digit) (fmt @ [ch]) cp
      else Ok (n, fmt, ch # cp))"

definition fmt_flag :: "char \<Rightarrow> string \<times> string \<Rightarrow> string \<times> string" where
  "fmt_flag c = (\<lambda>(fmt, cp). if cp \<noteq> [] \<and> hd cp = c then (fmt @ [c], tl cp) else (fmt, cp))"

text \<open>A dynamic width or precision: the next \<open>int\<close> argument, printed into \<open>fmt\<close>.\<close>

definition ADDNUM :: "string \<Rightarrow> int \<Rightarrow> string" where
  "ADDNUM fmt n = fmt @ int_sign CHR ''d'' [] n @ int_digits CHR ''d'' False n"

fun va_int :: "va list \<Rightarrow> (int \<times> va list) outcome" where
  "va_int (VaInt v # ap) = Ok (v, ap)"
| "va_int _ = Fault"

definition fmt_size :: "string \<Rightarrow> string \<Rightarrow> string \<Rightarrow> va list \<Rightarrow> (int \<times> string \<times> string \<times> va list) outcome" where
  "fmt_size msg fmt cp ap =
     (if cp \<noteq> [] \<and> hd cp = CHR ''*'' then
        obind (va_int ap) (\<lambda>(n, ap). Ok (n, ADDNUM fmt n, tl cp, ap))
      else obind (fmt_number msg 0 fmt cp) (\<lambda>(n, fmt, cp). Ok (n, fmt, cp, ap)))"

definition fmt_prec :: "string \<Rightarrow> string \<Rightarrow> va list \<Rightarrow> (int \<times> string \<times> string \<times> va list) outcome" where
  "fmt_prec fmt cp ap =
     (if cp \<noteq> [] \<and> hd cp = CHR ''.'' then fmt_size ''vbuf_print: bad precision'' (fmt @ ''.'') (tl cp) ap
      else Ok (-1, fmt, cp, ap))"

definition fmt_flags :: "string \<Rightarrow> string \<times> string" where
  "fmt_flags cp = fmt_flag CHR ''0'' (fmt_flag CHR ''+'' (fmt_flag CHR ''-'' (''%'', cp)))"

text \<open>
  The part of a conversion before its type character, \<open>cp\<close> behind the percent sign.
  The result has \<open>width\<close>, \<open>prec\<close>, \<open>long_flag\<close>, \<open>fmt\<close>, the rest of the format and the
  remaining arguments.
\<close>

definition fmt_spec :: "string \<Rightarrow> va list \<Rightarrow> (int \<times> int \<times> bool \<times> string \<times> string \<times> va list) outcome" where
  "fmt_spec cp ap =
     (case fmt_flags cp of (fmt, cp) \<Rightarrow>
      obind (fmt_size ''vbuf_print: bad width'' fmt cp ap) (\<lambda>(width, fmt, cp, ap).
      obind (fmt_prec fmt cp ap) (\<lambda>(prec, fmt, cp, ap).
      let long_flag = (cp \<noteq> [] \<and> hd cp = CHR ''l'')
      in Ok (width, prec, long_flag, fst (fmt_flag CHR ''l'' (fmt, cp)), snd (fmt_flag CHR ''l'' (fmt, cp)), ap))))"

definition bad_long :: "bool \<Rightarrow> 'a outcome \<Rightarrow> 'a outcome" where
  "bad_long long_flag k = (if long_flag then Panic ''vbuf_print: %l is not supported'' else k)"

text \<open>
  Execution of one conversion of type \<open>ty\<close>. The estimate \<open>size\<close> is computed as
  \<open>size_t\<close> and passed as \<open>ssize_t\<close>, which gives the integer sum. \<open>err\<close> is the
  text of \<open>strerror(saved_errno)\<close>.
\<close>

definition vbuf_conv ::
  "string \<Rightarrow> vstring \<Rightarrow> int \<Rightarrow> int \<Rightarrow> bool \<Rightarrow> string \<Rightarrow> char \<Rightarrow> va list \<Rightarrow> (vstring \<times> va list) outcome" where
  "vbuf_conv err bp width prec long_flag fmt ty ap =
     (let size = (if width > prec then width else prec);
          print = (\<lambda>space. case ap of
                       [] \<Rightarrow> Fault
                     | arg # ap \<Rightarrow> obind (VBUF_SNPRINTF bp (size + space) fmt arg) (\<lambda>bp. Ok (bp, ap)))
      in if ty = CHR ''s'' then
           bad_long long_flag
             (case ap of
                VaStr s # ap' \<Rightarrow>
                  if prec \<ge> 0 \<or> (width > 0 \<and> width > int (length s)) then print INT_SPACE
                  else obind (VBUF_STRCAT bp s) (\<lambda>bp. Ok (bp, ap'))
              | _ \<Rightarrow> Fault)
         else if ty = CHR ''c'' then bad_long long_flag (print INT_SPACE)
         else if ty \<in> set ''duoxX'' then print INT_SPACE
         else if ty \<in> set ''efg'' then print DBL_SPACE
         else if ty = CHR ''m'' then obind (VBUF_STRCAT bp err) (\<lambda>bp. Ok (bp, ap))
         else if ty = CHR ''p'' then bad_long long_flag (print PTR_SPACE)
         else Panic ''vbuf_print: unknown format type'')"

lemma fmt_number_shorter: "fmt_number msg n fmt cp = Ok (n', fmt', cp') \<Longrightarrow> length cp' \<le> length cp"
  by (induction msg n fmt cp rule: fmt_number.induct) (auto simp: Let_def split: if_splits)

lemma fmt_size_shorter: "fmt_size msg fmt cp ap = Ok (n, fmt', cp', ap') \<Longrightarrow> length cp' \<le> length cp"
  by (auto simp: fmt_size_def dest: fmt_number_shorter split: if_splits)

lemma fmt_flag_shorter: "length (snd (fmt_flag c (fmt, cp))) \<le> length cp"
  by (auto simp: fmt_flag_def split: if_splits)

lemma fmt_flags_shorter: "fmt_flags cp = (fmt, cp') \<Longrightarrow> length cp' \<le> length cp"
  by (auto simp: fmt_flags_def fmt_flag_def split: if_splits)

lemma fmt_prec_shorter: "fmt_prec fmt cp ap = Ok (n, fmt', cp', ap') \<Longrightarrow> length cp' \<le> length cp"
  by (auto simp: fmt_prec_def dest: fmt_size_shorter split: if_splits)

lemma fmt_specE:
  assumes "fmt_spec cp ap = Ok r"
  obtains f1 c1 width f2 c2 a2 prec f3 c3 a3 where "fmt_flags cp = (f1, c1)"
    "fmt_size ''vbuf_print: bad width'' f1 c1 ap = Ok (width, f2, c2, a2)"
    "fmt_prec f2 c2 a2 = Ok (prec, f3, c3, a3)"
    "r = (width, prec, c3 \<noteq> [] \<and> hd c3 = CHR ''l'', fst (fmt_flag CHR ''l'' (f3, c3)),
       snd (fmt_flag CHR ''l'' (f3, c3)), a3)"
proof -
  have "\<exists>f1 c1 width f2 c2 a2 prec f3 c3 a3. fmt_flags cp = (f1, c1) \<and>
    fmt_size ''vbuf_print: bad width'' f1 c1 ap = Ok (width, f2, c2, a2) \<and>
    fmt_prec f2 c2 a2 = Ok (prec, f3, c3, a3) \<and>
    r = (width, prec, c3 \<noteq> [] \<and> hd c3 = CHR ''l'', fst (fmt_flag CHR ''l'' (f3, c3)),
       snd (fmt_flag CHR ''l'' (f3, c3)), a3)"
    using assms by (cases r) (auto simp: fmt_spec_def Let_def split: prod.splits)
  then show thesis using that by blast
qed

lemma fmt_spec_shorter:
  assumes "fmt_spec cp ap = Ok (width, prec, long_flag, fmt, cp', ap')"
  shows "length cp' \<le> length cp"
  using assms
proof (rule fmt_specE)
  fix f1 c1 w f2 c2 a2 p f3 c3 a3
  assume "fmt_flags cp = (f1, c1)" "fmt_size ''vbuf_print: bad width'' f1 c1 ap = Ok (w, f2, c2, a2)"
    "fmt_prec f2 c2 a2 = Ok (p, f3, c3, a3)"
  then have "length c3 \<le> length cp"
    using fmt_flags_shorter fmt_size_shorter fmt_prec_shorter order_trans by meson
  moreover assume "(width, prec, long_flag, fmt, cp', ap') = (w, p, c3 \<noteq> [] \<and> hd c3 = CHR ''l'',
    fst (fmt_flag CHR ''l'' (f3, c3)), snd (fmt_flag CHR ''l'' (f3, c3)), a3)"
  ultimately show ?thesis using fmt_flag_shorter [of "CHR ''l''" f3 c3] by simp
qed

function vbuf_print :: "string \<Rightarrow> vstring \<Rightarrow> string \<Rightarrow> va list \<Rightarrow> vstring outcome" where
  "vbuf_print err bp [] ap = Ok bp"
| "vbuf_print err bp (c # cp) ap =
     (if c \<noteq> CHR ''%'' then obind (VSTRING_ADDCH bp c) (\<lambda>bp. vbuf_print err bp cp ap)
      else if cp \<noteq> [] \<and> hd cp = CHR ''%'' then
        obind (VSTRING_ADDCH bp c) (\<lambda>bp. vbuf_print err bp (tl cp) ap)
      else obind (fmt_spec cp ap) (\<lambda>(width, prec, long_flag, fmt, cp', ap).
        if cp' = [] then Ok bp
        else obind (vbuf_conv err bp width prec long_flag (fmt @ [hd cp']) (hd cp') ap) (\<lambda>(bp, ap).
             vbuf_print err bp (tl cp') ap)))"
  by pat_completeness auto
termination
proof (relation "measure (\<lambda>(_, _, cp, _). length cp)", goal_cases)
  case (4 err bp c cp ap r width prec long_flag fmt cp' ap')
  then show ?case by (cases cp') (auto dest!: fmt_spec_shorter)
qed auto

lemma vbuf_print_steps:
  "c \<noteq> CHR ''%'' \<Longrightarrow> vbuf_print err bp (c # cp) ap = obind (VSTRING_ADDCH bp c) (\<lambda>bp. vbuf_print err bp cp ap)"
  "vbuf_print err bp (CHR ''%'' # CHR ''%'' # cp) ap = obind (VSTRING_ADDCH bp CHR ''%'') (\<lambda>bp. vbuf_print err bp cp ap)"
  by simp_all

declare vbuf_print.simps(2) [simp del]

section \<open>The \<open>sprintf\<close> family\<close>

definition vstring_vsprintf :: "string \<Rightarrow> vstring \<Rightarrow> string \<Rightarrow> va list \<Rightarrow> vstring outcome" where
  "vstring_vsprintf err vp format ap =
     obind (vbuf_print err (VSTRING_RESET vp) format ap) VSTRING_TERMINATE"

definition vstring_vsprintf_append :: "string \<Rightarrow> vstring \<Rightarrow> string \<Rightarrow> va list \<Rightarrow> vstring outcome" where
  "vstring_vsprintf_append err vp format ap = obind (vbuf_print err vp format ap) VSTRING_TERMINATE"

definition vstring_sprintf :: "string \<Rightarrow> vstring \<Rightarrow> string \<Rightarrow> va list \<Rightarrow> vstring outcome" where
  "vstring_sprintf err vp format args = vstring_vsprintf err vp format args"

definition vstring_sprintf_append :: "string \<Rightarrow> vstring \<Rightarrow> string \<Rightarrow> va list \<Rightarrow> vstring outcome" where
  "vstring_sprintf_append err vp format args = vstring_vsprintf_append err vp format args"

definition vstring_sprintf_prepend :: "string \<Rightarrow> vstring \<Rightarrow> string \<Rightarrow> va list \<Rightarrow> vstring outcome" where
  "vstring_sprintf_prepend err vp format args =
     (let old_len = VSTRING_LEN vp in
      obind (vstring_vsprintf_append err vp format args) (\<lambda>vp.
      let result_len = VSTRING_LEN vp in
      obind (VSTRING_SPACE vp old_len) (\<lambda>vp.
      obind (mem_block (vb_data vp) 0 old_len) (\<lambda>old.
      obind (vstring_memcat vp old) (\<lambda>vp.
      obind (mem_block (vb_data vp) old_len result_len) (\<lambda>moved.
      obind (mem_write (vb_data vp) 0 moved) (\<lambda>d.
      VSTRING_TERMINATE (VSTRING_AT_OFFSET (vp\<lparr>vb_data := d\<rparr>) result_len))))))))"

section \<open>Rendered output fits the estimate\<close>

lemma num_text_length: "n < b ^ k \<Longrightarrow> 2 \<le> b \<Longrightarrow> 0 < k \<Longrightarrow> length (num_text upper b n) \<le> k"
proof (induction upper b n arbitrary: k rule: num_text.induct)
  case (1 upper b n)
  show ?case
  proof (cases "n < b")
    case False
    with "1.prems" obtain j where k: "k = Suc j" "0 < j" by (cases k; cases "k - 1") auto
    with "1.prems" have "n div b < b ^ j" by (simp add: less_mult_imp_div_less mult.commute)
    with False "1.IH" [of j] "1.prems" k show ?thesis by (subst num_text.simps) simp
  qed (use "1.prems" in \<open>subst num_text.simps, simp\<close>)
qed

text \<open>Integer arguments in the range of their C type; texts without null bytes.\<close>

fun va_fits :: "va \<Rightarrow> bool" where
  "va_fits (VaInt v) \<longleftrightarrow> - (2 ^ 31) \<le> v \<and> v < 2 ^ 31"
| "va_fits (VaLong v) \<longleftrightarrow> - (2 ^ 63) \<le> v \<and> v < 2 ^ 63"
| "va_fits (VaStr s) \<longleftrightarrow> True"
| "va_fits _ \<longleftrightarrow> False"

lemma int_digits_length:
  assumes "- (2 ^ 63) \<le> v" "v < 2 ^ 63"
  shows "length (int_digits ty long v) \<le> 22"
proof -
  have u: "unsigned_value long v < 2 ^ 64" by (auto simp: unsigned_value_def nat_less_iff intro: order_less_trans)
  have a: "nat \<bar>v\<bar> < 10 ^ 22" using assms by (auto simp: nat_less_iff)
  have b: "unsigned_value long v < 10 ^ 22" "unsigned_value long v < 8 ^ 22" "unsigned_value long v < 16 ^ 22"
    using u by (auto intro: order_less_trans)
  show ?thesis unfolding int_digits_def using num_text_length [OF a] b [THEN num_text_length] by simp
qed

lemma pad_field_length: "length (pad_field flags width body) = max width (length body)"
  by (auto simp: pad_field_def Let_def)

lemma int_sign_length: "length (int_sign ty flags v) \<le> 1"
  by (simp add: int_sign_def)

lemma int_field_length:
  assumes "- (2 ^ 63) \<le> v" "v < 2 ^ 63"
  shows "length (int_field ty long flags width prec v) \<le> max width (case prec of Some p \<Rightarrow> p | None \<Rightarrow> 0) + 23"
  using int_digits_length [OF assms, of ty long] int_sign_length [of ty flags v]
  by (auto simp: int_field_def Let_def pad_field_length split: option.splits)

lemma c_render_length:
  assumes "c_render flags width prec long ty fmt arg = Some out" "va_fits arg"
    and "prec = None \<Longrightarrow> case arg of VaStr s \<Rightarrow> length s < width | _ \<Rightarrow> True"
  shows "length out \<le> max width (case prec of Some p \<Rightarrow> p | None \<Rightarrow> 0) + 23"
proof (cases arg)
  case (VaInt v)
  then show ?thesis using assms int_field_length [of v]
    by (auto simp: c_render_def pad_field_length split: if_splits)
next
  case (VaLong v)
  then show ?thesis using assms int_field_length [of v] by (auto simp: c_render_def split: if_splits)
next
  case (VaStr s)
  then show ?thesis using assms by (auto simp: c_render_def pad_field_length split: if_splits option.splits)
qed (use assms(2) in auto)

section \<open>The rebuilt conversion is read back\<close>

abbreviation dec_step :: "int \<Rightarrow> char \<Rightarrow> int" where
  "dec_step n c \<equiv> 10 * n + (int (ord c) - 48)"

lemma fmt_number_text:
  assumes "fmt_number msg n fmt cp = Ok (n', fmt', cp')"
  shows "\<exists>ds. fmt' = fmt @ ds \<and> list_all ISDIGIT ds \<and> n' = foldl dec_step n ds"
  using assms
proof (induction msg n fmt cp rule: fmt_number.induct)
  case (2 msg n fmt ch cp)
  show ?case
  proof (cases "ISDIGIT ch")
    case True
    with 2 obtain ds where "fmt' = (fmt @ [ch]) @ ds" "list_all ISDIGIT ds"
      "n' = foldl dec_step (n * 10 + (int (ord ch) - 48)) ds"
      by (auto simp: Let_def split: if_splits)
    with True show ?thesis by (intro exI [of _ "ch # ds"]) (simp add: mult.commute)
  qed (use "2.prems" in auto)
qed auto

lemma digit_char_digit: "d < 10 \<Longrightarrow> ISDIGIT (digit_char False d) \<and> int (ord (digit_char False d)) - 48 = int d"
  by (simp add: digit_char_def ctype_defs)

lemma num_text_decimal: "list_all ISDIGIT (num_text False 10 n) \<and> num_value (num_text False 10 n) = int n"
proof (induction n rule: less_induct)
  case (less n)
  show ?case
  proof (cases "n < 10")
    case True
    then show ?thesis using digit_char_digit [of n] by (subst num_text.simps, subst (2) num_text.simps) (simp add: num_value_def)
  next
    case False
    then have "num_text False 10 n = num_text False 10 (n div 10) @ [digit_char False (n mod 10)]"
      by (subst num_text.simps) simp
    with less [of "n div 10"] False digit_char_digit [of "n mod 10"] show ?thesis
      by (simp add: num_value_def zdiv_int zmod_int)
  qed
qed

lemma fmt_size_text:
  assumes "fmt_size msg fmt cp ap = Ok (n, fmt', cp', ap')" "0 \<le> n"
  shows "\<exists>ds. fmt' = fmt @ ds \<and> list_all ISDIGIT ds \<and> num_value ds = n"
proof (cases "cp \<noteq> [] \<and> hd cp = CHR ''*''")
  case True
  then have "fmt' = ADDNUM fmt n" using assms(1) by (auto simp: fmt_size_def)
  then show ?thesis
    using assms(2) num_text_decimal [of "nat n"] by (simp add: ADDNUM_def int_sign_def int_digits_def)
next
  case False
  then show ?thesis using assms(1) fmt_number_text [of msg 0 fmt cp]
    by (auto simp: fmt_size_def num_value_def split: if_splits)
qed

lemma num_value_zeros: "list_all (\<lambda>c. c = CHR ''0'') zs \<Longrightarrow> num_value (zs @ ds) = num_value ds"
  by (induction zs) (auto simp: num_value_def)

lemma fmt_flags_text: "fmt_flags cp = (f1, c1) \<Longrightarrow> \<exists>fl. f1 = CHR ''%'' # fl \<and> list_all (\<lambda>c. c \<in> set ''-+0'') fl"
  by (auto simp: fmt_flags_def fmt_flag_def split: if_splits)

definition prec_text :: "string option \<Rightarrow> string" where
  "prec_text po = (case po of Some ps \<Rightarrow> CHR ''.'' # ps | None \<Rightarrow> [])"

lemma fmt_prec_text:
  assumes "fmt_prec fmt cp ap = Ok (prec, fmt', cp', ap')" "-1 \<le> prec" "prec \<noteq> -1 \<or> cp = [] \<or> hd cp \<noteq> CHR ''.''"
  shows "\<exists>po. fmt' = fmt @ prec_text po \<and> (case po of Some ps \<Rightarrow> list_all ISDIGIT ps \<and> num_value ps = prec | None \<Rightarrow> prec = -1)"
proof (cases "cp \<noteq> [] \<and> hd cp = CHR ''.''")
  case True
  with assms have "fmt_size ''vbuf_print: bad precision'' (fmt @ ''.'') (tl cp) ap = Ok (prec, fmt', cp', ap')" "0 \<le> prec"
    by (auto simp: fmt_prec_def)
  from fmt_size_text [OF this] obtain ds where "fmt' = fmt @ CHR ''.'' # ds" "list_all ISDIGIT ds" "num_value ds = prec"
    by auto
  then show ?thesis by (intro exI [of _ "Some ds"]) (simp add: prec_text_def)
next
  case False
  then show ?thesis using assms(1) by (intro exI [of _ None]) (auto simp: fmt_prec_def prec_text_def split: if_splits)
qed

lemma c_snprintf_parse:
  assumes fl: "list_all (\<lambda>c. c \<in> set ''-+0'') fl" and ds: "list_all ISDIGIT ds"
    and po: "\<And>ps. po = Some ps \<Longrightarrow> list_all ISDIGIT ps"
    and ty: "ty \<notin> set ''-+0.l''" "\<not> ISDIGIT ty"
  shows "\<exists>flags. c_snprintf (CHR ''%'' # fl @ ds @ prec_text po @ (if l then ''l'' else []) @ [ty]) arg =
    c_render flags (nat (num_value ds)) (map_option (\<lambda>ps. nat (num_value ps)) po) l ty
      (CHR ''%'' # fl @ ds @ prec_text po @ (if l then ''l'' else []) @ [ty]) arg"
proof -
  define rest where "rest = prec_text po @ (if l then ''l'' else []) @ [ty]"
  define zs where "zs = takeWhile (\<lambda>c. c = CHR ''0'') ds"
  define es where "es = dropWhile (\<lambda>c. c = CHR ''0'') ds"
  have nd: "\<not> ISDIGIT CHR ''.''" "\<not> ISDIGIT CHR ''l''" by (simp_all add: ctype_defs)
  have rest: "rest \<noteq> []" "\<not> ISDIGIT (hd rest)" "hd rest \<notin> set ''-+0''"
    using ty nd by (auto simp: rest_def prec_text_def split: option.splits)
  have split: "ds = zs @ es" by (simp add: zs_def es_def)
  have zs: "list_all (\<lambda>c. c = CHR ''0'') zs" by (auto simp: zs_def list_all_iff dest: set_takeWhileD)
  have es: "list_all ISDIGIT es" using ds split by simp
  have hd: "es @ rest = [] \<or> hd (es @ rest) \<notin> set ''-+0''"
  proof (cases es)
    case (Cons c cs)
    then have "c \<noteq> CHR ''0''" using hd_dropWhile [of "\<lambda>c. c = CHR ''0''" ds] es_def by auto
    moreover have "ISDIGIT c" using es Cons by simp
    ultimately show ?thesis using Cons by (auto simp: ctype_defs)
  qed (use rest in simp)
  have flz: "list_all (\<lambda>c. c \<in> set ''-+0'') (fl @ zs)" using fl zs by (auto simp: list_all_iff)
  have cp: "takeWhile (\<lambda>c. c \<in> set ''-+0'') (fl @ ds @ rest) = fl @ zs"
    "dropWhile (\<lambda>c. c \<in> set ''-+0'') (fl @ ds @ rest) = es @ rest"
    using takeWhile_app [OF flz hd] dropWhile_app [OF flz hd] by (simp_all add: split)
  have w: "takeWhile ISDIGIT (es @ rest) = es" "dropWhile ISDIGIT (es @ rest) = rest"
    using takeWhile_app [OF es] dropWhile_app [OF es] rest by auto
  have v: "num_value ds = num_value es" using num_value_zeros [OF zs] split by metis
  have q: "takeWhile ISDIGIT (ps @ (if l then ''l'' else []) @ [ty]) = ps"
    "dropWhile ISDIGIT (ps @ (if l then ''l'' else []) @ [ty]) = (if l then ''l'' else []) @ [ty]" if "po = Some ps" for ps
    using takeWhile_app [OF po [OF that]] dropWhile_app [OF po [OF that]] ty(2) nd(2) by auto
  have "c_snprintf (CHR ''%'' # fl @ ds @ rest) arg =
    c_render (fl @ zs) (nat (num_value ds)) (map_option (\<lambda>ps. nat (num_value ps)) po) l ty (CHR ''%'' # fl @ ds @ rest) arg"
    using ty q unfolding c_snprintf_def Let_def list.sel cp w v
    by (cases po) (auto simp: rest_def prec_text_def)
  then show ?thesis unfolding rest_def by blast
qed

section \<open>One conversion\<close>

lemma VSTRING_SKIP_ok:
  assumes "vs_holds vp bs" "drop (nat (vb_ptr vp)) (vb_data vp) = out @ NUL # rest" "NUL \<notin> set out"
  shows "returns (VSTRING_SKIP vp) (\<lambda>vp'. vs_holds vp' (bs @ out))"
  using assms
proof (induction out arbitrary: vp bs)
  case Nil
  have d: "length (drop (nat (vb_ptr vp)) (vb_data vp)) = Suc (length rest)" using Nil.prems(2) by simp
  have "vb_data vp ! nat (vb_ptr vp) = NUL"
    using Nil.prems(2) d by (metis append_Nil length_drop nth_via_drop zero_less_Suc)
  then show ?case using Nil.prems(1) d
    by (subst VSTRING_SKIP.simps) (auto simp: mem_read_def vs_holds_def vs_inv_def)
next
  case (Cons c out)
  let ?p = "nat (vb_ptr vp)"
  let ?vp = "vp\<lparr>vb_ptr := vb_ptr vp + 1, vb_cnt := vb_cnt vp - 1\<rparr>"
  have len: "?p < length (vb_data vp)" using Cons.prems(2) by (metis append_Cons drop_all linorder_not_less list.distinct(1))
  have nth: "vb_data vp ! ?p = c" using Cons.prems(2) by (metis append_Cons nth_via_drop)
  have cnt: "0 < vb_cnt vp" "0 \<le> vb_ptr vp" using Cons.prems(1) len by (auto simp: vs_holds_def vs_inv_def)
  have np: "nat (vb_ptr vp + 1) = Suc ?p" using cnt by simp
  have "vs_holds ?vp (bs @ [c])"
    using Cons.prems(1) len nth cnt np
    by (auto simp: vs_holds_def vs_inv_def vs_contents_def vs_exact_def take_Suc_conv_app_nth)
  moreover have "drop (nat (vb_ptr ?vp)) (vb_data ?vp) = out @ NUL # rest"
    using Cons.prems(2) np by (simp add: drop_Suc) (metis append_Cons drop_tl list.sel(3) tl_drop)
  ultimately have "returns (VSTRING_SKIP ?vp) (\<lambda>vp'. vs_holds vp' (bs @ c # out))"
    using Cons.IH [of ?vp "bs @ [c]"] Cons.prems(3) by simp
  then show ?case using cnt nth len Cons.prems(3)
    by (subst VSTRING_SKIP.simps) (auto simp: mem_read_def)
qed

lemma VBUF_SNPRINTF_ok:
  assumes "vs_holds bp bs" "c_snprintf fmt arg = Some out" "NUL \<notin> set out"
    and "length out < sz" "room (length bs + sz)" "int (length out) \<le> INT_MAX"
  shows "returns (VBUF_SNPRINTF bp (int sz) fmt arg) (\<lambda>bp. vs_holds bp (bs @ out))"
  unfolding VBUF_SNPRINTF_def
proof (rule space_then [OF assms(1,5)])
  fix v assume v: "vs_holds v bs" "int sz \<le> vb_cnt v"
  let ?p = "nat (vb_ptr v)"
  have fits: "0 \<le> vb_ptr v" "vb_ptr v + int (length (out @ [NUL])) \<le> int (length (vb_data v))" "int (length out) < vb_cnt v"
    using v assms(4) by (auto simp: vs_holds_def vs_inv_def)
  let ?d = "take ?p (vb_data v) @ (out @ [NUL]) @ drop (?p + length (out @ [NUL])) (vb_data v)"
  have w: "mem_write (vb_data v) (vb_ptr v) (out @ [NUL]) = Ok ?d" using fits by (simp add: mem_write_def)
  have len: "?p \<le> length (vb_data v)" using fits by linarith
  have "vs_holds (v\<lparr>vb_data := ?d\<rparr>) bs"
    using v fits by (auto simp: vs_holds_def vs_inv_def vs_contents_def vs_exact_def)
  moreover have "drop ?p ?d = out @ NUL # drop (?p + length (out @ [NUL])) (vb_data v)" using len by simp
  ultimately have "returns (VSTRING_SKIP (v\<lparr>vb_data := ?d\<rparr>)) (\<lambda>bp. vs_holds bp (bs @ out))"
    using VSTRING_SKIP_ok [of "v\<lparr>vb_data := ?d\<rparr>" bs out] assms(3) by simp
  then show "returns (case c_snprintf fmt arg of None \<Rightarrow> Fault
      | Some out \<Rightarrow> if snprintf_ret out < 0 then Panic ''vbuf_print: output error''
          else if vb_cnt v \<le> snprintf_ret out then Panic ''vbuf_print: output exceeds space''
          else obind (mem_write (vb_data v) (vb_ptr v) (out @ [NUL])) (\<lambda>d. VSTRING_SKIP (v\<lparr>vb_data := d\<rparr>)))
    (\<lambda>bp. vs_holds bp (bs @ out))"
    using assms(2,6) fits(3) w by (simp add: snprintf_ret_def)
qed

lemma VBUF_SNPRINTF_too_long:
  assumes "vs_holds bp bs" "c_snprintf fmt arg = Some out" "room (length bs + sz)" "INT_MAX < int (length out)"
  shows "VBUF_SNPRINTF bp (int sz) fmt arg = Panic ''vbuf_print: output error''"
proof -
  have "returns (obind (VSTRING_SPACE bp (int sz)) Ok) (\<lambda>_. True)" by (rule space_then [OF assms(1,3)]) simp
  then obtain v where "VSTRING_SPACE bp (int sz) = Ok v" by (auto simp: returns_def)
  then show ?thesis using assms(2,4) by (simp add: VBUF_SNPRINTF_def snprintf_ret_def)
qed

text \<open>The size estimate of the code and what it is compared with.\<close>

definition conv_size :: "int \<Rightarrow> int \<Rightarrow> nat" where
  "conv_size width prec = nat (max width prec + INT_SPACE)"

lemma fmt_spec_render:
  assumes "fmt_spec cp ap = Ok (width, prec, long_flag, fmt, ty # cp', ap')"
    and "0 \<le> width" "-1 \<le> prec" "prec \<noteq> -1 \<or> CHR ''.'' \<notin> set fmt" "ty \<in> set ''scduoxX''"
  shows "\<exists>flags. c_snprintf (fmt @ [ty]) arg = c_render flags (nat width)
    (if prec = -1 then None else Some (nat prec)) long_flag ty (fmt @ [ty]) arg"
  using assms(1)
proof (rule fmt_specE)
  fix f1 c1 w f2 c2 a2 p f3 c3 a3
  assume s: "fmt_flags cp = (f1, c1)" "fmt_size ''vbuf_print: bad width'' f1 c1 ap = Ok (w, f2, c2, a2)"
    "fmt_prec f2 c2 a2 = Ok (p, f3, c3, a3)"
    and r: "(width, prec, long_flag, fmt, ty # cp', ap') = (w, p, c3 \<noteq> [] \<and> hd c3 = CHR ''l'',
      fst (fmt_flag CHR ''l'' (f3, c3)), snd (fmt_flag CHR ''l'' (f3, c3)), a3)"
  obtain fl where fl: "f1 = CHR ''%'' # fl" "list_all (\<lambda>c. c \<in> set ''-+0'') fl" using fmt_flags_text [OF s(1)] by auto
  obtain ds where ds: "f2 = f1 @ ds" "list_all ISDIGIT ds" "num_value ds = width" using fmt_size_text [OF s(2)] assms(2) r by auto
  have fmt: "fmt = f3 @ (if long_flag then ''l'' else [])" using r by (auto simp: fmt_flag_def)
  have "prec \<noteq> -1 \<or> c2 = [] \<or> hd c2 \<noteq> CHR ''.''"
  proof (rule ccontr)
    assume "\<not> (prec \<noteq> -1 \<or> c2 = [] \<or> hd c2 \<noteq> CHR ''.'')"
    then have "CHR ''.'' \<in> set f3"
      using s(3) by (auto simp: fmt_prec_def fmt_size_def ADDNUM_def dest!: fmt_number_text split: if_splits)
    then show False using assms(4) fmt \<open>\<not> (prec \<noteq> -1 \<or> c2 = [] \<or> hd c2 \<noteq> CHR ''.'')\<close> by auto
  qed
  then obtain po where po: "f3 = f2 @ prec_text po"
    "case po of Some ps \<Rightarrow> list_all ISDIGIT ps \<and> num_value ps = prec | None \<Rightarrow> prec = -1"
    using fmt_prec_text [OF s(3)] assms(3) r by auto
  have ty: "ty \<notin> set ''-+0.l''" "\<not> ISDIGIT ty" using assms(5) by (auto simp: ctype_defs)
  have "fmt @ [ty] = CHR ''%'' # fl @ ds @ prec_text po @ (if long_flag then ''l'' else []) @ [ty]"
    using fmt po(1) ds(1) fl(1) by simp
  moreover have "map_option (\<lambda>ps. nat (num_value ps)) po = (if prec = -1 then None else Some (nat prec))"
  proof (cases po)
    case (Some ps)
    then have "list_all ISDIGIT ps" "num_value ps = prec" using po(2) by auto
    moreover have "prec \<noteq> -1 \<or> CHR ''.'' \<notin> set f3" using assms(4) fmt by auto
    ultimately show ?thesis using Some po(1) by (auto simp: prec_text_def)
  qed (use po(2) in auto)
  ultimately show ?thesis
    using c_snprintf_parse [OF fl(2) ds(2) _ ty, of po long_flag arg] po(2) ds(3) by (auto split: option.splits)
qed

text \<open>The strings that \<open>%s\<close> copies without \<open>snprintf\<close>, for a width that is not negative.\<close>

fun direct_copy :: "int \<Rightarrow> int \<Rightarrow> va \<Rightarrow> bool" where
  "direct_copy width prec (VaStr s) \<longleftrightarrow> prec < 0 \<and> width \<le> int (length s)"
| "direct_copy width prec _ \<longleftrightarrow> False"

lemma vbuf_conv_cases:
  assumes "c_render flags (nat width) (if prec = -1 then None else Some (nat prec)) long_flag ty fmt arg = Some out"
    and "0 \<le> width" "-1 \<le> prec" "ty \<in> set ''scduoxX''" "va_fits arg"
  shows "vbuf_conv err bp width prec long_flag fmt ty (arg # ap') =
    obind (if direct_copy width prec arg then VBUF_STRCAT bp out
           else VBUF_SNPRINTF bp (int (conv_size width prec)) fmt arg) (\<lambda>bp. Ok (bp, ap'))"
proof -
  have size: "(if width > prec then width else prec) + INT_SPACE = int (conv_size width prec)"
    using assms(2,3) by (auto simp: conv_size_def INT_SPACE_def max_def)
  have nlong: "ty = CHR ''s'' \<or> ty = CHR ''c'' \<Longrightarrow> \<not> long_flag" using assms(1) by (auto simp: c_render_def split: va.splits if_splits)
  show ?thesis
  proof (cases "ty = CHR ''s''")
    case True
    then obtain s where s: "arg = VaStr s" using assms(1,5) by (cases arg) (auto simp: c_render_def split: if_splits)
    have "out = s" if "direct_copy width prec arg"
      using assms(1) that s assms(3) True by (auto simp: c_render_def pad_field_def Let_def split: if_splits)
    moreover have "direct_copy width prec arg \<longleftrightarrow> \<not> (prec \<ge> 0 \<or> (width > 0 \<and> width > int (length s)))"
      using s assms(2) by auto
    ultimately show ?thesis using True nlong s size by (simp add: vbuf_conv_def bad_long_def Let_def)
  next
    case False
    then have "\<not> direct_copy width prec arg" using assms(1) by (cases arg) (auto simp: c_render_def)
    then show ?thesis
      using False nlong assms(4) size by (cases "ty = CHR ''c''") (simp_all add: vbuf_conv_def bad_long_def Let_def)
  qed
qed

lemma vbuf_conv_ok:
  assumes "vs_holds bp bs" "fmt_spec cp ap = Ok (width, prec, long_flag, fmt, ty # cp', arg # ap')"
    and "0 \<le> width" "-1 \<le> prec" "prec \<noteq> -1 \<or> CHR ''.'' \<notin> set fmt" "ty \<in> set ''scduoxX''"
    and "c_snprintf (fmt @ [ty]) arg = Some out" "NUL \<notin> set out" "va_fits arg"
    and "room (length bs + length out + conv_size width prec)"
  shows "if int (length out) \<le> INT_MAX \<or> direct_copy width prec arg
    then returns (vbuf_conv err bp width prec long_flag (fmt @ [ty]) ty (arg # ap'))
           (\<lambda>(bp, ap). vs_holds bp (bs @ out) \<and> ap = ap')
    else vbuf_conv err bp width prec long_flag (fmt @ [ty]) ty (arg # ap') = Panic ''vbuf_print: output error''"
proof -
  obtain flags where r: "c_render flags (nat width) (if prec = -1 then None else Some (nat prec)) long_flag ty
      (fmt @ [ty]) arg = Some out"
    using fmt_spec_render [OF assms(2-6), of arg] assms(7) by auto
  note conv = vbuf_conv_cases [OF r assms(3,4,6,9), of err bp ap']
  show ?thesis
  proof (cases "direct_copy width prec arg")
    case True
    have "returns (VBUF_STRCAT bp out) (\<lambda>bp. vs_holds bp (bs @ out))"
      unfolding VBUF_STRCAT_def by (rule addchs_ok [OF assms(1)]) (rule room_mono [OF assms(10)], simp)
    then show ?thesis using True unfolding conv by (auto intro!: returns_bind)
  next
    case False
    have "length out \<le> max (nat width) (case if prec = -1 then None else Some (nat prec) of Some p \<Rightarrow> p | None \<Rightarrow> 0) + 23"
      by (rule c_render_length [OF r assms(9)]) (use False in \<open>auto split: if_splits va.splits\<close>)
    then have "length out < conv_size width prec"
      using assms(3,4) by (auto simp: conv_size_def INT_SPACE_def max_def split: if_splits)
    moreover have room: "room (length bs + conv_size width prec)" by (rule room_mono [OF assms(10)]) simp
    ultimately have "int (length out) \<le> INT_MAX \<Longrightarrow>
        returns (VBUF_SNPRINTF bp (int (conv_size width prec)) (fmt @ [ty]) arg) (\<lambda>bp. vs_holds bp (bs @ out))"
      using VBUF_SNPRINTF_ok [OF assms(1,7,8)] by simp
    then show ?thesis
      using False VBUF_SNPRINTF_too_long [OF assms(1,7) room] unfolding conv by (auto intro!: returns_bind)
  qed
qed

section \<open>Properties\<close>

text \<open>
  C34: A conversion without negative dynamic sizes always fits: for a string or integer
  argument, \<open>vbuf_print\<close> reserves enough space for what \<open>snprintf\<close> prints, so
  the panic ``output exceeds space'' cannot happen, and the string grows by exactly the
  printed text, provided that its length is an \<open>int\<close>. A longer text is the panic ``output error''.
  For \<open>%s\<close> the direct copy that bypasses \<open>snprintf\<close> is included, which has no such limit.
\<close>

theorem vbuf_conv_fits:
  assumes "vs_holds bp bs" "fmt_spec cp ap = Ok (width, prec, long_flag, fmt, ty # cp', arg # ap')"
    and "0 \<le> width" "-1 \<le> prec" "prec \<noteq> -1 \<or> CHR ''.'' \<notin> set fmt" "ty \<in> set ''scduoxX''"
    and "c_snprintf (fmt @ [ty]) arg = Some out" "NUL \<notin> set out" "va_fits arg"
    and "room (length bs + length out + conv_size width prec)"
  shows "if int (length out) \<le> INT_MAX \<or> direct_copy width prec arg
    then returns (vbuf_conv err bp width prec long_flag (fmt @ [ty]) ty (arg # ap'))
           (\<lambda>(bp, ap). vs_holds bp (bs @ out) \<and> ap = ap')
    else vbuf_conv err bp width prec long_flag (fmt @ [ty]) ty (arg # ap') = Panic ''vbuf_print: output error''"
  using assms by (rule vbuf_conv_ok)

theorem vbuf_conv_fits_witness:
  "returns (vbuf_conv [] empty_vstring 8 (-1) False ''%08x'' CHR ''x'' [VaInt 255])
     (\<lambda>(bp, ap). vs_holds bp ''000000ff'' \<and> ap = [])"
proof -
  have "fmt_spec ''08x'' [VaInt 255] = Ok (8, -1, False, ''%08'', ''x'', [VaInt 255])"
    by (simp add: fmt_spec_def fmt_flags_def fmt_flag_def fmt_size_def fmt_prec_def ctype_defs Let_def INT_MAX_def)
  moreover have "c_snprintf ''%08x'' (VaInt 255) = Some ''000000ff''" by code_simp
  ultimately show ?thesis
    using vbuf_conv_fits [of empty_vstring "[]" "''08x''" "[VaInt 255]" 8 "-1" False "''%08''" "CHR ''x''" "[]"
        "VaInt 255" "[]" "''000000ff''" "[]"] empty_vstring_holds
    by (simp add: conv_size_def INT_SPACE_def room_def SSIZE_T_MAX_def INT_MAX_def)
qed

lemma num_text_100: "num_text False 10 100 = ''100''"
  by code_simp

text \<open>
  With a negative dynamic width the estimate ignores the width, although \<open>snprintf\<close>
  pads to its absolute value: printing \<open>%*d\<close> with width -100 into a fresh string panics.
\<close>

lemma negative_width_panics:
  "obind (vstring_alloc 1) (\<lambda>vp. vstring_sprintf err vp ''%*d'' [VaInt (-100), VaInt 1]) =
     Panic ''vbuf_print: output exceeds space''"
proof -
  have fmt: "fmt_spec ''*d'' [VaInt (-100), VaInt 1] = Ok (-100, -1, False, ''%-100'', ''d'', [VaInt 1])"
    using num_text_100 by (simp add: fmt_spec_def fmt_flags_def fmt_flag_def fmt_size_def fmt_prec_def ADDNUM_def
        int_sign_def int_digits_def)
  have out: "map_option length (c_snprintf ''%-100d'' (VaInt 1)) = Some 100" by code_simp
  then obtain tx where tx: "c_snprintf ''%-100d'' (VaInt 1) = Some tx" "length tx = 100" by auto
  show ?thesis
    using fmt tx
    by (simp add: vstring_alloc_def mymalloc_def mem_write_def VSTRING_RESET_def vstring_sprintf_def vstring_vsprintf_def
        vbuf_print.simps(2) vbuf_conv_def INT_SPACE_def VBUF_SNPRINTF_def VSTRING_SPACE_def vstring_buf_space_def vstring_extend_def
        myrealloc_def SSIZE_T_MAX_def vs_exact_def Let_def outcome_simps snprintf_ret_def INT_MAX_def)
qed

end
