(* ===== verification/Hexcode.thy ===== *)
theory Hexcode
  imports Codec Vbuf_print
begin

text \<open>
  The hexadecimal codec of \<open>src/util/hex_code.c\<close>, the \<open>%XX\<close> quoting of
  \<open>src/util/hex_quote.c\<close> and the C-style escapes of \<open>src/util/unescape.c\<close>. All three
  pairs are interpretations of the codec contract. Octal and hexadecimal escapes are
  written with \<open>vstring_sprintf_append\<close>, whose formats contain no \<open>%m\<close>.
\<close>

section \<open>Hexadecimal\<close>

definition hex_chars :: string where
  "hex_chars = ''0123456789ABCDEF''"

fun hex_encode_loop :: "vstring \<Rightarrow> char list \<Rightarrow> vstring outcome" where
  "hex_encode_loop result [] = Ok result"
| "hex_encode_loop result (ch # cp) =
     obind (VSTRING_ADDCH result (hex_chars ! (drop_bit 4 (ord ch) AND 15))) (\<lambda>result.
     obind (VSTRING_ADDCH result (hex_chars ! (ord ch AND 15))) (\<lambda>result.
     hex_encode_loop result cp))"

definition hex_encode :: "vstring \<Rightarrow> char list \<Rightarrow> vstring outcome" where
  "hex_encode result inp = obind (hex_encode_loop (VSTRING_RESET result) inp) VSTRING_TERMINATE"

definition hex_digit :: "char \<Rightarrow> nat option" where
  "hex_digit c =
     (let hex = ord c in
      if hex \<ge> 48 \<and> hex \<le> 57 then Some (hex - 48)
      else if hex \<ge> 65 \<and> hex \<le> 70 then Some (hex - 65 + 10)
      else if hex \<ge> 97 \<and> hex \<le> 102 then Some (hex - 97 + 10)
      else None)"

fun hex_decode_loop :: "vstring \<Rightarrow> char list \<Rightarrow> vstring option outcome" where
  "hex_decode_loop result [] = Ok (Some result)"
| "hex_decode_loop result [_] = Ok None"
| "hex_decode_loop result (c0 # c1 # cp) =
     (case hex_digit c0 of
        None \<Rightarrow> Ok None
      | Some hi \<Rightarrow>
          (case hex_digit c1 of
             None \<Rightarrow> Ok None
           | Some lo \<Rightarrow>
               obind (VSTRING_ADDCH result (char_of (push_bit 4 hi OR lo))) (\<lambda>result.
               hex_decode_loop result cp)))"

definition hex_decode :: "vstring \<Rightarrow> char list \<Rightarrow> vstring option outcome" where
  "hex_decode result inp = finish_decode (hex_decode_loop (VSTRING_RESET result) inp)"

section \<open>Quoting with percent signs\<close>

text \<open>
  The input is a C string: the loop of the code ends at the null byte, and the list has the bytes
  before it. Lists with a null byte are not inputs of this function.
\<close>

fun hex_quote_loop :: "vstring \<Rightarrow> string \<Rightarrow> vstring outcome" where
  "hex_quote_loop hex [] = Ok hex"
| "hex_quote_loop hex (ch # cp) =
     obind (if ch \<noteq> CHR ''%'' \<and> \<not> ISSPACE ch \<and> ISPRINT ch then VSTRING_ADDCH hex ch
            else vstring_sprintf_append [] hex ''%%%02X'' [VaInt (int (ord ch))]) (\<lambda>hex.
     hex_quote_loop hex cp)"

definition hex_quote :: "vstring \<Rightarrow> string \<Rightarrow> vstring outcome" where
  "hex_quote hex raw = obind (hex_quote_loop (VSTRING_RESET hex) raw) VSTRING_TERMINATE"

text \<open>Behind the last byte stands the null byte, which is no hexadecimal digit.\<close>

fun hex_unquote_loop :: "vstring \<Rightarrow> string \<Rightarrow> vstring option outcome" where
  "hex_unquote_loop raw [] = Ok (Some raw)"
| "hex_unquote_loop raw (ch # cp) =
     (if ch = CHR ''%'' then
        (case cp of
           c1 # c2 # cp \<Rightarrow>
             (case hex_digit c1 of
                None \<Rightarrow> Ok None
              | Some hi \<Rightarrow>
                  (case hex_digit c2 of
                     None \<Rightarrow> Ok None
                   | Some lo \<Rightarrow>
                       obind (VSTRING_ADDCH raw (char_of (push_bit 4 hi OR lo))) (\<lambda>raw.
                       hex_unquote_loop raw cp)))
         | _ \<Rightarrow> Ok None)
      else obind (VSTRING_ADDCH raw ch) (\<lambda>raw. hex_unquote_loop raw cp))"

definition hex_unquote :: "vstring \<Rightarrow> string \<Rightarrow> vstring option outcome" where
  "hex_unquote raw hex = finish_decode (hex_unquote_loop (VSTRING_RESET raw) hex)"

section \<open>Backslash escapes\<close>

definition ISOCTAL :: "char \<Rightarrow> bool" where
  "ISOCTAL ch \<longleftrightarrow> ISDIGIT ch \<and> ch \<noteq> CHR ''8'' \<and> ch \<noteq> CHR ''9''"

text \<open>The loop over at most \<open>i\<close> further octal digits.\<close>

fun octal_value :: "nat \<Rightarrow> nat \<Rightarrow> string \<Rightarrow> nat \<times> string" where
  "octal_value (Suc i) oval (ch # data) =
     (if ISOCTAL ch then octal_value i (push_bit 3 oval OR (ord ch - 48)) data else (oval, ch # data))"
| "octal_value i oval data = (oval, data)"

lemma octal_value_shorter: "length (snd (octal_value i oval data)) \<le> length data"
  by (induction i oval data rule: octal_value.induct) auto

definition unescape_char :: "char \<Rightarrow> char" where
  "unescape_char ch =
     (if ch = CHR ''a'' then char_of (7::nat) else if ch = CHR ''b'' then char_of (8::nat)
      else if ch = CHR ''f'' then char_of (12::nat) else if ch = CHR ''n'' then char_of (10::nat)
      else if ch = CHR ''r'' then char_of (13::nat) else if ch = CHR ''t'' then char_of (9::nat)
      else if ch = CHR ''v'' then char_of (11::nat) else ch)"

function unescape_loop :: "vstring \<Rightarrow> string \<Rightarrow> vstring outcome" where
  "unescape_loop result [] = Ok result"
| "unescape_loop result (ch # data) =
     (if ch = CHR 0x5C then
        (case data of
           [] \<Rightarrow> Ok result
         | ch # data \<Rightarrow>
             if ISOCTAL ch then
               obind (VSTRING_ADDCH result (char_of (fst (octal_value 2 (ord ch - 48) data)))) (\<lambda>result.
               unescape_loop result (snd (octal_value 2 (ord ch - 48) data)))
             else obind (VSTRING_ADDCH result (unescape_char ch)) (\<lambda>result. unescape_loop result data))
      else obind (VSTRING_ADDCH result ch) (\<lambda>result. unescape_loop result data))"
  by pat_completeness auto
termination
  by (relation "measure (\<lambda>(_, data). length data)")
    (auto simp: less_Suc_eq_le intro: le_trans [OF octal_value_shorter])

definition unescape :: "vstring \<Rightarrow> string \<Rightarrow> vstring outcome" where
  "unescape result data = obind (unescape_loop (VSTRING_RESET result) data) VSTRING_TERMINATE"

text \<open>The characters with a letter escape.\<close>

definition escape_letter :: "char \<Rightarrow> char option" where
  "escape_letter ch =
     (if ord ch = 7 then Some CHR ''a'' else if ord ch = 8 then Some CHR ''b''
      else if ord ch = 12 then Some CHR ''f'' else if ord ch = 10 then Some CHR ''n''
      else if ord ch = 13 then Some CHR ''r'' else if ord ch = 9 then Some CHR ''t''
      else if ord ch = 11 then Some CHR ''v'' else None)"

fun escape_loop :: "vstring \<Rightarrow> char list \<Rightarrow> vstring outcome" where
  "escape_loop result [] = Ok result"
| "escape_loop result (ch # data) =
     obind
       (if ISASCII ch \<and> ISPRINT ch then
          obind (if ch = CHR 0x5C then VSTRING_ADDCH result ch else Ok result) (\<lambda>result. VSTRING_ADDCH result ch)
        else if ISASCII ch \<and> escape_letter ch \<noteq> None then
          vstring_strcat result [CHR 0x5C, the (escape_letter ch)]
        else vstring_sprintf_append [] result [CHR 0x5C, CHR ''%'', CHR ''0'', CHR ''3'', CHR ''o''] [VaInt (int (ord ch))])
       (\<lambda>result. escape_loop result data)"

definition escape :: "vstring \<Rightarrow> char list \<Rightarrow> vstring outcome" where
  "escape result data = obind (escape_loop (VSTRING_RESET result) data) VSTRING_TERMINATE"

section \<open>Text of a character\<close>

definition hex_text :: "char \<Rightarrow> string" where
  "hex_text c = [hex_chars ! (ord c div 16), hex_chars ! (ord c mod 16)]"

definition quote_text :: "char \<Rightarrow> string" where
  "quote_text c = (if c \<noteq> CHR ''%'' \<and> \<not> ISSPACE c \<and> ISPRINT c then [c] else CHR ''%'' # hex_text c)"

definition octal_text :: "char \<Rightarrow> string" where
  "octal_text c = map (\<lambda>d. char_of (48 + d)) [ord c div 64, ord c div 8 mod 8, ord c mod 8]"

definition escape_text :: "char \<Rightarrow> string" where
  "escape_text c =
     (if ISASCII c \<and> ISPRINT c then (if c = CHR 0x5C then [c, c] else [c])
      else CHR 0x5C # (case escape_letter c of Some l \<Rightarrow> [l] | None \<Rightarrow> octal_text c))"

lemma hex_digit_chars: "k < 16 \<Longrightarrow> hex_digit (hex_chars ! k) = Some k"
proof -
  assume "k < 16"
  then have "k \<in> set [0..<16]" by simp
  moreover have "list_all (\<lambda>k. hex_digit (hex_chars ! k) = Some k) [0..<16]" by code_simp
  ultimately show ?thesis by (simp only: list_all_iff)
qed

lemma nibbles: "ord c div 16 < 16" "ord c mod 16 < 16"
  by (simp_all add: less_mult_imp_div_less)

lemma nibbles_join: "char_of (push_bit 4 (ord c div 16) OR ord c mod 16) = c"
proof -
  have "push_bit 4 (ord c div 16) OR ord c mod 16 = push_bit 4 (drop_bit 4 (ord c)) OR take_bit 4 (ord c)"
    by (simp add: drop_bit_eq_div take_bit_eq_mod)
  also have "char_of \<dots> = c" by (rule char_of_bits8; simp only: byte_bits; simp add: byte_bits del: bit_0)
  finally show ?thesis .
qed

lemma unsigned_byte: "unsigned_value False (int (ord c)) = ord c"
  using ord_bound [of c] by (simp add: unsigned_value_def nat_mod_distrib del: ord_bound)

lemma num_text_unfold:
  "2 \<le> b \<Longrightarrow> num_text u b n = (if n < b then [digit_char u n] else num_text u b (n div b) @ [digit_char u (n mod b)])"
  by (subst num_text.simps) simp

lemma hex_chars_digit: "k < 16 \<Longrightarrow> digit_char True k = hex_chars ! k"
proof -
  assume "k < 16"
  then have "k \<in> set [0..<16]" by simp
  moreover have "list_all (\<lambda>k. digit_char True k = hex_chars ! k) [0..<16]" by code_simp
  ultimately show ?thesis by (simp only: list_all_iff)
qed

lemma num_text_hex: "num_text True 16 (ord c) = (if ord c < 16 then [hex_chars ! ord c] else hex_text c)"
  using nibbles [of c] num_text_unfold [of 16 True "ord c"] num_text_unfold [of 16 True "ord c div 16"]
  by (simp add: hex_text_def hex_chars_digit)

lemma sprintf_02X: "c_snprintf ''%02X'' (VaInt (int (ord c))) = Some (hex_text c)"
proof -
  have "c_snprintf ''%02X'' (VaInt (int (ord c))) = Some (int_field CHR ''X'' False ''0'' 2 None (int (ord c)))"
    by (simp add: c_snprintf_def ctype_defs num_value_def c_render_def)
  moreover have "int_field CHR ''X'' False ''0'' 2 None (int (ord c)) = hex_text c"
    by (auto simp: int_field_def int_sign_def int_digits_def unsigned_byte num_text_hex hex_text_def hex_chars_def)
  ultimately show ?thesis by simp
qed

lemma num_text_octal:
  "num_text False 8 (ord c) = (if ord c < 8 then drop 2 (octal_text c) else if ord c < 64 then drop 1 (octal_text c) else octal_text c)"
proof -
  have d: "ord c div 8 div 8 = ord c div 64" by (simp add: div_mult2_eq [symmetric])
  have b: "ord c div 64 < 8" using ord_bound [of c] by (simp add: less_mult_imp_div_less del: ord_bound)
  have s: "ord c div 8 < 8 \<longleftrightarrow> ord c < 64" by (simp add: div_less_iff_less_mult)
  show ?thesis
    using b d s num_text_unfold [of 8 False "ord c"] num_text_unfold [of 8 False "ord c div 8"]
      num_text_unfold [of 8 False "ord c div 64"]
    by (auto simp: octal_text_def digit_char_def)
qed

lemma char_of_48: "char_of (48::nat) = CHR ''0''"
  by code_simp

lemma sprintf_03o: "c_snprintf ''%03o'' (VaInt (int (ord c))) = Some (octal_text c)"
proof -
  have "c_snprintf ''%03o'' (VaInt (int (ord c))) = Some (int_field CHR ''o'' False ''0'' 3 None (int (ord c)))"
    by (simp add: c_snprintf_def ctype_defs num_value_def c_render_def)
  moreover have "int_field CHR ''o'' False ''0'' 3 None (int (ord c)) = octal_text c"
    by (auto simp: int_field_def int_sign_def int_digits_def unsigned_byte num_text_octal octal_text_def numeral_3_eq_3 char_of_48)
  ultimately show ?thesis by simp
qed

text \<open>The two formats of this theory: some literal bytes and one integer conversion.\<close>

lemma vbuf_print_conv:
  assumes "vs_holds vp bs" "fmt_spec cp [VaInt v] = Ok (int w, -1, False, fmt, [ty], [VaInt v])"
    and "CHR ''.'' \<notin> set fmt" "ty \<in> set ''scduoxX''" "hd cp \<noteq> CHR ''%''"
    and "c_snprintf (fmt @ [ty]) (VaInt v) = Some out" "NUL \<notin> set out" "va_fits (VaInt v)"
    and "room (length bs + length out + w + 32)" "int (length out) \<le> INT_MAX"
  shows "returns (vbuf_print err vp (CHR ''%'' # cp) [VaInt v]) (\<lambda>vp. vs_holds vp (bs @ out))"
proof -
  have "conv_size (int w) (-1) = w + 32" by (simp add: conv_size_def INT_SPACE_def)
  then have "returns (vbuf_conv err vp (int w) (-1) False (fmt @ [ty]) ty [VaInt v])
      (\<lambda>(bp, ap). vs_holds bp (bs @ out) \<and> ap = [])"
    using vbuf_conv_ok [OF assms(1,2) _ _ _ assms(4,6,7,8), of err] assms(3,9,10) by (simp add: add.assoc)
  then show ?thesis using assms(2,5) by (auto simp: returns_def vbuf_print.simps(2))
qed

lemma sprintf_append_ok:
  assumes "vs_holds vp bs" "NUL \<notin> set out" "room (length bs + length out + 63)"
    and "\<And>vp bs. vs_holds vp bs \<Longrightarrow> room (length bs + length out + 40) \<Longrightarrow>
           returns (vbuf_print err vp format ap) (\<lambda>vp. vs_holds vp (bs @ out))"
  shows "returns (vstring_sprintf_append err vp format ap) (\<lambda>vp. vs_holds vp (bs @ out))"
  unfolding vstring_sprintf_append_def vstring_vsprintf_append_def
proof (rule returns_bind)
  show "returns (vbuf_print err vp format ap) (\<lambda>vp. vs_holds vp (bs @ out))"
    by (rule assms(4) [OF assms(1)]) (rule room_mono [OF assms(3)], simp)
  fix v assume "vs_holds v (bs @ out)"
  then show "returns (VSTRING_TERMINATE v) (\<lambda>vp. vs_holds vp (bs @ out))"
    using VSTRING_TERMINATE_ok [of v "bs @ out"] room_mono [OF assms(3)] by (auto elim!: returns_mono)
qed

lemma hex_chars_printable: "k < 16 \<Longrightarrow> hex_chars ! k \<noteq> NUL"
  using hex_digit_chars [of k] by (auto simp: hex_digit_def split: if_splits)

lemma hex_text_printable: "NUL \<notin> set (hex_text c)"
  using hex_chars_printable [OF nibbles(1) [of c]] hex_chars_printable [OF nibbles(2) [of c]]
  by (simp add: hex_text_def not_sym)

lemma octal_digit: "d < 8 \<Longrightarrow> ord (char_of (48 + d)) = 48 + d"
  by simp

lemma octal_parts: "ord c div 64 < 8" "ord c div 8 mod 8 < 8" "ord c mod 8 < 8"
  using ord_bound [of c] by (simp_all add: less_mult_imp_div_less del: ord_bound)

lemma octal_text_printable: "NUL \<notin> set (octal_text c)"
proof -
  have "NUL \<noteq> char_of (48 + d)" if "d < 8" for d :: nat
    using octal_digit [OF that] by (metis add_is_0 ord_eq_zero zero_neq_numeral)
  then show ?thesis using octal_parts [of c] by (simp add: octal_text_def)
qed

lemma vbuf_print_02X:
  assumes "vs_holds vp bs" "room (length bs + length (CHR ''%'' # hex_text c) + 40)"
  shows "returns (vbuf_print err vp ''%%%02X'' [VaInt (int (ord c))]) (\<lambda>vp. vs_holds vp (bs @ CHR ''%'' # hex_text c))"
proof -
  have spec: "fmt_spec ''02X'' [VaInt v] = Ok (int 2, -1, False, ''%0'' @ ''2'', ''X'', [VaInt v])" for v
    by (simp add: fmt_spec_def fmt_flags_def fmt_flag_def fmt_size_def fmt_prec_def ctype_defs Let_def INT_MAX_def)
  have "returns (vbuf_print err v ''%02X'' [VaInt (int (ord c))]) (\<lambda>vp. vs_holds vp ((bs @ ''%'') @ hex_text c))"
    if "vs_holds v (bs @ ''%'')" for v
    by (rule vbuf_print_conv [OF that spec])
      (use hex_text_printable sprintf_02X room_mono [OF assms(2)] ord_bound [of c] in \<open>auto simp del: ord_bound simp: hex_text_def INT_MAX_def\<close>)
  then show ?thesis
    using ADDCH_ok [OF assms(1), of "CHR ''%''"] room_mono [OF assms(2)]
    by (auto simp: vbuf_print_steps intro!: returns_bind)
qed

lemma vbuf_print_03o:
  assumes "vs_holds vp bs" "room (length bs + length (CHR 0x5C # octal_text c) + 40)"
  shows "returns (vbuf_print err vp [CHR 0x5C, CHR ''%'', CHR ''0'', CHR ''3'', CHR ''o''] [VaInt (int (ord c))])
    (\<lambda>vp. vs_holds vp (bs @ CHR 0x5C # octal_text c))"
proof -
  have spec: "fmt_spec ''03o'' [VaInt v] = Ok (int 3, -1, False, ''%0'' @ ''3'', ''o'', [VaInt v])" for v
    by (simp add: fmt_spec_def fmt_flags_def fmt_flag_def fmt_size_def fmt_prec_def ctype_defs Let_def INT_MAX_def)
  have "returns (vbuf_print err v ''%03o'' [VaInt (int (ord c))]) (\<lambda>vp. vs_holds vp ((bs @ [CHR 0x5C]) @ octal_text c))"
    if "vs_holds v (bs @ [CHR 0x5C])" for v
    by (rule vbuf_print_conv [OF that spec])
      (use octal_text_printable sprintf_03o room_mono [OF assms(2)] ord_bound [of c] in \<open>auto simp del: ord_bound simp: octal_text_def INT_MAX_def\<close>)
  then show ?thesis
    using ADDCH_ok [OF assms(1), of "CHR 0x5C"] room_mono [OF assms(2)]
    by (auto simp: vbuf_print_steps intro!: returns_bind)
qed

section \<open>The codecs meet the contract\<close>

lemma nibble_masks: "drop_bit 4 (ord c) AND 15 = ord c div 16" "ord c AND 15 = ord c mod 16"
  using nibbles [of c] by (simp_all add: and_masks drop_bit_eq_div take_bit_eq_mod)

lemma addchs_two: "obind (VSTRING_ADDCH vp a) (\<lambda>vp. VSTRING_ADDCH vp b) = addchs vp [a, b]"
  by simp

interpretation hex: byte_codec hex_encode_loop
  "\<lambda>vp c. obind (VSTRING_ADDCH vp (hex_chars ! (drop_bit 4 (ord c) AND 15)))
     (\<lambda>vp. VSTRING_ADDCH vp (hex_chars ! (ord c AND 15)))"
  hex_decode_loop hex_text "\<lambda>_. True"
proof
  fix vp bs c rest cs
  show "returns (obind (VSTRING_ADDCH vp (hex_chars ! (drop_bit 4 (ord c) AND 15)))
      (\<lambda>vp. VSTRING_ADDCH vp (hex_chars ! (ord c AND 15)))) (\<lambda>vp. vs_holds vp (bs @ hex_text c))"
    if "vs_holds vp bs" "room (length bs + length (hex_text c) + 63)"
    unfolding addchs_two nibble_masks hex_text_def
    by (rule addchs_ok [OF that(1)]) (rule room_mono [OF that(2)], simp add: hex_text_def)
  show "hex_decode_loop vp (hex_text c @ rest) = obind (VSTRING_ADDCH vp c) (\<lambda>vp. hex_decode_loop vp rest)"
    using nibbles [of c] by (simp add: hex_text_def hex_digit_chars nibbles_join)
qed (simp_all add: hex_text_def outcome_simps)

interpretation hexquote: byte_codec hex_quote_loop
  "\<lambda>hex ch. if ch \<noteq> CHR ''%'' \<and> \<not> ISSPACE ch \<and> ISPRINT ch then VSTRING_ADDCH hex ch
     else vstring_sprintf_append [] hex ''%%%02X'' [VaInt (int (ord ch))]"
  hex_unquote_loop quote_text "\<lambda>_. True"
proof
  fix vp bs c rest cs
  let ?plain = "c \<noteq> CHR ''%'' \<and> \<not> ISSPACE c \<and> ISPRINT c"
  show "returns (if ?plain then VSTRING_ADDCH vp c
      else vstring_sprintf_append [] vp ''%%%02X'' [VaInt (int (ord c))]) (\<lambda>vp. vs_holds vp (bs @ quote_text c))"
    if vp: "vs_holds vp bs" and rm: "room (length bs + length (quote_text c) + 63)"
  proof (cases ?plain)
    case True
    then show ?thesis using ADDCH_ok [OF vp, of c] room_mono [OF rm] by (simp add: quote_text_def)
  next
    case False
    then have q: "quote_text c = CHR ''%'' # hex_text c" unfolding quote_text_def by argo
    have "returns (vstring_sprintf_append [] vp ''%%%02X'' [VaInt (int (ord c))]) (\<lambda>vp. vs_holds vp (bs @ CHR ''%'' # hex_text c))"
      by (rule sprintf_append_ok [OF vp]) (use q rm hex_text_printable vbuf_print_02X in auto)
    then show ?thesis unfolding if_not_P [OF False] q .
  qed
  show "hex_unquote_loop vp (quote_text c @ rest) = obind (VSTRING_ADDCH vp c) (\<lambda>vp. hex_unquote_loop vp rest)"
    using nibbles [of c] by (auto simp: quote_text_def hex_text_def hex_digit_chars nibbles_join)
qed (simp_all add: quote_text_def)

lemma ISOCTAL_digit: "d < 8 \<Longrightarrow> ISOCTAL (char_of (48 + d :: nat))"
proof -
  assume "d < 8"
  then have "d \<in> set [0..<8]" by simp
  moreover have "list_all (\<lambda>d. ISOCTAL (char_of (48 + d :: nat))) [0..<8]" by code_simp
  ultimately show ?thesis by (simp only: list_all_iff)
qed

lemma octal_join:
  "char_of (push_bit 3 (push_bit 3 (ord c div 64) OR ord c div 8 mod 8) OR ord c mod 8) = c"
proof -
  have "push_bit 3 (push_bit 3 (ord c div 64) OR ord c div 8 mod 8) OR ord c mod 8 =
    push_bit 3 (push_bit 3 (drop_bit 6 (ord c)) OR take_bit 3 (drop_bit 3 (ord c))) OR take_bit 3 (ord c)"
    by (simp add: drop_bit_eq_div take_bit_eq_mod)
  also have "char_of \<dots> = c" by (rule char_of_bits8; simp only: byte_bits; simp add: byte_bits del: bit_0)
  finally show ?thesis .
qed

text \<open>\<open>unescape\<close> never has a null result; it is the decoder with every result present.\<close>

definition unescape_dec :: "vstring \<Rightarrow> string \<Rightarrow> vstring option outcome" where
  "unescape_dec vp data = obind (unescape_loop vp data) (\<lambda>vp. Ok (Some vp))"

lemma unescape_octal:
  "unescape_loop vp (CHR 0x5C # octal_text c @ rest) = obind (VSTRING_ADDCH vp c) (\<lambda>vp. unescape_loop vp rest)"
proof -
  have v: "octal_value 2 (ord c div 64) (char_of (48 + ord c div 8 mod 8) # char_of (48 + ord c mod 8) # rest) =
    (push_bit 3 (push_bit 3 (ord c div 64) OR ord c div 8 mod 8) OR ord c mod 8, rest)"
    using octal_parts [of c] by (simp add: numeral_2_eq_2 ISOCTAL_digit)
  show ?thesis
    using octal_parts [of c] v by (simp add: octal_text_def ISOCTAL_digit octal_join [simplified])
qed

lemma escape_letter_back:
  assumes "escape_letter c = Some l"
  shows "unescape_char l = c" "\<not> ISOCTAL l"
proof -
  let ?tab = "[(7, CHR ''a''), (8, CHR ''b''), (12, CHR ''f''), (10, CHR ''n''), (13, CHR ''r''), (9, CHR ''t''), (11, CHR ''v'')]"
  have "(ord c, l) \<in> set ?tab" using assms by (simp add: escape_letter_def split: if_splits)
  moreover have "list_all (\<lambda>(n::nat, l). unescape_char l = char_of n \<and> \<not> ISOCTAL l) ?tab" by code_simp
  ultimately have "case (ord c, l) of (n, l) \<Rightarrow> unescape_char l = char_of n \<and> \<not> ISOCTAL l"
    unfolding list_all_iff by blast
  then show "unescape_char l = c" "\<not> ISOCTAL l" by simp_all
qed

interpretation esc: byte_codec escape_loop
  "\<lambda>result ch. if ISASCII ch \<and> ISPRINT ch then
       obind (if ch = CHR 0x5C then VSTRING_ADDCH result ch else Ok result) (\<lambda>result. VSTRING_ADDCH result ch)
     else if ISASCII ch \<and> escape_letter ch \<noteq> None then vstring_strcat result [CHR 0x5C, the (escape_letter ch)]
     else vstring_sprintf_append [] result [CHR 0x5C, CHR ''%'', CHR ''0'', CHR ''3'', CHR ''o''] [VaInt (int (ord ch))]"
  unescape_dec escape_text "\<lambda>_. True"
proof
  fix vp bs c rest cs
  let ?s = "\<lambda>result. if ISASCII c \<and> ISPRINT c then
       obind (if c = CHR 0x5C then VSTRING_ADDCH result c else Ok result) (\<lambda>result. VSTRING_ADDCH result c)
     else if ISASCII c \<and> escape_letter c \<noteq> None then vstring_strcat result [CHR 0x5C, the (escape_letter c)]
     else vstring_sprintf_append [] result [CHR 0x5C, CHR ''%'', CHR ''0'', CHR ''3'', CHR ''o''] [VaInt (int (ord c))]"
  have asc: "escape_letter c \<noteq> None \<Longrightarrow> ISASCII c" by (auto simp: escape_letter_def ctype_defs split: if_splits)
  show "returns (?s vp) (\<lambda>vp. vs_holds vp (bs @ escape_text c))"
    if vp: "vs_holds vp bs" and rm: "room (length bs + length (escape_text c) + 63)"
  proof -
    consider "ISASCII c" "ISPRINT c" "c = CHR 0x5C" | "ISASCII c" "ISPRINT c" "c \<noteq> CHR 0x5C"
      | l where "\<not> (ISASCII c \<and> ISPRINT c)" "escape_letter c = Some l"
      | "\<not> (ISASCII c \<and> ISPRINT c)" "escape_letter c = None" by blast
    then show ?thesis
    proof cases
      case 1
      then show ?thesis using addchs_ok [OF vp, of "[c, c]"] room_mono [OF rm] by (simp add: escape_text_def)
    next
      case 2
      then show ?thesis using ADDCH_ok [OF vp, of c] room_mono [OF rm] by (simp add: escape_text_def)
    next
      case 3
      then show ?thesis
        using vstring_strcat_ok [OF vp, of "[CHR 0x5C, l]"] room_mono [OF rm] asc
        by (auto simp: escape_text_def elim!: returns_mono)
    next
      case 4
      then have t: "escape_text c = CHR 0x5C # octal_text c" by (auto simp: escape_text_def)
      have "returns (vstring_sprintf_append [] vp [CHR 0x5C, CHR ''%'', CHR ''0'', CHR ''3'', CHR ''o''] [VaInt (int (ord c))])
          (\<lambda>vp. vs_holds vp (bs @ CHR 0x5C # octal_text c))"
        by (rule sprintf_append_ok [OF vp]) (use t rm octal_text_printable vbuf_print_03o in auto)
      then show ?thesis using 4 t by auto
    qed
  qed
  show "unescape_dec vp (escape_text c @ rest) = obind (VSTRING_ADDCH vp c) (\<lambda>vp. unescape_dec vp rest)"
  proof (cases "ISASCII c \<and> ISPRINT c")
    case True
    have "\<not> ISOCTAL CHR 0x5C" "unescape_char CHR 0x5C = CHR 0x5C" by code_simp+
    with True show ?thesis by (auto simp: escape_text_def unescape_dec_def outcome_simps)
  next
    case False
    then show ?thesis
      using unescape_octal [of vp c rest] escape_letter_back [of c]
      by (cases "escape_letter c") (auto simp: escape_text_def unescape_dec_def outcome_simps)
  qed
qed (auto simp: escape_text_def unescape_dec_def)

section \<open>Properties\<close>

text \<open>
  C22: Hexadecimal encoding, percent quoting and backslash escaping can each be undone:
  the encoder returns a terminated string and the decoder, given that string, restores
  the input. \<open>escape\<close> and \<open>hex_encode\<close> do so for every block of bytes, \<open>hex_quote\<close>
  for every C string.
\<close>

theorem text_codecs_roundtrip:
  assumes "vs_holds enc bs" "vs_holds dec ds"
  shows "(room (length (concat (map hex_text cs)) + 64) \<longrightarrow>
      returns (hex_encode enc cs) (\<lambda>e. vs_terminated e \<and> decoded (hex_decode dec (vs_contents e)) cs)) \<and>
    (room (length (concat (map quote_text cs)) + 64) \<longrightarrow>
      returns (hex_quote enc cs) (\<lambda>e. vs_terminated e \<and> decoded (hex_unquote dec (vs_contents e)) cs)) \<and>
    (room (length (concat (map escape_text cs)) + 64) \<longrightarrow>
      returns (escape enc cs) (\<lambda>e. vs_terminated e \<and> stored (unescape dec (vs_contents e)) cs))"
proof (intro conjI impI)
  show "returns (hex_encode enc cs) (\<lambda>e. vs_terminated e \<and> decoded (hex_decode dec (vs_contents e)) cs)"
    if "room (length (concat (map hex_text cs)) + 64)"
    using hex.roundtrip [OF assms, of cs] that
    by (auto simp: hex_encode_def hex_decode_def hex.text_of_def list_all_iff elim!: returns_mono)
  show "returns (hex_quote enc cs) (\<lambda>e. vs_terminated e \<and> decoded (hex_unquote dec (vs_contents e)) cs)"
    if "room (length (concat (map quote_text cs)) + 64)"
    using hexquote.roundtrip [OF assms, of cs] that
    by (auto simp: hex_quote_def hex_unquote_def hexquote.text_of_def list_all_iff elim!: returns_mono)
  show "returns (escape enc cs) (\<lambda>e. vs_terminated e \<and> stored (unescape dec (vs_contents e)) cs)"
    if "room (length (concat (map escape_text cs)) + 64)"
  proof -
    have "decoded (finish_decode (unescape_dec v s)) cs \<Longrightarrow> stored (obind (unescape_loop v s) VSTRING_TERMINATE) cs" for v s
      by (auto simp: decoded_def stored_def finish_decode_def unescape_dec_def returns_def)
    then show ?thesis
      using esc.roundtrip [OF assms, of cs] that
      by (auto simp: escape_def unescape_def esc.text_of_def list_all_iff elim!: returns_mono)
  qed
qed

theorem text_codecs_roundtrip_witness:
  "returns (hex_encode empty_vstring ''a%'') (\<lambda>e. vs_terminated e \<and> decoded (hex_decode empty_vstring (vs_contents e)) ''a%'') \<and>
   returns (hex_quote empty_vstring ''a%'') (\<lambda>e. vs_terminated e \<and> decoded (hex_unquote empty_vstring (vs_contents e)) ''a%'') \<and>
   returns (escape empty_vstring ''a%'') (\<lambda>e. vs_terminated e \<and> stored (unescape empty_vstring (vs_contents e)) ''a%'')"
  using text_codecs_roundtrip [OF empty_vstring_holds empty_vstring_holds, of "''a%''"]
  by (simp add: room_def SSIZE_T_MAX_def hex_text_def quote_text_def escape_text_def octal_text_def ctype_defs)

end
