(* ===== verification/Ring.thy ===== *)
theory Ring
  imports Util_Prelude
begin

text \<open>
  The circular doubly linked lists of \<open>src/util/ring.c\<close>, on an explicit store: a store
  gives every node its two pointers, \<open>None\<close> being the null pointer. \<open>ring_holds h r as\<close>
  says that the nodes \<open>as\<close> hang behind the ring head \<open>r\<close>, in this order, linked both ways.
\<close>

record rings =
  rg_succ :: "nat \<Rightarrow> nat option"
  rg_pred :: "nat \<Rightarrow> nat option"

definition set_succ :: "rings \<Rightarrow> nat \<Rightarrow> nat option \<Rightarrow> rings" where
  "set_succ h a p = h\<lparr>rg_succ := (rg_succ h)(a := p)\<rparr>"

definition set_pred :: "rings \<Rightarrow> nat \<Rightarrow> nat option \<Rightarrow> rings" where
  "set_pred h a p = h\<lparr>rg_pred := (rg_pred h)(a := p)\<rparr>"

definition deref :: "nat option \<Rightarrow> nat outcome" where
  "deref p = (case p of None \<Rightarrow> Fault | Some a \<Rightarrow> Ok a)"

definition ring_init :: "rings \<Rightarrow> nat \<Rightarrow> rings" where
  "ring_init h ring = set_pred (set_succ h ring (Some ring)) ring (Some ring)"

definition ring_append :: "rings \<Rightarrow> nat \<Rightarrow> nat \<Rightarrow> rings outcome" where
  "ring_append h ring entry =
     (let h = set_succ h entry (rg_succ h ring);
          h = set_pred h entry (Some ring)
      in obind (deref (rg_succ h ring)) (\<lambda>s.
         let h = set_pred h s (Some entry) in Ok (set_succ h ring (Some entry))))"

definition ring_prepend :: "rings \<Rightarrow> nat \<Rightarrow> nat \<Rightarrow> rings outcome" where
  "ring_prepend h ring entry =
     (let h = set_pred h entry (rg_pred h ring);
          h = set_succ h entry (Some ring)
      in obind (deref (rg_pred h ring)) (\<lambda>p.
         let h = set_succ h p (Some entry) in Ok (set_pred h ring (Some entry))))"

definition ring_detach :: "rings \<Rightarrow> nat \<Rightarrow> rings outcome" where
  "ring_detach h entry =
     obind (deref (rg_pred h entry)) (\<lambda>p.
     let h1 = set_succ h p (rg_succ h entry) in
     obind (deref (rg_succ h entry)) (\<lambda>s.
     let h2 = set_pred h1 s (Some p) in
     Ok (set_pred (set_succ h2 entry None) entry None)))"

definition ring_succ :: "rings \<Rightarrow> nat \<Rightarrow> nat option" where
  "ring_succ h c = rg_succ h c"

definition ring_pred :: "rings \<Rightarrow> nat \<Rightarrow> nat option" where
  "ring_pred h c = rg_pred h c"

section \<open>Representation\<close>

fun linked :: "rings \<Rightarrow> nat list \<Rightarrow> bool" where
  "linked h (a # b # as) \<longleftrightarrow> rg_succ h a = Some b \<and> rg_pred h b = Some a \<and> linked h (b # as)"
| "linked h _ \<longleftrightarrow> True"

definition ring_holds :: "rings \<Rightarrow> nat \<Rightarrow> nat list \<Rightarrow> bool" where
  "ring_holds h r as \<longleftrightarrow> distinct (r # as) \<and> linked h (r # as @ [r])"

lemma linked_app: "linked h (xs @ a # ys) \<longleftrightarrow> linked h (xs @ [a]) \<and> linked h (a # ys)"
  by (induction xs rule: induct_list012) auto

text \<open>Only the successors of all but the last node and the predecessors of all but the first matter.\<close>

lemma linked_frame:
  assumes "\<And>a. a \<in> set (butlast as) \<Longrightarrow> rg_succ h' a = rg_succ h a"
    and "\<And>a. a \<in> set (tl as) \<Longrightarrow> rg_pred h' a = rg_pred h a"
  shows "linked h' as = linked h as"
  using assms
proof (induction as rule: induct_list012)
  case (3 a b as)
  have "linked h' (b # as) = linked h (b # as)" by (rule "3.IH"(2)) (use "3.prems" in auto)
  then show ?case using "3.prems" by auto
qed auto

lemma set_fields [simp]:
  "rg_succ (set_succ h a p) = (rg_succ h)(a := p)" "rg_pred (set_succ h a p) = rg_pred h"
  "rg_pred (set_pred h a p) = (rg_pred h)(a := p)" "rg_succ (set_pred h a p) = rg_succ h"
  by (simp_all add: set_succ_def set_pred_def)

lemma ring_init_ok: "ring_holds (ring_init h r) r []"
  by (simp add: ring_holds_def ring_init_def)

text \<open>A node put between two neighbours, and a node taken out between them.\<close>

lemma linked_insert:
  assumes "linked h (xs @ a # b # ys)" "distinct (xs @ [a])" "distinct (b # ys)" "e \<notin> set (xs @ a # b # ys)"
    and "rg_succ h' = (rg_succ h)(e := Some b, a := Some e)" "rg_pred h' = (rg_pred h)(e := Some a, b := Some e)"
    and "a \<notin> set (butlast (b # ys))" "b \<notin> set (tl (xs @ [a]))"
  shows "linked h' (xs @ a # e # b # ys)"
proof -
  have l: "linked h (xs @ [a])" "linked h (b # ys)" using assms(1) linked_app [of h xs a "b # ys"] by auto
  have "set (tl (xs @ [a])) \<subseteq> set (xs @ [a])" by (cases xs) auto
  then have e: "e \<notin> set (tl (xs @ [a]))" "e \<notin> set (butlast (b # ys))" "a \<noteq> e" "b \<noteq> e"
    using assms(4) in_set_butlastD [of e "b # ys"] by auto
  have "linked h' (xs @ [a]) = linked h (xs @ [a])"
    by (rule linked_frame) (use assms(2,4-8) e(1) in \<open>auto simp del: butlast.simps\<close>)
  moreover have "linked h' (b # ys) = linked h (b # ys)"
    by (rule linked_frame) (use assms(3-8) e(2) in \<open>auto simp del: butlast.simps\<close>)
  ultimately show ?thesis using l e(3,4) assms(5,6) linked_app [of h' xs a "e # b # ys"] by simp
qed

lemma linked_remove:
  assumes "linked h (xs @ a # e # b # ys)" "distinct (xs @ [a])" "distinct (b # ys)" "e \<notin> set (xs @ a # b # ys)"
    and "rg_succ h' = (rg_succ h)(a := Some b, e := None)" "rg_pred h' = (rg_pred h)(b := Some a, e := None)"
    and "a \<notin> set (butlast (b # ys))" "b \<notin> set (tl (xs @ [a]))"
  shows "linked h' (xs @ a # b # ys)"
proof -
  have l: "linked h (xs @ [a])" "linked h (b # ys)" using assms(1) linked_app [of h xs a "e # b # ys"] by auto
  have "set (tl (xs @ [a])) \<subseteq> set (xs @ [a])" by (cases xs) auto
  then have e: "e \<notin> set (tl (xs @ [a]))" "e \<notin> set (butlast (b # ys))" "a \<noteq> e" "b \<noteq> e"
    using assms(4) in_set_butlastD [of e "b # ys"] by auto
  have "linked h' (xs @ [a]) = linked h (xs @ [a])"
    by (rule linked_frame) (use assms(2,4-8) e(1) in \<open>auto simp del: butlast.simps\<close>)
  moreover have "linked h' (b # ys) = linked h (b # ys)"
    by (rule linked_frame) (use assms(3-8) e(2) in \<open>auto simp del: butlast.simps\<close>)
  ultimately show ?thesis using l e(3,4) assms(5,6) linked_app [of h' xs a "b # ys"] by simp
qed

lemma ring_insert_between:
  assumes ring: "ring_holds h r (as @ bs)" and e: "e \<notin> set (r # as @ bs)"
    and ab: "r # as = xs @ [a]" "bs @ [r] = b # ys"
    and upd: "rg_succ h' = (rg_succ h)(e := Some b, a := Some e)" "rg_pred h' = (rg_pred h)(e := Some a, b := Some e)"
  shows "ring_holds h' r (as @ e # bs)" "rg_succ h a = Some b" "rg_pred h b = Some a"
proof -
  have dist: "distinct (r # as @ bs)" using ring by (simp add: ring_holds_def)
  have l: "linked h (xs @ a # b # ys)" using ring ab by (metis append_Cons append_assoc append_Nil ring_holds_def)
  then show "rg_succ h a = Some b" "rg_pred h b = Some a" using linked_app [of h xs a "b # ys"] by auto
  have sets: "set (xs @ [a]) = set (r # as)" "set (b # ys) = set (bs @ [r])" "set (tl (xs @ [a])) = set as"
    "set (butlast (b # ys)) = set bs" unfolding ab [symmetric] by simp_all
  have "linked h' (xs @ a # e # b # ys)"
  proof (rule linked_insert [OF l])
    show "distinct (xs @ [a])" unfolding ab [symmetric] using dist by simp
    show "distinct (b # ys)" unfolding ab [symmetric] using dist by simp
    have "set (xs @ a # b # ys) = set (xs @ [a]) \<union> set (b # ys)" by auto
    then show "e \<notin> set (xs @ a # b # ys)" unfolding sets using e by auto
    have "a \<in> set (r # as)" "b \<in> set (bs @ [r])" using sets(1,2) by auto
    then show "a \<notin> set (butlast (b # ys))" "b \<notin> set (tl (xs @ [a]))" unfolding sets using dist by auto
  qed (fact upd)+
  then have "linked h' (r # (as @ e # bs) @ [r])" using ab by (metis append_Cons append_assoc append_Nil)
  then show "ring_holds h' r (as @ e # bs)" using dist e by (auto simp: ring_holds_def)
qed

lemma ring_append_ok:
  assumes "ring_holds h r as" "e \<notin> set (r # as)"
  shows "\<exists>h'. ring_append h r e = Ok h' \<and> ring_holds h' r (e # as)"
proof -
  obtain b ys where b: "as @ [r] = b # ys" by (cases as) auto
  define h' where "h' = set_succ (set_pred (set_pred (set_succ h e (Some b)) e (Some r)) b (Some e)) r (Some e)"
  note ins = ring_insert_between [of h r "[]" as e "[]" r b ys h']
  have "ring_holds h' r ([] @ e # as)" "rg_succ h r = Some b" using ins assms b by (auto simp: h'_def)
  moreover from this(2) assms(2) have "ring_append h r e = Ok h'" by (simp add: ring_append_def deref_def h'_def Let_def)
  ultimately show ?thesis by auto
qed

text \<open>Prepending to a node of the ring puts the new node in front of it, prepending to the head puts it last.\<close>

lemma ring_prepend_before:
  assumes "ring_holds h r (as @ bs)" "e \<notin> set (r # as @ bs)"
  shows "\<exists>h'. ring_prepend h (hd (bs @ [r])) e = Ok h' \<and> ring_holds h' r (as @ e # bs)"
proof -
  obtain xs a where a: "r # as = xs @ [a]" by (metis append_butlast_last_id list.distinct(1))
  obtain b ys where b: "bs @ [r] = b # ys" by (cases bs) auto
  have be: "b \<noteq> e" using b assms(2) by (cases bs) auto
  define h' where "h' = set_pred (set_succ (set_succ (set_pred h e (Some a)) e (Some b)) a (Some e)) b (Some e)"
  note ins = ring_insert_between [of h r as bs e xs a b ys h']
  have "ring_holds h' r (as @ e # bs)" "rg_pred h b = Some a" using ins assms a b by (auto simp: h'_def)
  moreover from this(2) be have "ring_prepend h b e = Ok h'" by (simp add: ring_prepend_def deref_def h'_def Let_def)
  ultimately show ?thesis using b by auto
qed

lemma ring_prepend_ok:
  assumes "ring_holds h r as" "e \<notin> set (r # as)"
  shows "\<exists>h'. ring_prepend h r e = Ok h' \<and> ring_holds h' r (as @ [e])"
  using ring_prepend_before [of h r as "[]" e] assms by simp

lemma ring_detach_ok:
  assumes "ring_holds h r (as @ e # bs)"
  shows "\<exists>h'. ring_detach h e = Ok h' \<and> ring_holds h' r (as @ bs)"
proof -
  obtain xs a where a: "r # as = xs @ [a]" by (metis append_butlast_last_id list.distinct(1))
  obtain b ys where b: "bs @ [r] = b # ys" by (cases bs) auto
  have dist: "distinct (r # as @ e # bs)" using assms by (simp add: ring_holds_def)
  have whole: "r # (as @ e # bs) @ [r] = xs @ a # e # b # ys" using a b by (metis append_Cons append_assoc append_Nil)
  then have l: "linked h (xs @ a # e # b # ys)" using assms by (simp add: ring_holds_def)
  then have p: "rg_pred h e = Some a" "rg_succ h e = Some b"
    using linked_app [of h xs a "e # b # ys"] by auto
  define h' where "h' = set_pred (set_succ (set_pred (set_succ h a (Some b)) b (Some a)) e None) e None"
  have det: "ring_detach h e = Ok h'" using p by (simp add: ring_detach_def deref_def h'_def Let_def)
  have sets: "set (xs @ [a]) = set (r # as)" "set (b # ys) = set (bs @ [r])" "set (tl (xs @ [a])) = set as"
    "set (butlast (b # ys)) = set bs" unfolding a [symmetric] b [symmetric] by simp_all
  have "linked h' (xs @ a # b # ys)"
  proof (rule linked_remove [OF l])
    show "distinct (xs @ [a])" unfolding a [symmetric] using dist by simp
    show "distinct (b # ys)" unfolding b [symmetric] using dist by simp
    have "set (xs @ a # b # ys) = set (xs @ [a]) \<union> set (b # ys)" by auto
    then show "e \<notin> set (xs @ a # b # ys)" unfolding sets using dist by auto
    have "a \<in> set (r # as)" "b \<in> set (bs @ [r])" using sets(1,2) by auto
    then show "a \<notin> set (butlast (b # ys))" "b \<notin> set (tl (xs @ [a]))" unfolding sets using dist by auto
  qed (simp_all add: h'_def)
  then have "linked h' (r # (as @ bs) @ [r])" using a b by (metis append_Cons append_assoc append_Nil)
  then show ?thesis using det dist by (auto simp: ring_holds_def)
qed

lemma ring_first: "ring_holds h r as \<Longrightarrow> ring_succ h r = Some (hd (as @ [r]))"
  by (cases as) (auto simp: ring_holds_def ring_succ_def)

lemma ring_last:
  assumes "ring_holds h r as"
  shows "ring_pred h r = Some (last (r # as))"
proof -
  obtain xs a where a: "r # as = xs @ [a]" by (metis append_butlast_last_id list.distinct(1))
  then have "linked h (xs @ a # [r])" using assms by (metis append_Cons append_assoc append_Nil ring_holds_def)
  then have "rg_pred h r = Some a" using linked_app [of h xs a "[r]"] by simp
  then show ?thesis by (simp add: ring_pred_def a)
qed

section \<open>Properties\<close>

text \<open>
  The ring operations are list operations. Initialisation gives an empty ring; appending
  and prepending a node that is not in the ring put it first and last; detaching any node of the
  ring removes it and leaves the others in order. All of them leave the nodes linked both ways.
\<close>

lemma ring_operations:
  "ring_holds (ring_init h r) r [] \<and>
   (ring_holds h r as \<and> e \<notin> set (r # as) \<longrightarrow>
      returns (ring_append h r e) (\<lambda>h'. ring_holds h' r (e # as)) \<and>
      returns (ring_prepend h r e) (\<lambda>h'. ring_holds h' r (as @ [e]))) \<and>
   (ring_holds h r (bs @ e # cs) \<longrightarrow> returns (ring_detach h e) (\<lambda>h'. ring_holds h' r (bs @ cs)))"
  using ring_init_ok ring_append_ok ring_prepend_ok ring_detach_ok by (auto simp: returns_def)

end
