(* ===== verification/Hash_table.thy ===== *)
theory Hash_table
  imports Util_Prelude "HOL-Library.Multiset"
begin

text \<open>
  Chained hash tables that grow, the common algorithm of \<open>src/util/htable.c\<close> (string
  keys) and \<open>src/util/binhash.c\<close> (binary keys), which differ in the key type and the hash
  function.

  Table entries live in an explicit store, because the code links them both ways
  (\<open>next\<close>, \<open>prev\<close>) and hands out their addresses. The loops follow the pointers and
  are partial functions: \<open>None\<close> is a chain that never ends. A null value of an entry
  is \<open>None\<close>.

  The locale \<open>chained\<close> holds the proofs for any hash function that stays inside the
  table: \<open>represents\<close> relates a table to the finite map it implements.
\<close>

section \<open>Structures\<close>

record ('k, 'v) hnode =
  hn_key :: 'k
  hn_value :: "'v option"
  hn_next :: "nat option"
  hn_prev :: "nat option"

record ('k, 'v) htab =
  ht_heap :: "nat \<Rightarrow> ('k, 'v) hnode option"
  ht_brk :: nat
  ht_size :: nat
  ht_used :: nat
  ht_data :: "nat option list"

text \<open>\<open>ht_brk\<close> is the first address that the allocator has not handed out.\<close>

definition node_at :: "(nat \<Rightarrow> ('k, 'v) hnode option) \<Rightarrow> nat \<Rightarrow> ('k, 'v) hnode outcome" where
  "node_at h a = (case h a of None \<Rightarrow> Fault | Some n \<Rightarrow> Ok n)"

section \<open>Operations\<close>

definition set_prev :: "(nat \<Rightarrow> ('k, 'v) hnode option) \<Rightarrow> nat option \<Rightarrow> nat option \<Rightarrow> (nat \<Rightarrow> ('k, 'v) hnode option) outcome" where
  "set_prev h p q = (case p of None \<Rightarrow> Ok h
     | Some b \<Rightarrow> obind (node_at h b) (\<lambda>n. Ok (h(b \<mapsto> n\<lparr>hn_prev := q\<rparr>))))"

definition set_next :: "(nat \<Rightarrow> ('k, 'v) hnode option) \<Rightarrow> nat \<Rightarrow> nat option \<Rightarrow> (nat \<Rightarrow> ('k, 'v) hnode option) outcome" where
  "set_next h b q = obind (node_at h b) (\<lambda>n. Ok (h(b \<mapsto> n\<lparr>hn_next := q\<rparr>)))"

definition bucket :: "('k, 'v, 'z) htab_scheme \<Rightarrow> nat \<Rightarrow> nat option outcome" where
  "bucket t i = (if i < length (ht_data t) then Ok (ht_data t ! i) else Fault)"

definition tbl_link :: "('k \<Rightarrow> nat \<Rightarrow> nat) \<Rightarrow> ('k, 'v, 'z) htab_scheme \<Rightarrow> nat \<Rightarrow> ('k, 'v, 'z) htab_scheme outcome" where
  "tbl_link hash t a =
     obind (node_at (ht_heap t) a) (\<lambda>e.
     let i = hash (hn_key e) (ht_size t) in
     obind (bucket t i) (\<lambda>first.
     obind (set_prev ((ht_heap t)(a \<mapsto> e\<lparr>hn_next := first, hn_prev := None\<rparr>)) first (Some a)) (\<lambda>heap.
     Ok (t\<lparr>ht_heap := heap, ht_data := (ht_data t)[i := Some a], ht_used := ht_used t + 1\<rparr>))))"

definition tbl_size :: "('k, 'v, 'z) htab_scheme \<Rightarrow> nat \<Rightarrow> ('k, 'v, 'z) htab_scheme" where
  "tbl_size t sz = t\<lparr>ht_data := replicate (sz OR 1) None, ht_size := sz OR 1, ht_used := 0\<rparr>"

text \<open>The inner loop of growing: link every element of an old chain into the new table.\<close>

partial_function (option) relink_chain ::
  "('k \<Rightarrow> nat \<Rightarrow> nat) \<Rightarrow> ('k, 'v, 'z) htab_scheme \<Rightarrow> nat option \<Rightarrow> ('k, 'v, 'z) htab_scheme outcome option" where
  "relink_chain hash t p =
     (case p of
        None \<Rightarrow> Some (Ok t)
      | Some a \<Rightarrow>
          (case ht_heap t a of
             None \<Rightarrow> Some Fault
           | Some n \<Rightarrow>
               (case tbl_link hash t a of
                  Ok t \<Rightarrow> relink_chain hash t (hn_next n)
                | r \<Rightarrow> Some r)))"

fun relink_all :: "('k \<Rightarrow> nat \<Rightarrow> nat) \<Rightarrow> ('k, 'v, 'z) htab_scheme \<Rightarrow> nat option list \<Rightarrow> ('k, 'v, 'z) htab_scheme outcome" where
  "relink_all hash t [] = Ok t"
| "relink_all hash t (p # ps) = obind (run (relink_chain hash t p)) (\<lambda>t. relink_all hash t ps)"

definition tbl_grow :: "('k \<Rightarrow> nat \<Rightarrow> nat) \<Rightarrow> ('k, 'v, 'z) htab_scheme \<Rightarrow> ('k, 'v, 'z) htab_scheme outcome" where
  "tbl_grow hash t = relink_all hash (tbl_size t (2 * ht_size t)) (ht_data t)"

text \<open>Entering a pair returns the address of the new entry.\<close>

definition tbl_enter ::
  "('k \<Rightarrow> nat \<Rightarrow> nat) \<Rightarrow> ('k, 'v, 'z) htab_scheme \<Rightarrow> 'k \<Rightarrow> 'v option \<Rightarrow> (('k, 'v, 'z) htab_scheme \<times> nat) outcome" where
  "tbl_enter hash t key value =
     obind (if ht_used t \<ge> ht_size t then tbl_grow hash t else Ok t) (\<lambda>t.
     let a = ht_brk t;
         t = t\<lparr>ht_heap := (ht_heap t)(a \<mapsto> \<lparr>hn_key = key, hn_value = value, hn_next = None, hn_prev = None\<rparr>),
               ht_brk := a + 1\<rparr>
     in obind (tbl_link hash t a) (\<lambda>t. Ok (t, a)))"

partial_function (option) chain_search ::
  "(nat \<Rightarrow> ('k, 'v) hnode option) \<Rightarrow> 'k \<Rightarrow> nat option \<Rightarrow> nat option outcome option" where
  "chain_search h key p =
     (case p of
        None \<Rightarrow> Some (Ok None)
      | Some a \<Rightarrow>
          (case h a of
             None \<Rightarrow> Some Fault
           | Some n \<Rightarrow> if hn_key n = key then Some (Ok (Some a)) else chain_search h key (hn_next n)))"

definition tbl_locate :: "('k \<Rightarrow> nat \<Rightarrow> nat) \<Rightarrow> ('k, 'v, 'z) htab_scheme \<Rightarrow> 'k \<Rightarrow> nat option outcome" where
  "tbl_locate hash t key =
     obind (bucket t (hash key (ht_size t))) (\<lambda>p. run (chain_search (ht_heap t) key p))"

definition tbl_find :: "('k \<Rightarrow> nat \<Rightarrow> nat) \<Rightarrow> ('k, 'v, 'z) htab_scheme \<Rightarrow> 'k \<Rightarrow> 'v option outcome" where
  "tbl_find hash t key =
     obind (tbl_locate hash t key) (\<lambda>p.
     case p of None \<Rightarrow> Ok None | Some a \<Rightarrow> obind (node_at (ht_heap t) a) (\<lambda>n. Ok (hn_value n)))"

text \<open>
  Taking an entry out of its chain, and deletion; the result of \<open>tbl_delete\<close> has the value
  of the entry too, for the callback. A missing key is the panic \<open>msg\<close>.
\<close>

definition tbl_unlink :: "('k, 'v, 'z) htab_scheme \<Rightarrow> nat \<Rightarrow> nat \<Rightarrow> ('k, 'v, 'z) htab_scheme outcome" where
  "tbl_unlink t i a =
     obind (node_at (ht_heap t) a) (\<lambda>n.
     obind (set_prev (ht_heap t) (hn_next n) (hn_prev n)) (\<lambda>heap.
     case hn_prev n of
       Some c \<Rightarrow> obind (set_next heap c (hn_next n)) (\<lambda>heap. Ok (t\<lparr>ht_heap := heap\<rparr>))
     | None \<Rightarrow> Ok (t\<lparr>ht_heap := heap, ht_data := (ht_data t)[i := hn_next n]\<rparr>)))"

definition tbl_delete ::
  "string \<Rightarrow> ('k \<Rightarrow> nat \<Rightarrow> nat) \<Rightarrow> ('k, 'v, 'z) htab_scheme \<Rightarrow> 'k \<Rightarrow> (('k, 'v, 'z) htab_scheme \<times> 'v option) outcome" where
  "tbl_delete msg hash t key =
     obind (tbl_locate hash t key) (\<lambda>p.
     case p of
       None \<Rightarrow> Panic msg
     | Some a \<Rightarrow>
         obind (node_at (ht_heap t) a) (\<lambda>n.
         obind (tbl_unlink t (hash key (ht_size t)) a) (\<lambda>t.
         Ok (t\<lparr>ht_used := ht_used t - 1, ht_heap := (ht_heap t)(a := None)\<rparr>, hn_value n))))"

partial_function (option) chain_list ::
  "(nat \<Rightarrow> ('k, 'v) hnode option) \<Rightarrow> nat option \<Rightarrow> nat list outcome option" where
  "chain_list h p =
     (case p of
        None \<Rightarrow> Some (Ok [])
      | Some a \<Rightarrow>
          (case h a of
             None \<Rightarrow> Some Fault
           | Some n \<Rightarrow> Option.bind (chain_list h (hn_next n)) (\<lambda>r. Some (obind r (\<lambda>as. Ok (a # as))))))"

fun bucket_lists :: "(nat \<Rightarrow> ('k, 'v) hnode option) \<Rightarrow> nat option list \<Rightarrow> nat list outcome" where
  "bucket_lists h [] = Ok []"
| "bucket_lists h (p # ps) =
     obind (run (chain_list h p)) (\<lambda>as. obind (bucket_lists h ps) (\<lambda>bs. Ok (as @ bs)))"

text \<open>All members in bucket order. The array of the result has \<open>used + 1\<close> slots.\<close>

definition tbl_list :: "('k, 'v, 'z) htab_scheme \<Rightarrow> nat list outcome" where
  "tbl_list t =
     obind (bucket_lists (ht_heap t) (ht_data t)) (\<lambda>as. if length as \<le> ht_used t then Ok as else Fault)"

section \<open>Chains\<close>

text \<open>The doubly linked chain from \<open>p\<close>, whose first element points back to \<open>q\<close>.\<close>

fun dchain :: "(nat \<Rightarrow> ('k, 'v) hnode option) \<Rightarrow> nat option \<Rightarrow> nat option \<Rightarrow> nat list \<Rightarrow> bool" where
  "dchain h q p [] \<longleftrightarrow> p = None"
| "dchain h q p (a # as) \<longleftrightarrow>
     p = Some a \<and> (\<exists>n. h a = Some n \<and> hn_prev n = q \<and> dchain h (Some a) (hn_next n) as)"

text \<open>The same without the backward links.\<close>

fun nchain :: "(nat \<Rightarrow> ('k, 'v) hnode option) \<Rightarrow> nat option \<Rightarrow> nat list \<Rightarrow> bool" where
  "nchain h p [] \<longleftrightarrow> p = None"
| "nchain h p (a # as) \<longleftrightarrow> p = Some a \<and> (\<exists>n. h a = Some n \<and> nchain h (hn_next n) as)"

lemma dchain_nchain: "dchain h q p as \<Longrightarrow> nchain h p as"
  by (induction as arbitrary: q p) auto

lemma dchain_frame: "(\<And>a. a \<in> set as \<Longrightarrow> h' a = h a) \<Longrightarrow> dchain h' q p as = dchain h q p as"
  by (induction as arbitrary: q p) auto

lemma nchain_frame: "(\<And>a. a \<in> set as \<Longrightarrow> h' a = h a) \<Longrightarrow> nchain h' p as = nchain h p as"
  by (induction as arbitrary: p) auto

lemma dchain_head_prev:
  assumes "dchain h q p (b # bs)" "distinct (b # bs)" "h b = Some n"
  shows "dchain (h(b \<mapsto> n\<lparr>hn_prev := q'\<rparr>)) q' p (b # bs)"
proof -
  have "dchain (h(b \<mapsto> n\<lparr>hn_prev := q'\<rparr>)) (Some b) (hn_next n) bs = dchain h (Some b) (hn_next n) bs"
    by (rule dchain_frame) (use assms(2) in auto)
  then show ?thesis using assms by simp
qed

lemma chain_search_ok:
  "nchain h p as \<Longrightarrow> run (chain_search h key p) = Ok (find (\<lambda>a. map_option hn_key (h a) = Some key) as)"
  by (induction as arbitrary: p) (subst chain_search.simps, auto simp: run_def)+

lemma chain_list_ok: "nchain h p as \<Longrightarrow> chain_list h p = Some (Ok as)"
  by (induction as arbitrary: p) (subst chain_list.simps, auto)+

lemma bucket_lists_ok: "list_all2 (nchain h) ps ass \<Longrightarrow> bucket_lists h ps = Ok (concat ass)"
  by (induction ps ass rule: list_all2_induct) (auto simp: chain_list_ok run_def)

text \<open>Segments: a piece of a chain, up to the pointer \<open>r\<close> behind its last element.\<close>

fun dseg :: "(nat \<Rightarrow> ('k, 'v) hnode option) \<Rightarrow> nat option \<Rightarrow> nat option \<Rightarrow> nat list \<Rightarrow> nat option \<Rightarrow> bool" where
  "dseg h q p [] r \<longleftrightarrow> p = r"
| "dseg h q p (a # as) r \<longleftrightarrow>
     p = Some a \<and> (\<exists>n. h a = Some n \<and> hn_prev n = q \<and> dseg h (Some a) (hn_next n) as r)"

definition last_of :: "nat option \<Rightarrow> nat list \<Rightarrow> nat option" where
  "last_of q as = (if as = [] then q else Some (last as))"

lemma dchain_append: "dchain h q p (xs @ ys) \<longleftrightarrow> (\<exists>r. dseg h q p xs r \<and> dchain h (last_of q xs) r ys)"
  by (induction xs arbitrary: q p) (auto simp: last_of_def)

lemma dseg_append: "dseg h q p (xs @ ys) r \<longleftrightarrow> (\<exists>s. dseg h q p xs s \<and> dseg h (last_of q xs) s ys r)"
  by (induction xs arbitrary: q p) (auto simp: last_of_def)

lemma dseg_frame: "(\<And>a. a \<in> set as \<Longrightarrow> h' a = h a) \<Longrightarrow> dseg h' q p as r = dseg h q p as r"
  by (induction as arbitrary: q p) auto

lemma dseg_last_next:
  assumes "dseg h q p (xs @ [c]) r" "c \<notin> set xs" "h c = Some n"
  shows "dseg (h(c \<mapsto> n\<lparr>hn_next := r'\<rparr>)) q p (xs @ [c]) r'"
proof -
  have "dseg (h(c \<mapsto> n\<lparr>hn_next := r'\<rparr>)) q p xs s = dseg h q p xs s" for s
    by (rule dseg_frame) (use assms(2) in auto)
  then show ?thesis using assms by (auto simp: dseg_append)
qed

text \<open>Taking one element out of a chain.\<close>

lemma unlink_chain:
  assumes chain: "dchain h None p (xs @ a # ys)" and dist: "distinct (xs @ a # ys)" and n: "h a = Some n"
  shows "\<exists>h1 h2. set_prev h (hn_next n) (hn_prev n) = Ok h1 \<and>
    (case hn_prev n of None \<Rightarrow> xs = [] \<and> h2 = h1 | Some c \<Rightarrow> xs \<noteq> [] \<and> set_next h1 c (hn_next n) = Ok h2) \<and>
    dchain h2 None (if xs = [] then hn_next n else p) (xs @ ys) \<and>
    (\<forall>b. b \<notin> set (xs @ ys) \<longrightarrow> h2 b = h b) \<and>
    (\<forall>b. map_option (\<lambda>n. (hn_key n, hn_value n)) (h2 b) = map_option (\<lambda>n. (hn_key n, hn_value n)) (h b))"
proof -
  from chain n have seg: "dseg h None p xs (Some a)" and prev: "hn_prev n = last_of None xs"
    and tail: "dchain h (Some a) (hn_next n) ys" by (auto simp: dchain_append)
  obtain h1 where h1: "set_prev h (hn_next n) (hn_prev n) = Ok h1" "dchain h1 (hn_prev n) (hn_next n) ys"
    "\<And>b. b \<notin> set ys \<Longrightarrow> h1 b = h b"
    "\<And>b. map_option (\<lambda>n. (hn_key n, hn_value n)) (h1 b) = map_option (\<lambda>n. (hn_key n, hn_value n)) (h b)"
  proof (cases ys)
    case Nil
    then show ?thesis using that [of h] tail by (simp add: set_prev_def)
  next
    case (Cons b bs)
    then obtain m where m: "hn_next n = Some b" "h b = Some m" using tail by auto
    have "dchain (h(b \<mapsto> m\<lparr>hn_prev := hn_prev n\<rparr>)) (hn_prev n) (hn_next n) ys"
      using dchain_head_prev [of h "Some a" "hn_next n" b bs m] tail Cons m dist by simp
    then show ?thesis using that [of "h(b \<mapsto> m\<lparr>hn_prev := hn_prev n\<rparr>)"] m Cons by (simp add: set_prev_def node_at_def)
  qed
  have "dseg h1 None p xs (Some a) = dseg h None p xs (Some a)"
    by (rule dseg_frame) (use h1(3) dist in \<open>auto simp: disjoint_iff\<close>)
  then have seg1: "dseg h1 None p xs (Some a)" using seg by simp
  show ?thesis
  proof (cases xs rule: rev_cases)
    case Nil
    then show ?thesis using h1 prev by (intro exI [of _ h1]) (simp add: last_of_def)
  next
    case (snoc xs' c)
    then obtain m where m: "h1 c = Some m" using seg1 by (auto simp: dseg_append)
    let ?h2 = "h1(c \<mapsto> m\<lparr>hn_next := hn_next n\<rparr>)"
    have c: "c \<notin> set xs'" "c \<notin> set ys" using dist snoc by auto
    have "dseg ?h2 None p xs (hn_next n)" using dseg_last_next [of h1 None p xs' c "Some a" m] c(1) m seg1 snoc by blast
    moreover have "dchain ?h2 (hn_prev n) (hn_next n) ys = dchain h1 (hn_prev n) (hn_next n) ys"
      by (rule dchain_frame) (use c in auto)
    ultimately have "dchain ?h2 None p (xs @ ys)" using h1(2) prev by (auto simp: dchain_append)
    then show ?thesis
      using h1 h1(4) [of c, symmetric] prev snoc m
      by - (rule exI [of _ h1], rule exI [of _ ?h2], auto simp: last_of_def set_next_def node_at_def)
  qed
qed

section \<open>Buckets\<close>

lemma dchain_allocated: "dchain h q p as \<Longrightarrow> a \<in> set as \<Longrightarrow> \<exists>n. h a = Some n"
  by (induction as arbitrary: q p) auto

lemma concat_update:
  "i < length xss \<Longrightarrow> mset (concat (xss[i := as])) + mset (xss ! i) = mset (concat xss) + mset as"
proof (induction xss arbitrary: i)
  case (Cons xs xss)
  then show ?case by (cases i) (auto simp: ac_simps dest!: Cons.IH)
qed simp

lemma concat_push: "i < length xss \<Longrightarrow> mset (concat (xss[i := a # xss ! i])) = add_mset a (mset (concat xss))"
  using concat_update [of i xss "a # xss ! i"] by simp

lemma nth_in_concat: "i < length xss \<Longrightarrow> a \<in> set (xss ! i) \<Longrightarrow> a \<in> set (concat xss)"
  by (auto intro: nth_mem)

lemma nth_disjoint:
  "distinct (concat xss) \<Longrightarrow> i < length xss \<Longrightarrow> j < length xss \<Longrightarrow> i \<noteq> j \<Longrightarrow> set (xss ! i) \<inter> set (xss ! j) = {}"
proof (induction xss arbitrary: i j)
  case (Cons xs xss)
  have sep: "set xs \<inter> set (xss ! k) = {}" if "k < length xss" for k
    using Cons.prems(1) nth_in_concat [OF that] by (simp only: concat.simps distinct_append) blast
  show ?case
  proof (cases i)
    case 0
    then show ?thesis using Cons.prems sep by (cases j) auto
  next
    case (Suc i')
    then show ?thesis using Cons.prems sep Cons.IH by (cases j) (simp_all add: Int_commute)
  qed
qed simp

definition keyval :: "(nat \<Rightarrow> ('k, 'v) hnode option) \<Rightarrow> nat \<Rightarrow> ('k \<times> 'v option) option" where
  "keyval h a = map_option (\<lambda>n. (hn_key n, hn_value n)) (h a)"

text \<open>
  The invariant with the chains as witness: every bucket is the doubly linked chain
  \<open>css ! i\<close> of entries with that hash, no entry is in two places, and \<open>used\<close> counts them.
\<close>

definition tbl_inv :: "('k \<Rightarrow> nat \<Rightarrow> nat) \<Rightarrow> ('k, 'v, 'z) htab_scheme \<Rightarrow> nat list list \<Rightarrow> bool" where
  "tbl_inv hash t css \<longleftrightarrow>
     length (ht_data t) = ht_size t \<and> 0 < ht_size t \<and> length css = ht_size t \<and>
     (\<forall>i < ht_size t. dchain (ht_heap t) None (ht_data t ! i) (css ! i)) \<and>
     (\<forall>i < ht_size t. \<forall>a \<in> set (css ! i). \<forall>kv. keyval (ht_heap t) a = Some kv \<longrightarrow> hash (fst kv) (ht_size t) = i) \<and>
     distinct (concat css) \<and> ht_used t = length (concat css) \<and> (\<forall>a \<ge> ht_brk t. ht_heap t a = None)"

lemma tbl_inv_allocated: "tbl_inv hash t css \<Longrightarrow> a \<in> set (concat css) \<Longrightarrow> \<exists>n. ht_heap t a = Some n"
  by (fastforce simp: tbl_inv_def in_set_conv_nth dest!: dchain_allocated)

lemma tbl_inv_nchain: "tbl_inv hash t css \<Longrightarrow> list_all2 (nchain (ht_heap t)) (ht_data t) css"
  by (auto simp: tbl_inv_def list_all2_conv_all_nth intro: dchain_nchain)

text \<open>
  \<open>represents\<close>: the table implements the finite map \<open>m\<close> from keys to stored values.
  Keys are unique, every allocated entry is in the table, and the load factor is at most one.
\<close>

text \<open>The entries at the addresses \<open>A\<close> are exactly those of a map, every key once.\<close>

definition entries :: "(nat \<Rightarrow> ('k \<times> 'v) option) \<Rightarrow> nat set \<Rightarrow> ('k \<Rightarrow> 'v option) \<Rightarrow> bool" where
  "entries kv A m \<longleftrightarrow> (\<forall>a. kv a \<noteq> None \<longrightarrow> a \<in> A) \<and>
     (\<forall>a \<in> A. \<forall>b \<in> A. \<forall>k v w. kv a = Some (k, v) \<longrightarrow> kv b = Some (k, w) \<longrightarrow> a = b) \<and>
     (\<forall>k v. m k = Some v \<longleftrightarrow> (\<exists>a \<in> A. kv a = Some (k, v)))"

lemma entries_iff: "entries kv A m \<Longrightarrow> m k = Some v \<longleftrightarrow> (\<exists>a \<in> A. kv a = Some (k, v))"
  by (simp add: entries_def)

lemma entries_unique: "entries kv A m \<Longrightarrow> kv a = Some (k, v) \<Longrightarrow> kv b = Some (k, w) \<Longrightarrow> a = b"
  unfolding entries_def by (metis option.distinct(1))

lemma bex_insert_upd:
  "l \<noteq> k \<Longrightarrow> a \<notin> S \<Longrightarrow> (\<exists>b \<in> insert a S. (f(a \<mapsto> (k, v))) b = Some (l, x)) = (\<exists>b \<in> S. f b = Some (l, x))"
  by auto

lemma entries_insert:
  assumes "entries kv A m" "m k = None" "a \<notin> A"
  shows "entries (kv(a \<mapsto> (k, v))) (insert a A) (m(k \<mapsto> v))"
proof -
  have no_k: "kv b \<noteq> Some (k, w)" for b w using assms(1,2) unfolding entries_def by (metis option.distinct(1))
  have "(m(k \<mapsto> v)) l = Some x \<longleftrightarrow> (\<exists>b \<in> insert a A. (kv(a \<mapsto> (k, v))) b = Some (l, x))" for l x
  proof (cases "l = k")
    case True
    then show ?thesis using no_k by auto
  next
    case False
    then show ?thesis using entries_iff [OF assms(1), of l x] bex_insert_upd [OF False assms(3), of kv v x] by (simp del: fun_upd_apply add: fun_upd_other)
  qed
  then show ?thesis using assms(1) no_k unfolding entries_def by (auto split: if_splits)
qed

lemma entries_delete:
  assumes "entries kv (insert a A) m" "a \<notin> A" "kv a = Some (k, v)"
  shows "entries (kv(a := None)) A (m(k := None))"
  unfolding entries_def
proof (intro conjI allI ballI impI)
  show "b \<in> A" if "(kv(a := None)) b \<noteq> None" for b
    using that assms(1) by (cases "b = a") (auto simp: entries_def)
  show "b = c" if "(kv(a := None)) b = Some (l, x)" "(kv(a := None)) c = Some (l, y)" for b c l x y
    using that entries_unique [OF assms(1)] by (auto split: if_splits)
  show "(m(k := None)) l = Some x \<longleftrightarrow> (\<exists>b \<in> A. (kv(a := None)) b = Some (l, x))" for l x
  proof (cases "l = k")
    case True
    then show ?thesis using entries_unique [OF assms(1) assms(3)] by auto
  next
    case False
    have "b \<noteq> a" if "b \<in> A" for b using that assms(2) by blast
    then show ?thesis using False entries_iff [OF assms(1), of l x] assms(3) by auto
  qed
qed

lemma entries_update:
  assumes "entries kv A m" "a \<in> A" "kv a = Some (k, w)"
  shows "entries (kv(a \<mapsto> (k, v))) A (m(k \<mapsto> v))"
  unfolding entries_def
proof (intro conjI allI ballI impI)
  show "b \<in> A" if "(kv(a \<mapsto> (k, v))) b \<noteq> None" for b
    using that assms by (cases "b = a") (auto simp: entries_def)
  show "b = c" if "(kv(a \<mapsto> (k, v))) b = Some (l, x)" "(kv(a \<mapsto> (k, v))) c = Some (l, y)" for b c l x y
    using that entries_unique [OF assms(1)] assms(3) by (auto split: if_splits)
  show "(m(k \<mapsto> v)) l = Some x \<longleftrightarrow> (\<exists>b \<in> A. (kv(a \<mapsto> (k, v))) b = Some (l, x))" for l x
  proof (cases "l = k")
    case True
    then show ?thesis using entries_unique [OF assms(1) assms(3)] assms(2) by auto
  next
    case False
    then have "(kv(a \<mapsto> (k, v))) b = Some (l, x) \<longleftrightarrow> kv b = Some (l, x)" for b using assms(3) by auto
    then show ?thesis using False entries_iff [OF assms(1), of l x] by simp
  qed
qed

definition represents :: "('k \<Rightarrow> nat \<Rightarrow> nat) \<Rightarrow> ('k, 'v, 'z) htab_scheme \<Rightarrow> ('k \<Rightarrow> 'v option option) \<Rightarrow> bool" where
  "represents hash t m \<longleftrightarrow> (\<exists>css. tbl_inv hash t css \<and> ht_used t \<le> ht_size t \<and> entries (keyval (ht_heap t)) (set (concat css)) m)"

lemma list_all2_mono_in:
  "list_all2 P xs ys \<Longrightarrow> (\<And>x y. y \<in> set ys \<Longrightarrow> P x y \<Longrightarrow> Q x y) \<Longrightarrow> list_all2 Q xs ys"
  by (auto simp: list_all2_conv_all_nth)

lemma or_1_size: "0 < sz OR (Suc 0)"
  using or_one_eq [of sz] by (cases "sz = 0") auto

lemma or_1_even: "2 * sz OR (Suc 0) = Suc (2 * sz)"
  using or_one_eq [of "2 * sz"] by simp

lemma push_prev:
  assumes chain: "dchain h None p as" and "distinct as" "a \<notin> set as"
  shows "\<exists>h'. set_prev h p (Some a) = Ok h' \<and> h' a = h a \<and> dchain h' (Some a) p as \<and> keyval h' = keyval h \<and>
    (\<forall>b. b \<notin> set as \<longrightarrow> h' b = h b)"
proof (cases as)
  case Nil
  then show ?thesis using chain by (simp add: set_prev_def)
next
  case (Cons b bs)
  then obtain n where n: "p = Some b" "h b = Some n" using chain by auto
  have "dchain (h(b \<mapsto> n\<lparr>hn_prev := Some a\<rparr>)) (Some a) p (b # bs)"
    using dchain_head_prev [of h None p b bs n "Some a"] n(2) chain assms(2) Cons by simp
  moreover have "a \<noteq> b" using assms(3) Cons by auto
  moreover have "set_prev h p (Some a) = Ok (h(b \<mapsto> n\<lparr>hn_prev := Some a\<rparr>))" "keyval (h(b \<mapsto> n\<lparr>hn_prev := Some a\<rparr>)) = keyval h"
    using n by (auto simp: set_prev_def node_at_def keyval_def)
  ultimately show ?thesis using Cons by (intro exI [of _ "h(b \<mapsto> n\<lparr>hn_prev := Some a\<rparr>)"]) simp
qed

text \<open>Changes to one bucket leave the chains of the others alone.\<close>

lemma other_bucket:
  assumes "distinct (concat css)" "i < length css" "j < length css" "j \<noteq> i"
    and "\<And>b. b \<in> set (concat css) \<Longrightarrow> b \<notin> set (css ! i) \<Longrightarrow> h' b = h b"
  shows "dchain h' q p (css ! j) = dchain h q p (css ! j)"
proof (rule dchain_frame)
  fix b assume b: "b \<in> set (css ! j)"
  have "set (css ! j) \<inter> set (css ! i) = {}" by (rule nth_disjoint [OF assms(1)]) (use assms in auto)
  then show "h' b = h b" using b nth_in_concat [OF assms(3) b] assms(5) by blast
qed

locale chained =
  fixes hash :: "'k \<Rightarrow> nat \<Rightarrow> nat"
  assumes hash_bound: "0 < n \<Longrightarrow> hash k n < n"
begin

text \<open>A new first entry of bucket \<open>i\<close>, in a heap that agrees with the old one outside of that bucket.\<close>

lemma pushed_chains:
  assumes inv: "tbl_inv hash t css" and i: "i < ht_size t" and a: "a \<notin> set (concat css)"
    and h2: "h2 a = Some (e\<lparr>hn_next := ht_data t ! i, hn_prev := None\<rparr>)" "dchain h2 (Some a) (ht_data t ! i) (css ! i)"
    and out: "\<And>b. b \<notin> set (css ! i) \<Longrightarrow> b \<noteq> a \<Longrightarrow> h2 b = ht_heap t b" and j: "j < ht_size t"
  shows "dchain h2 None ((ht_data t)[i := Some a] ! j) (css[i := a # css ! i] ! j)"
proof -
  have sz: "length (ht_data t) = ht_size t" "length css = ht_size t" and dist: "distinct (concat css)" using inv by (auto simp: tbl_inv_def)
  show ?thesis
  proof (cases "j = i")
    case True
    then show ?thesis using h2 i sz by simp
  next
    case False
    have "dchain h2 None (ht_data t ! j) (css ! j) = dchain (ht_heap t) None (ht_data t ! j) (css ! j)"
      by (rule other_bucket [OF dist _ _ False]) (use i j sz out a in auto)
    then show ?thesis using inv j False sz by (simp add: tbl_inv_def)
  qed
qed

lemma pushed_hash:
  assumes inv: "tbl_inv hash t css" and a: "ht_heap t a = Some e" "a \<notin> set (concat css)" and i: "i = hash (hn_key e) (ht_size t)" "i < ht_size t"
    and b: "j < ht_size t" "b \<in> set (css[i := a # css ! i] ! j)" "keyval (ht_heap t) b = Some kv"
  shows "hash (fst kv) (ht_size t) = j"
proof -
  have sz: "length css = ht_size t" using inv by (simp add: tbl_inv_def)
  show ?thesis
  proof (cases "b = a")
    case True
    have "a \<notin> set (css ! j)" using a(2) b(1) sz nth_in_concat by metis
    with b(2) True have "j = i" using i sz by (cases "j = i") auto
    with b True a(1) i(1) show ?thesis by (auto simp: keyval_def)
  next
    case False
    with b(2) have "b \<in> set (css ! j)" using i sz by (cases "j = i") auto
    with b inv show ?thesis unfolding tbl_inv_def by blast
  qed
qed

text \<open>Linking a fresh element puts it in front of its bucket and changes no key or value.\<close>

lemma link_ok:
  assumes inv: "tbl_inv hash t css" and a: "ht_heap t a = Some e" "a \<notin> set (concat css)"
  shows "\<exists>t' css'. tbl_link hash t a = Ok t' \<and> tbl_inv hash t' css' \<and>
    mset (concat css') = add_mset a (mset (concat css)) \<and> keyval (ht_heap t') = keyval (ht_heap t) \<and>
    ht_size t' = ht_size t \<and> ht_brk t' = ht_brk t \<and>
    (\<forall>b. b \<notin> set (concat css') \<longrightarrow> ht_heap t' b = ht_heap t b)"
proof -
  define i where "i = hash (hn_key e) (ht_size t)"
  have sz: "length (ht_data t) = ht_size t" "length css = ht_size t" and i: "i < ht_size t" and dist: "distinct (concat css)"
    using inv hash_bound by (auto simp: tbl_inv_def i_def)
  define css' where "css' = css[i := a # css ! i]"
  have ms: "mset (concat css') = add_mset a (mset (concat css))" using concat_push [of i css a] i sz by (simp add: css'_def)
  define h1 where "h1 = (ht_heap t)(a \<mapsto> e\<lparr>hn_next := ht_data t ! i, hn_prev := None\<rparr>)"
  have fresh: "a \<notin> set (css ! i)" using a(2) i sz nth_in_concat by metis
  have d: "distinct (css ! i)" using dist i sz by (metis distinct_concat_iff nth_mem)
  have "dchain h1 None (ht_data t ! i) (css ! i) = dchain (ht_heap t) None (ht_data t ! i) (css ! i)"
    by (rule dchain_frame) (use fresh in \<open>auto simp: h1_def\<close>)
  then have "dchain h1 None (ht_data t ! i) (css ! i)" using inv i by (simp add: tbl_inv_def)
  from push_prev [OF this d fresh] obtain h2 where h2: "set_prev h1 (ht_data t ! i) (Some a) = Ok h2" "h2 a = h1 a"
    "dchain h2 (Some a) (ht_data t ! i) (css ! i)" "keyval h2 = keyval h1" "\<And>b. b \<notin> set (css ! i) \<Longrightarrow> h2 b = h1 b" by blast
  have out: "h2 b = ht_heap t b" if "b \<notin> set (css ! i)" "b \<noteq> a" for b using h2(5) that by (simp add: h1_def)
  let ?t' = "t\<lparr>ht_heap := h2, ht_data := (ht_data t)[i := Some a], ht_used := ht_used t + 1\<rparr>"
  have kv: "keyval h2 = keyval (ht_heap t)" using h2(4) a(1) by (auto simp: keyval_def h1_def fun_eq_iff)
  have link: "tbl_link hash t a = Ok ?t'"
    using a i sz h2(1) by (simp add: tbl_link_def node_at_def bucket_def i_def [symmetric] h1_def Let_def)
  have "dchain h2 None ((ht_data t)[i := Some a] ! j) (css' ! j)" if "j < ht_size t" for j
    unfolding css'_def by (rule pushed_chains [OF inv i a(2) _ h2(3) out that]) (use h2(2) in \<open>simp_all add: h1_def\<close>)
  moreover have "hash (fst kv) (ht_size t) = j" if "j < ht_size t" "b \<in> set (css' ! j)" "keyval (ht_heap t) b = Some kv" for j b kv
    using pushed_hash [OF inv a i_def i] that unfolding css'_def by blast
  moreover have "distinct (concat css')"
    using ms dist a(2) by (metis distinct.simps(2) mset.simps(2) mset_eq_imp_distinct_iff)
  moreover have "length (concat css') = Suc (length (concat css))" using ms by (metis size_mset size_add_mset)
  moreover have "h2 b = None" if "ht_brk t \<le> b" for b
    using fun_cong [OF kv, of b] inv that by (auto simp: keyval_def tbl_inv_def)
  ultimately have inv': "tbl_inv hash ?t' css'"
    using inv kv sz i by (simp add: tbl_inv_def css'_def)
  have "h2 b = ht_heap t b" if "b \<notin> set (concat css')" for b
  proof (rule out)
    have b: "b \<noteq> a" "b \<notin> set (concat css)" using that ms by (metis insert_iff set_mset_add_mset_insert set_mset_mset)+
    then show "b \<notin> set (css ! i)" "b \<noteq> a" using i sz nth_in_concat by metis+
  qed
  then show ?thesis using link inv' ms kv by (intro exI [of _ ?t'] exI [of _ css']) simp
qed

text \<open>Growing: all elements of the old chains end up in the new buckets.\<close>

lemma relink_chain_ok:
  assumes "tbl_inv hash t css" "nchain (ht_heap t) p as" "distinct as" "set as \<inter> set (concat css) = {}"
  shows "\<exists>t' css'. run (relink_chain hash t p) = Ok t' \<and> tbl_inv hash t' css' \<and>
    mset (concat css') = mset as + mset (concat css) \<and> keyval (ht_heap t') = keyval (ht_heap t) \<and>
    ht_size t' = ht_size t \<and> ht_brk t' = ht_brk t \<and>
    (\<forall>b. b \<notin> set (concat css') \<longrightarrow> ht_heap t' b = ht_heap t b)"
  using assms
proof (induction as arbitrary: t css p)
  case Nil
  then show ?case by (subst relink_chain.simps) auto
next
  case (Cons a as)
  from Cons.prems obtain n where n: "p = Some a" "ht_heap t a = Some n" "nchain (ht_heap t) (hn_next n) as" by auto
  from Cons.prems(4) have "a \<notin> set (concat css)" by auto
  then obtain t1 css1 where l: "tbl_link hash t a = Ok t1" "tbl_inv hash t1 css1"
    "mset (concat css1) = add_mset a (mset (concat css))" "keyval (ht_heap t1) = keyval (ht_heap t)"
    "ht_size t1 = ht_size t" "ht_brk t1 = ht_brk t" "\<And>b. b \<notin> set (concat css1) \<Longrightarrow> ht_heap t1 b = ht_heap t b"
    using link_ok [OF Cons.prems(1) n(2)] by blast
  have set1: "set (concat css1) = insert a (set (concat css))" using l(3) by (metis set_mset_add_mset_insert set_mset_mset)
  have disj: "set as \<inter> set (concat css1) = {}" unfolding set1 using Cons.prems(3,4) by auto
  have "nchain (ht_heap t1) (hn_next n) as = nchain (ht_heap t) (hn_next n) as"
    by (rule nchain_frame) (use l(7) disj in blast)
  then have n1: "nchain (ht_heap t1) (hn_next n) as" "distinct as" using n(3) Cons.prems(3) by simp_all
  obtain t2 css2 where r: "run (relink_chain hash t1 (hn_next n)) = Ok t2" "tbl_inv hash t2 css2"
    "mset (concat css2) = mset as + mset (concat css1)" "keyval (ht_heap t2) = keyval (ht_heap t1)"
    "ht_size t2 = ht_size t1" "ht_brk t2 = ht_brk t1" "\<And>b. b \<notin> set (concat css2) \<Longrightarrow> ht_heap t2 b = ht_heap t1 b"
    using Cons.IH [OF l(2) n1 disj] by blast
  have set2: "set (concat css2) = set as \<union> set (concat css1)" using r(3) by (metis set_mset_mset set_mset_union)
  have "run (relink_chain hash t p) = Ok t2" using r(1) n l(1) by (subst relink_chain.simps) simp
  moreover have "ht_heap t2 b = ht_heap t b" if "b \<notin> set (concat css2)" for b
  proof -
    have "b \<notin> set (concat css1)" using that set2 by blast
    then show ?thesis using r(7) [OF that] l(7) by simp
  qed
  moreover have "mset (concat css2) = mset (a # as) + mset (concat css)" using l(3) r(3) by simp
  ultimately show ?case using r l by (intro exI [of _ t2] exI [of _ css2]) simp
qed

lemma relink_all_ok:
  assumes "tbl_inv hash t css" "list_all2 (nchain (ht_heap t)) ps ass" "distinct (concat ass)"
    "set (concat ass) \<inter> set (concat css) = {}"
  shows "\<exists>t' css'. relink_all hash t ps = Ok t' \<and> tbl_inv hash t' css' \<and>
    mset (concat css') = mset (concat ass) + mset (concat css) \<and> keyval (ht_heap t') = keyval (ht_heap t) \<and>
    ht_size t' = ht_size t \<and> ht_brk t' = ht_brk t"
  using assms
proof (induction ps arbitrary: t css ass)
  case Nil
  then show ?case by auto
next
  case (Cons p ps)
  from Cons.prems(2) obtain as bss where ass: "ass = as # bss" and chains: "nchain (ht_heap t) p as"
    "list_all2 (nchain (ht_heap t)) ps bss" by (auto simp: list_all2_Cons1)
  have disj: "set as \<inter> set (concat css) = {}" "set (concat bss) \<inter> set (concat css) = {}" "set as \<inter> set (concat bss) = {}"
    using Cons.prems(3,4) ass by auto
  obtain t1 css1 where l: "run (relink_chain hash t p) = Ok t1" "tbl_inv hash t1 css1"
    "mset (concat css1) = mset as + mset (concat css)" "keyval (ht_heap t1) = keyval (ht_heap t)"
    "ht_size t1 = ht_size t" "ht_brk t1 = ht_brk t" "\<And>b. b \<notin> set (concat css1) \<Longrightarrow> ht_heap t1 b = ht_heap t b"
    using relink_chain_ok [OF Cons.prems(1) chains(1) _ disj(1)] Cons.prems(3) ass by auto
  have set1: "set (concat css1) = set as \<union> set (concat css)" using l(3) by (metis set_mset_mset set_mset_union)
  have d1: "set (concat bss) \<inter> set (concat css1) = {}" unfolding set1 using disj by blast
  have "list_all2 (nchain (ht_heap t1)) ps bss"
    using chains(2)
  proof (rule list_all2_mono_in)
    fix q bs assume "bs \<in> set bss" "nchain (ht_heap t) q bs"
    moreover from \<open>bs \<in> set bss\<close> d1 have "set bs \<inter> set (concat css1) = {}" by auto
    ultimately show "nchain (ht_heap t1) q bs" using nchain_frame [of bs "ht_heap t1" "ht_heap t"] l(7) by blast
  qed
  moreover have "distinct (concat bss)" using Cons.prems(3) ass by simp
  ultimately obtain t2 css2 where r: "relink_all hash t1 ps = Ok t2" "tbl_inv hash t2 css2"
    "mset (concat css2) = mset (concat bss) + mset (concat css1)" "keyval (ht_heap t2) = keyval (ht_heap t1)"
    "ht_size t2 = ht_size t1" "ht_brk t2 = ht_brk t1"
    using Cons.IH [OF l(2) _ _ d1] by blast
  then show ?case using l ass by (intro exI [of _ t2] exI [of _ css2]) simp
qed

lemma size_inv:
  assumes "\<forall>a \<ge> ht_brk t. ht_heap t a = None"
  shows "tbl_inv hash (tbl_size t sz) (replicate (sz OR 1) [])"
proof -
  show ?thesis using or_1_size [of sz] assms by (simp add: tbl_inv_def tbl_size_def)
qed

lemma grow_ok:
  assumes "tbl_inv hash t css"
  shows "\<exists>t' css'. tbl_grow hash t = Ok t' \<and> tbl_inv hash t' css' \<and> mset (concat css') = mset (concat css) \<and>
    keyval (ht_heap t') = keyval (ht_heap t) \<and> ht_size t' = 2 * ht_size t + 1 \<and> ht_brk t' = ht_brk t"
proof -
  let ?t = "tbl_size t (2 * ht_size t)"
  have inv: "tbl_inv hash ?t (replicate (2 * ht_size t OR 1) [])"
    by (rule size_inv) (use assms in \<open>simp add: tbl_inv_def\<close>)
  have "list_all2 (nchain (ht_heap ?t)) (ht_data t) css" "distinct (concat css)"
    using tbl_inv_nchain [OF assms] assms by (simp_all add: tbl_size_def tbl_inv_def)
  moreover have "concat (replicate n ([] :: nat list)) = []" for n by simp
  ultimately show ?thesis
    using relink_all_ok [OF inv, of "ht_data t" css] by (auto simp: tbl_grow_def tbl_size_def or_1_even)
qed

lemma enter_ok:
  assumes "represents hash t m" "m k = None"
  shows "\<exists>t' a. tbl_enter hash t k v = Ok (t', a) \<and> represents hash t' (m(k \<mapsto> v)) \<and>
    keyval (ht_heap t') = (keyval (ht_heap t))(a \<mapsto> (k, v)) \<and> ht_heap t a = None"
proof -
  from assms(1) obtain css where inv: "tbl_inv hash t css" and load: "ht_used t \<le> ht_size t" and ent: "entries (keyval (ht_heap t)) (set (concat css)) m"
    by (auto simp: represents_def)
  obtain t1 css1 where t1: "(if ht_used t \<ge> ht_size t then tbl_grow hash t else Ok t) = Ok t1" "tbl_inv hash t1 css1"
    "mset (concat css1) = mset (concat css)" "keyval (ht_heap t1) = keyval (ht_heap t)" "ht_used t < ht_size t1"
    "ht_brk t1 = ht_brk t"
  proof (cases "ht_used t \<ge> ht_size t")
    case True
    then show ?thesis using grow_ok [OF inv] load that by auto
  next
    case False
    then show ?thesis using that [OF _ inv] by simp
  qed
  have set1: "set (concat css1) = set (concat css)" and used1: "ht_used t1 = ht_used t"
    using t1(2,3) inv by (metis set_mset_mset, metis size_mset tbl_inv_def)
  define a where "a = ht_brk t"
  define e where "e = \<lparr>hn_key = k, hn_value = v, hn_next = None, hn_prev = None\<rparr>"
  define t2 where "t2 = t1\<lparr>ht_heap := (ht_heap t1)(a \<mapsto> e), ht_brk := a + 1\<rparr>"
  have fresh: "ht_heap t1 a = None" "ht_heap t a = None" using t1(2,6) inv by (auto simp: tbl_inv_def a_def)
  then have new: "a \<notin> set (concat css1)" using tbl_inv_allocated [OF t1(2)] by fastforce
  have "dchain ((ht_heap t1)(a \<mapsto> e)) None (ht_data t1 ! i) (css1 ! i) = dchain (ht_heap t1) None (ht_data t1 ! i) (css1 ! i)"
    if "i < length css1" for i
    by (rule dchain_frame) (use new nth_in_concat [OF that] in auto)
  moreover have "keyval ((ht_heap t1)(a \<mapsto> e)) b = keyval (ht_heap t1) b" if "i < length css1" "b \<in> set (css1 ! i)" for i b
    using new nth_in_concat [OF that] by (auto simp: keyval_def)
  ultimately have inv2: "tbl_inv hash t2 css1"
    using t1(2,6) by (simp add: tbl_inv_def t2_def a_def)
  obtain t3 css3 where t3: "tbl_link hash t2 a = Ok t3" "tbl_inv hash t3 css3"
    "mset (concat css3) = add_mset a (mset (concat css1))" "keyval (ht_heap t3) = keyval (ht_heap t2)" "ht_size t3 = ht_size t2"
    using link_ok [OF inv2 _ new, of e] by (auto simp: t2_def)
  have set3: "set (concat css3) = insert a (set (concat css))" using t3(3) set1 by (metis set_mset_add_mset_insert set_mset_mset)
  have kv: "keyval (ht_heap t3) = (keyval (ht_heap t))(a \<mapsto> (k, v))"
    using t3(4) t1(4) by (auto simp: t2_def keyval_def e_def fun_eq_iff)
  have used3: "ht_used t3 = Suc (ht_used t)"
    using t3(1) used1 by (auto simp: tbl_link_def t2_def Let_def)
  have enter: "tbl_enter hash t k v = Ok (t3, a)"
    using t1(1) t3(1) t1(6) unfolding tbl_enter_def by (simp add: t2_def a_def e_def)
  have "a \<notin> set (concat css)" using new unfolding set1 .
  then have "entries (keyval (ht_heap t3)) (set (concat css3)) (m(k \<mapsto> v))" unfolding set3 kv by (rule entries_insert [OF ent assms(2)])
  moreover have "ht_used t3 \<le> ht_size t3" using used3 t1(5) t3(5) by (simp add: t2_def)
  ultimately have "represents hash t3 (m(k \<mapsto> v))" using t3(2) by (auto simp: represents_def)
  then show ?thesis using enter kv fresh(2) by blast
qed

lemma key_in_bucket:
  assumes "tbl_inv hash t css" "b \<in> set (concat css)" "keyval (ht_heap t) b = Some (k, v)"
  shows "b \<in> set (css ! hash k (ht_size t))"
proof -
  have "length css = ht_size t" using assms(1) by (simp add: tbl_inv_def)
  then obtain j where "j < ht_size t" "b \<in> set (css ! j)" using assms(2) by (metis UN_iff in_set_conv_nth set_concat)
  moreover from this have "hash k (ht_size t) = j" using assms(1,3) unfolding tbl_inv_def by fastforce
  ultimately show ?thesis by simp
qed

lemma locate_inv:
  assumes "tbl_inv hash t css"
  shows "tbl_locate hash t k = Ok (find (\<lambda>a. map_option fst (keyval (ht_heap t) a) = Some k) (css ! hash k (ht_size t)))"
proof -
  define i where "i = hash k (ht_size t)"
  have i: "i < ht_size t" "length (ht_data t) = ht_size t" "dchain (ht_heap t) None (ht_data t ! i) (css ! i)"
    using assms hash_bound by (auto simp: tbl_inv_def i_def)
  have "(\<lambda>a. map_option hn_key (ht_heap t a) = Some k) = (\<lambda>a. map_option fst (keyval (ht_heap t) a) = Some k)"
    by (auto simp: keyval_def option.map_comp comp_def)
  then show ?thesis
    using chain_search_ok [OF dchain_nchain [OF i(3)], of k] i
    by (simp add: tbl_locate_def bucket_def i_def [symmetric])
qed

lemma locate_ok:
  assumes "represents hash t m"
  shows "m k = None \<Longrightarrow> tbl_locate hash t k = Ok None"
    and "m k = Some v \<Longrightarrow> \<exists>a. tbl_locate hash t k = Ok (Some a) \<and> keyval (ht_heap t) a = Some (k, v)"
proof -
  from assms obtain css where inv: "tbl_inv hash t css" and ent: "entries (keyval (ht_heap t)) (set (concat css)) m"
    by (auto simp: represents_def)
  have i: "hash k (ht_size t) < length css" using inv hash_bound by (auto simp: tbl_inv_def)
  let ?P = "\<lambda>a. map_option fst (keyval (ht_heap t) a) = Some k"
  show "tbl_locate hash t k = Ok None" if "m k = None"
  proof -
    have "\<not> ?P a" if "a \<in> set (css ! hash k (ht_size t))" for a
      using entries_iff [OF ent, of k] nth_in_concat [OF i that] \<open>m k = None\<close> by (cases "keyval (ht_heap t) a") force+
    then show ?thesis unfolding locate_inv [OF inv] by (simp add: find_None_iff)
  qed
  show "\<exists>a. tbl_locate hash t k = Ok (Some a) \<and> keyval (ht_heap t) a = Some (k, v)" if kv: "m k = Some v"
  proof -
    obtain b where b: "b \<in> set (concat css)" "keyval (ht_heap t) b = Some (k, v)" using entries_iff [OF ent] kv by blast
    have in_b: "b \<in> set (css ! hash k (ht_size t))" by (rule key_in_bucket [OF inv b])
    then obtain a where a: "find ?P (css ! hash k (ht_size t)) = Some a"
      using b(2) by (cases "find ?P (css ! hash k (ht_size t))") (auto simp: find_None_iff)
    then have "?P a" "a \<in> set (css ! hash k (ht_size t))" by (auto simp: find_Some_iff)
    then obtain w where "keyval (ht_heap t) a = Some (k, w)" "a \<in> set (concat css)"
      using nth_in_concat [OF i] by auto
    then have "a = b" using entries_unique [OF ent] b(2) by blast
    then show ?thesis using a b(2) unfolding locate_inv [OF inv] by simp
  qed
qed

lemma find_ok:
  assumes "represents hash t m"
  shows "tbl_find hash t k = Ok (case m k of None \<Rightarrow> None | Some v \<Rightarrow> v)"
  using locate_ok [OF assms, of k] by (cases "m k") (auto simp: tbl_find_def node_at_def keyval_def)

text \<open>Deletion takes the entry out of its chain and leaves all other entries where they are.\<close>

text \<open>Bucket \<open>i\<close> without the entry \<open>a\<close>, in a heap that agrees with the old one outside of that bucket.\<close>

lemma removed_chains:
  assumes inv: "tbl_inv hash t css" and i: "i < ht_size t" and split: "css ! i = xs @ a # ys"
    and h2: "dchain h2 None (data ! i) (xs @ ys)" "\<And>b. b \<notin> set (xs @ ys) \<Longrightarrow> h2 b = ht_heap t b"
    and data: "\<And>j. j \<noteq> i \<Longrightarrow> data ! j = ht_data t ! j" and a: "a \<notin> set (concat (css[i := xs @ ys]))" and j: "j < ht_size t"
  shows "dchain (h2(a := None)) None (data ! j) (css[i := xs @ ys] ! j)"
proof -
  have sz: "length css = ht_size t" and dist: "distinct (concat css)" using inv by (auto simp: tbl_inv_def)
  have "dchain h2 None (data ! j) (css[i := xs @ ys] ! j)"
  proof (cases "j = i")
    case True
    then show ?thesis using h2(1) i sz by simp
  next
    case False
    have "dchain h2 None (ht_data t ! j) (css ! j) = dchain (ht_heap t) None (ht_data t ! j) (css ! j)"
      by (rule other_bucket [OF dist _ _ False]) (use i j sz split h2(2) in auto)
    then show ?thesis using inv j False data by (simp add: tbl_inv_def)
  qed
  moreover have "(h2(a := None)) b = h2 b" if "b \<in> set (css[i := xs @ ys] ! j)" for b
    using a nth_in_concat [of j "css[i := xs @ ys]" b] that j sz by auto
  ultimately show ?thesis using dchain_frame by metis
qed

lemma unlink_ok:
  assumes inv: "tbl_inv hash t css" and i: "i < ht_size t" and a: "a \<in> set (css ! i)"
  shows "\<exists>t' css'. tbl_unlink t i a = Ok t' \<and>
    tbl_inv hash (t'\<lparr>ht_used := ht_used t - 1, ht_heap := (ht_heap t')(a := None)\<rparr>) css' \<and>
    mset (concat css) = add_mset a (mset (concat css')) \<and>
    keyval (ht_heap t') = keyval (ht_heap t) \<and> ht_size t' = ht_size t \<and> ht_brk t' = ht_brk t \<and> ht_used t' = ht_used t"
proof -
  have sz: "length (ht_data t) = ht_size t" "length css = ht_size t" and dist: "distinct (concat css)"
    and chain: "\<And>j. j < ht_size t \<Longrightarrow> dchain (ht_heap t) None (ht_data t ! j) (css ! j)"
    using inv by (auto simp: tbl_inv_def)
  obtain xs ys where split: "css ! i = xs @ a # ys" using a by (meson split_list)
  have d: "distinct (xs @ a # ys)" using dist i sz split by (metis distinct_concat_iff nth_mem)
  obtain n where n: "ht_heap t a = Some n" using dchain_allocated [OF chain [OF i] a] by blast
  obtain h1 h2 where h: "set_prev (ht_heap t) (hn_next n) (hn_prev n) = Ok h1"
    "case hn_prev n of None \<Rightarrow> xs = [] \<and> h2 = h1 | Some c \<Rightarrow> xs \<noteq> [] \<and> set_next h1 c (hn_next n) = Ok h2"
    "dchain h2 None (if xs = [] then hn_next n else ht_data t ! i) (xs @ ys)"
    "\<And>b. b \<notin> set (xs @ ys) \<Longrightarrow> h2 b = ht_heap t b"
    "keyval h2 = keyval (ht_heap t)"
    using unlink_chain [OF chain [OF i, unfolded split] d n] by (auto simp: keyval_def fun_eq_iff)
  define data where "data = (if xs = [] then (ht_data t)[i := hn_next n] else ht_data t)"
  have data: "data ! i = (if xs = [] then hn_next n else ht_data t ! i)" "\<And>j. j \<noteq> i \<Longrightarrow> data ! j = ht_data t ! j" "length data = ht_size t"
    using i sz by (simp_all add: data_def)
  let ?t' = "t\<lparr>ht_heap := h2, ht_data := data\<rparr>"
  have "tbl_unlink t i a = Ok ?t'"
    using n h(1,2) by (cases "hn_prev n") (auto simp: tbl_unlink_def node_at_def data_def)
  moreover define css' where "css' = css[i := xs @ ys]"
  have "mset (concat css') + mset (css ! i) = mset (concat css) + mset (xs @ ys)"
    unfolding css'_def using concat_update [of i css "xs @ ys"] i sz by simp
  then have ms: "mset (concat css) = add_mset a (mset (concat css'))" using split by simp
  moreover have "tbl_inv hash (?t'\<lparr>ht_used := ht_used t - 1, ht_heap := h2(a := None)\<rparr>) css'"
  proof -
    have "distinct (a # concat css')" using ms dist by (metis mset.simps(2) mset_eq_imp_distinct_iff)
    then have a': "a \<notin> set (concat css')" "distinct (concat css')" by simp_all
    have "dchain (h2(a := None)) None (data ! j) (css' ! j)" if "j < ht_size t" for j
      unfolding css'_def using removed_chains [OF inv i split h(3) [folded data(1)] h(4) data(2) a'(1) [unfolded css'_def] that] by simp
    moreover have "hash (fst kv) (ht_size t) = j" if "j < ht_size t" "b \<in> set (css' ! j)" "keyval (h2(a := None)) b = Some kv" for j b kv
    proof -
      have "b \<in> set (css ! j)" using that split sz by (cases "j = i") (auto simp: css'_def)
      moreover have "keyval h2 b = Some kv" using that(3) by (auto simp: keyval_def split: if_splits)
      ultimately show ?thesis using inv that(1) unfolding tbl_inv_def h(5) by blast
    qed
    moreover have "ht_used t - 1 = length (concat css')" using inv ms by (metis diff_Suc_1 size_add_mset size_mset tbl_inv_def)
    moreover have "(h2(a := None)) b = None" if "ht_brk t \<le> b" for b
      using fun_cong [OF h(5), of b] inv that by (auto simp: keyval_def tbl_inv_def)
    ultimately show ?thesis using inv a'(2) sz data(3) by (simp add: tbl_inv_def css'_def)
  qed
  ultimately show ?thesis using h(5) by (intro exI [of _ ?t'], intro exI [of _ css']) simp
qed

lemma delete_ok:
  assumes "represents hash t m"
  shows "m k = None \<Longrightarrow> tbl_delete msg hash t k = Panic msg"
    and "m k = Some v \<Longrightarrow> \<exists>t' a. tbl_delete msg hash t k = Ok (t', v) \<and> represents hash t' (m(k := None)) \<and>
      keyval (ht_heap t) a = Some (k, v) \<and> keyval (ht_heap t') = (keyval (ht_heap t))(a := None)"
proof -
  show "tbl_delete msg hash t k = Panic msg" if "m k = None"
    using locate_ok(1) [OF assms that] by (simp add: tbl_delete_def)
  assume v: "m k = Some v"
  from assms obtain css where inv: "tbl_inv hash t css" and load: "ht_used t \<le> ht_size t" and ent: "entries (keyval (ht_heap t)) (set (concat css)) m"
    by (auto simp: represents_def)
  obtain a where a: "tbl_locate hash t k = Ok (Some a)" "keyval (ht_heap t) a = Some (k, v)"
    using locate_ok(2) [OF assms v] by blast
  define i where "i = hash k (ht_size t)"
  have i: "i < ht_size t" using inv hash_bound by (auto simp: tbl_inv_def i_def)
  have "a \<in> set (css ! i)"
    using a(1) unfolding locate_inv [OF inv] i_def by (auto simp: find_Some_iff)
  from unlink_ok [OF inv i this] obtain t1 css1 where t1: "tbl_unlink t i a = Ok t1"
    "tbl_inv hash (t1\<lparr>ht_used := ht_used t - 1, ht_heap := (ht_heap t1)(a := None)\<rparr>) css1"
    "mset (concat css) = add_mset a (mset (concat css1))"
    "keyval (ht_heap t1) = keyval (ht_heap t)" "ht_size t1 = ht_size t" "ht_used t1 = ht_used t" by blast
  define t2 where "t2 = t1\<lparr>ht_used := ht_used t - 1, ht_heap := (ht_heap t1)(a := None)\<rparr>"
  have kv: "keyval (ht_heap t2) = (keyval (ht_heap t))(a := None)"
    using t1(4) by (auto simp: t2_def keyval_def fun_eq_iff)
  have set1: "set (concat css) = insert a (set (concat css1))" using t1(3) by (metis set_mset_add_mset_insert set_mset_mset)
  have "distinct (a # concat css1)" using t1(3) inv by (metis mset.simps(2) mset_eq_imp_distinct_iff tbl_inv_def)
  then have a1: "a \<notin> set (concat css1)" by simp
  have del: "tbl_delete msg hash t k = Ok (t2, v)"
    using a t1(1,6) by (auto simp: tbl_delete_def node_at_def keyval_def i_def t2_def)
  have "entries (keyval (ht_heap t2)) (set (concat css1)) (m(k := None))"
    unfolding kv by (rule entries_delete [OF ent [unfolded set1] a1 a(2)])
  moreover have "ht_used t2 \<le> ht_size t2" using load t1(5) by (simp add: t2_def)
  moreover have "tbl_inv hash t2 css1" unfolding t2_def by (rule t1(2))
  ultimately have "represents hash t2 (m(k := None))" by (auto simp: represents_def)
  then show "\<exists>t' a. tbl_delete msg hash t k = Ok (t', v) \<and> represents hash t' (m(k := None)) \<and>
      keyval (ht_heap t) a = Some (k, v) \<and> keyval (ht_heap t') = (keyval (ht_heap t))(a := None)"
    using del a(2) kv by blast
qed

text \<open>Storing through the address of an entry, as callers of \<open>locate\<close> do.\<close>

lemma set_value_ok:
  assumes "represents hash t m" "ht_heap t a = Some n" "tbl_locate hash t (hn_key n) = Ok (Some a)"
  shows "represents hash (t\<lparr>ht_heap := (ht_heap t)(a \<mapsto> n\<lparr>hn_value := v\<rparr>)\<rparr>) (m(hn_key n \<mapsto> v))"
proof -
  let ?t = "t\<lparr>ht_heap := (ht_heap t)(a \<mapsto> n\<lparr>hn_value := v\<rparr>)\<rparr>"
  let ?k = "hn_key n"
  from assms(1) obtain css where inv: "tbl_inv hash t css" and load: "ht_used t \<le> ht_size t" and ent: "entries (keyval (ht_heap t)) (set (concat css)) m"
    by (auto simp: represents_def)
  have i: "hash ?k (ht_size t) < length css" using inv hash_bound by (auto simp: tbl_inv_def)
  have "a \<in> set (css ! hash ?k (ht_size t))"
    using assms(3) unfolding locate_inv [OF inv] by (auto simp: find_Some_iff)
  then have a: "a \<in> set (concat css)" by (rule nth_in_concat [OF i])
  have kv: "keyval (ht_heap ?t) = (keyval (ht_heap t))(a \<mapsto> (?k, v))" by (auto simp: keyval_def fun_eq_iff)
  have kva: "keyval (ht_heap t) a = Some (?k, hn_value n)" using assms(2) by (simp add: keyval_def)
  have "dchain ((ht_heap t)(a \<mapsto> n\<lparr>hn_value := v\<rparr>)) q p as = dchain (ht_heap t) q p as" for q p as
    using assms(2) by (induction as arbitrary: q p) auto
  moreover have "hash (fst kw) (ht_size t) = i" if ib: "i < ht_size t" "b \<in> set (css ! i)" and kw: "keyval (ht_heap ?t) b = Some kw" for i b kw
  proof -
    obtain kw' where "keyval (ht_heap t) b = Some kw'" "fst kw' = fst kw"
      using kw kva unfolding kv by (cases "b = a") auto
    moreover from this(1) have "hash (fst kw') (ht_size t) = i" using inv ib unfolding tbl_inv_def by blast
    ultimately show ?thesis by simp
  qed
  moreover have "ht_heap ?t b = None" if "ht_brk t \<le> b" for b
    using inv assms(2) that by (auto simp: tbl_inv_def)
  ultimately have inv': "tbl_inv hash ?t css" using inv by (simp add: tbl_inv_def)
  have "entries (keyval (ht_heap ?t)) (set (concat css)) (m(?k \<mapsto> v))" unfolding kv by (rule entries_update [OF ent a kva])
  then show ?thesis using inv' load by (auto simp: represents_def)
qed

text \<open>\<open>list\<close> returns every entry once.\<close>

lemma list_ok:
  assumes "represents hash t m"
  shows "\<exists>as. tbl_list t = Ok as \<and> distinct as \<and> length as = ht_used t \<and>
    (\<forall>a \<in> set as. ht_heap t a \<noteq> None) \<and>
    (\<forall>k v. m k = Some v \<longleftrightarrow> (\<exists>!a. a \<in> set as \<and> keyval (ht_heap t) a = Some (k, v)))"
proof -
  from assms obtain css where inv: "tbl_inv hash t css" and ent: "entries (keyval (ht_heap t)) (set (concat css)) m"
    by (auto simp: represents_def)
  have "tbl_list t = Ok (concat css)" "distinct (concat css)" "length (concat css) = ht_used t"
    using bucket_lists_ok [OF tbl_inv_nchain [OF inv]] inv by (auto simp: tbl_list_def tbl_inv_def)
  moreover have "\<forall>a \<in> set (concat css). ht_heap t a \<noteq> None" using tbl_inv_allocated [OF inv] by fastforce
  moreover have "\<forall>k v. m k = Some v \<longleftrightarrow> (\<exists>!a. a \<in> set (concat css) \<and> keyval (ht_heap t) a = Some (k, v))"
    using entries_iff [OF ent] entries_unique [OF ent] by metis
  ultimately show ?thesis by blast
qed

lemma used_card:
  assumes "represents hash t m"
  shows "finite (dom m)" "ht_used t = card (dom m)" "ht_used t \<le> ht_size t"
proof -
  from assms obtain css where inv: "tbl_inv hash t css" and load: "ht_used t \<le> ht_size t" and ent: "entries (keyval (ht_heap t)) (set (concat css)) m"
    by (auto simp: represents_def)
  define key where "key = (\<lambda>a. fst (the (keyval (ht_heap t) a)))"
  define S where "S = set (concat css)"
  have ex: "\<exists>v. keyval (ht_heap t) a = Some (key a, v)" if "a \<in> S" for a
    using tbl_inv_allocated [OF inv] that by (force simp: S_def keyval_def key_def)
  have "inj_on key S" using ex entries_unique [OF ent] unfolding inj_on_def by metis
  moreover have "dom m = key ` S"
  proof (intro equalityI subsetI)
    fix k assume "k \<in> dom m"
    then obtain v a where "a \<in> S" "keyval (ht_heap t) a = Some (k, v)" using entries_iff [OF ent] unfolding S_def by blast
    then show "k \<in> key ` S" by (force simp: key_def)
  next
    fix k assume "k \<in> key ` S"
    then show "k \<in> dom m" using ex entries_iff [OF ent] unfolding S_def by blast
  qed
  moreover have "card S = ht_used t" using inv by (simp add: S_def tbl_inv_def distinct_card del: set_concat)
  ultimately show "finite (dom m)" "ht_used t = card (dom m)" by (auto simp: card_image S_def)
  show "ht_used t \<le> ht_size t" by (rule load)
qed

lemma create_ok:
  assumes "ht_heap t = (\<lambda>_. None)"
  shows "represents hash (tbl_size t sz) (\<lambda>_. None)"
proof -
  have "tbl_inv hash (tbl_size t sz) (replicate (sz OR 1) [])" by (rule size_inv) (simp add: assms)
  moreover have "concat (replicate (sz OR 1) []) = []" by simp
  ultimately show ?thesis
    unfolding represents_def by (intro exI [of _ "replicate (sz OR 1) []"]) (auto simp: tbl_size_def keyval_def assms entries_def)
qed

lemma unique_key:
  assumes "represents hash t m" "keyval (ht_heap t) a = Some (k, v)" "keyval (ht_heap t) b = Some (k, w)"
  shows "a = b"
  using assms entries_unique unfolding represents_def by metis

lemma entry_iff:
  assumes "represents hash t m"
  shows "m k = Some v \<longleftrightarrow> (\<exists>a. keyval (ht_heap t) a = Some (k, v))"
  using assms unfolding represents_def entries_def by (metis option.distinct(1))

end

end
