(* ===== verification/Htable.thy ===== *)
theory Htable
  imports Hash_table "HOL-Library.Word"
begin

text \<open>
  The hash tables of \<open>src/util/htable.c\<close> with their iterator, the binary-key tables of
  \<open>src/util/binhash.c\<close>, and \<open>src/util/nvtable.c\<close> on top of the first. The locale
  \<open>lookup_table\<close> is the contract of a table for its clients, interpreted on both
  implementations.

  Callbacks: \<open>free_fn\<close> is represented by the values it is called with, in order;
  \<open>action\<close> of a walk is a function on a client state.
\<close>

section \<open>htable\<close>

text \<open>One round of the hash function, on the 64-bit \<open>size_t\<close>.\<close>

definition hash_step :: "64 word \<Rightarrow> char \<Rightarrow> 64 word" where
  "hash_step h c =
     (let h = push_bit 4 h + of_nat (ord c);
          g = h AND 0xf0000000
      in if g \<noteq> 0 then (h XOR drop_bit 24 g) XOR g else h)"

definition htable_hash :: "string \<Rightarrow> nat \<Rightarrow> nat" where
  "htable_hash s sz = unat (foldl hash_step 0 s) mod sz"

record 'v htable = "(string, 'v) htab" +
  ht_seq_bucket :: "nat list option"
  ht_seq_element :: nat

definition htable_link :: "'v htable \<Rightarrow> nat \<Rightarrow> 'v htable outcome" where
  "htable_link = tbl_link htable_hash"

definition htable_size :: "'v htable \<Rightarrow> nat \<Rightarrow> 'v htable" where
  "htable_size = tbl_size"

definition htable_create :: "int \<Rightarrow> 'v htable" where
  "htable_create sz =
     htable_size \<lparr>ht_heap = (\<lambda>_. None), ht_brk = 0, ht_size = 0, ht_used = 0, ht_data = [],
       ht_seq_bucket = None, ht_seq_element = 0\<rparr> (if sz < 13 then 13 else nat sz)"

definition htable_grow :: "'v htable \<Rightarrow> 'v htable outcome" where
  "htable_grow = tbl_grow htable_hash"

definition htable_enter :: "'v htable \<Rightarrow> string \<Rightarrow> 'v option \<Rightarrow> ('v htable \<times> nat) outcome" where
  "htable_enter = tbl_enter htable_hash"

definition htable_find :: "'v htable \<Rightarrow> string \<Rightarrow> 'v option outcome" where
  "htable_find = tbl_find htable_hash"

definition htable_locate :: "'v htable \<Rightarrow> string \<Rightarrow> nat option outcome" where
  "htable_locate = tbl_locate htable_hash"

text \<open>\<open>free_fn\<close> says whether there is a callback; it is called for a non-null value.\<close>

definition htable_delete :: "'v htable \<Rightarrow> string \<Rightarrow> bool \<Rightarrow> ('v htable \<times> 'v list) outcome" where
  "htable_delete t key free_fn =
     obind (tbl_delete ''htable_delete: unknown_key'' htable_hash t key) (\<lambda>(t, v).
     Ok (t, case v of Some x \<Rightarrow> if free_fn then [x] else [] | None \<Rightarrow> []))"

fun values_at :: "(nat \<Rightarrow> ('k, 'v) hnode option) \<Rightarrow> nat list \<Rightarrow> 'v option list outcome" where
  "values_at h [] = Ok []"
| "values_at h (a # as) = obind (node_at h a) (\<lambda>n. obind (values_at h as) (\<lambda>vs. Ok (hn_value n # vs)))"

definition htable_free :: "'v htable \<Rightarrow> bool \<Rightarrow> 'v list outcome" where
  "htable_free t free_fn =
     obind (bucket_lists (ht_heap t) (ht_data t)) (\<lambda>as.
     obind (values_at (ht_heap t) as) (\<lambda>vs. Ok (if free_fn then List.map_filter id vs else [])))"

fun walk_nodes :: "(nat \<Rightarrow> ('k, 'v) hnode option) \<Rightarrow> (('k, 'v) hnode \<Rightarrow> 's \<Rightarrow> 's) \<Rightarrow> nat list \<Rightarrow> 's \<Rightarrow> 's outcome" where
  "walk_nodes h action [] s = Ok s"
| "walk_nodes h action (a # as) s = obind (node_at h a) (\<lambda>n. walk_nodes h action as (action n s))"

definition htable_walk :: "'v htable \<Rightarrow> ((string, 'v) hnode \<Rightarrow> 's \<Rightarrow> 's) \<Rightarrow> 's \<Rightarrow> 's outcome" where
  "htable_walk t action s =
     obind (bucket_lists (ht_heap t) (ht_data t)) (\<lambda>as. walk_nodes (ht_heap t) action as s)"

definition htable_list :: "'v htable \<Rightarrow> nat list outcome" where
  "htable_list = tbl_list"

text \<open>
  The iterator. \<open>seq_bucket\<close> is the array made by \<open>htable_list\<close>, which ends in a
  null pointer; \<open>seq_element\<close> is an index into it, and reading behind the null pointer
  is outside the array.
\<close>

datatype seq_how = HTABLE_SEQ_FIRST | HTABLE_SEQ_NEXT | HTABLE_SEQ_STOP

definition seq_read :: "nat list \<Rightarrow> nat \<Rightarrow> nat option outcome" where
  "seq_read list i =
     (if i < length list then Ok (Some (list ! i)) else if i = length list then Ok None else Fault)"

definition seq_stop :: "'v htable \<Rightarrow> 'v htable" where
  "seq_stop t = (if ht_seq_bucket t \<noteq> None then t\<lparr>ht_seq_bucket := None, ht_seq_element := 0\<rparr> else t)"

fun htable_sequence :: "'v htable \<Rightarrow> seq_how \<Rightarrow> ('v htable \<times> nat option) outcome" where
  "htable_sequence t HTABLE_SEQ_FIRST =
     obind (htable_list t) (\<lambda>list.
     obind (seq_read list 0) (\<lambda>e. Ok (t\<lparr>ht_seq_bucket := Some list, ht_seq_element := 1\<rparr>, e)))"
| "htable_sequence t HTABLE_SEQ_NEXT =
     (case ht_seq_bucket t of
        Some list \<Rightarrow>
          obind (seq_read list (ht_seq_element t)) (\<lambda>e.
          if e \<noteq> None then Ok (t\<lparr>ht_seq_element := ht_seq_element t + 1\<rparr>, e)
          else Ok (seq_stop t, None))
      | None \<Rightarrow> Ok (seq_stop t, None))"
| "htable_sequence t HTABLE_SEQ_STOP = Ok (seq_stop t, None)"

section \<open>nvtable\<close>

text \<open>The values are strings; the old value of an existing entry is freed.\<close>

definition nvtable_update :: "string htable \<Rightarrow> string \<Rightarrow> string \<Rightarrow> (string htable \<times> nat) outcome" where
  "nvtable_update t key value =
     obind (htable_locate t key) (\<lambda>p.
     obind (case p of Some a \<Rightarrow> Ok (t, a) | None \<Rightarrow> htable_enter t key None) (\<lambda>(t, a).
     obind (node_at (ht_heap t) a) (\<lambda>n.
     Ok (t\<lparr>ht_heap := (ht_heap t)(a \<mapsto> n\<lparr>hn_value := Some value\<rparr>)\<rparr>, a))))"

section \<open>binhash\<close>

definition binhash_hash :: "char list \<Rightarrow> nat \<Rightarrow> nat" where
  "binhash_hash key sz = unat (foldl hash_step 0 key) mod sz"

type_synonym 'v binhash = "(char list, 'v) htab"

definition binhash_create :: "int \<Rightarrow> 'v binhash" where
  "binhash_create sz =
     tbl_size \<lparr>ht_heap = (\<lambda>_. None), ht_brk = 0, ht_size = 0, ht_used = 0, ht_data = []\<rparr>
       (if sz < 13 then 13 else nat sz)"

definition binhash_grow :: "'v binhash \<Rightarrow> 'v binhash outcome" where
  "binhash_grow = tbl_grow binhash_hash"

text \<open>The key is copied with \<open>mymemdup\<close>, which panics when the length is not positive.\<close>

definition binhash_enter :: "'v binhash \<Rightarrow> char list \<Rightarrow> 'v option \<Rightarrow> ('v binhash \<times> nat) outcome" where
  "binhash_enter t key value =
     obind (if ht_used t \<ge> ht_size t then binhash_grow t else Ok t) (\<lambda>t.
     if key = [] then Panic ''mymalloc: requested length''
     else let a = ht_brk t;
              t = t\<lparr>ht_heap := (ht_heap t)(a \<mapsto> \<lparr>hn_key = key, hn_value = value, hn_next = None, hn_prev = None\<rparr>),
                    ht_brk := a + 1\<rparr>
          in obind (tbl_link binhash_hash t a) (\<lambda>t. Ok (t, a)))"

definition binhash_find :: "'v binhash \<Rightarrow> char list \<Rightarrow> 'v option outcome" where
  "binhash_find = tbl_find binhash_hash"

definition binhash_locate :: "'v binhash \<Rightarrow> char list \<Rightarrow> nat option outcome" where
  "binhash_locate = tbl_locate binhash_hash"

text \<open>Unlike \<open>htable_delete\<close>, the callback is called for a null value too.\<close>

definition binhash_delete :: "'v binhash \<Rightarrow> char list \<Rightarrow> bool \<Rightarrow> ('v binhash \<times> 'v option list) outcome" where
  "binhash_delete t key free_fn =
     obind (tbl_delete ''binhash_delete: unknown_key'' binhash_hash t key) (\<lambda>(t, v).
     Ok (t, if free_fn then [v] else []))"

definition binhash_free :: "'v binhash \<Rightarrow> bool \<Rightarrow> 'v option list outcome" where
  "binhash_free t free_fn =
     obind (bucket_lists (ht_heap t) (ht_data t)) (\<lambda>as.
     obind (values_at (ht_heap t) as) (\<lambda>vs. Ok (if free_fn then vs else [])))"

definition binhash_walk :: "'v binhash \<Rightarrow> ((char list, 'v) hnode \<Rightarrow> 's \<Rightarrow> 's) \<Rightarrow> 's \<Rightarrow> 's outcome" where
  "binhash_walk t action s =
     obind (bucket_lists (ht_heap t) (ht_data t)) (\<lambda>as. walk_nodes (ht_heap t) action as s)"

definition binhash_list :: "'v binhash \<Rightarrow> nat list outcome" where
  "binhash_list = tbl_list"

section \<open>The contract of a table\<close>

datatype ('k, 'v) tbl_op = Enter 'k "'v option" | Delete 'k

text \<open>The effect of an operation on the finite map, and when a client may use it.\<close>

fun map_op :: "('k \<Rightarrow> 'v option option) \<Rightarrow> ('k, 'v) tbl_op \<Rightarrow> ('k \<Rightarrow> 'v option option)" where
  "map_op m (Enter k v) = m(k \<mapsto> v)"
| "map_op m (Delete k) = m(k := None)"

fun legal_ops :: "('k \<Rightarrow> bool) \<Rightarrow> ('k \<Rightarrow> 'v option option) \<Rightarrow> ('k, 'v) tbl_op list \<Rightarrow> bool" where
  "legal_ops valid m [] \<longleftrightarrow> True"
| "legal_ops valid m (Enter k v # ops) \<longleftrightarrow> valid k \<and> m k = None \<and> legal_ops valid (map_op m (Enter k v)) ops"
| "legal_ops valid m (Delete k # ops) \<longleftrightarrow> m k \<noteq> None \<and> legal_ops valid (map_op m (Delete k)) ops"

fun run_ops :: "('t \<Rightarrow> 'k \<Rightarrow> 'v option \<Rightarrow> ('t \<times> nat) outcome) \<Rightarrow> ('t \<Rightarrow> 'k \<Rightarrow> ('t \<times> 'c) outcome) \<Rightarrow>
    't \<Rightarrow> ('k, 'v) tbl_op list \<Rightarrow> 't outcome" where
  "run_ops enter delete t [] = Ok t"
| "run_ops enter delete t (Enter k v # ops) = obind (enter t k v) (\<lambda>(t, _). run_ops enter delete t ops)"
| "run_ops enter delete t (Delete k # ops) = obind (delete t k) (\<lambda>(t, _). run_ops enter delete t ops)"

locale lookup_table =
  fixes rep :: "'t \<Rightarrow> ('k \<Rightarrow> 'v option option) \<Rightarrow> bool"
    and valid :: "'k \<Rightarrow> bool"
    and enter :: "'t \<Rightarrow> 'k \<Rightarrow> 'v option \<Rightarrow> ('t \<times> nat) outcome"
    and find_value :: "'t \<Rightarrow> 'k \<Rightarrow> 'v option outcome"
    and delete :: "'t \<Rightarrow> 'k \<Rightarrow> ('t \<times> 'c) outcome"
  assumes find_law: "rep t m \<Longrightarrow> find_value t k = Ok (case m k of None \<Rightarrow> None | Some v \<Rightarrow> v)"
    and enter_law: "rep t m \<Longrightarrow> valid k \<Longrightarrow> m k = None \<Longrightarrow> returns (enter t k v) (\<lambda>(t, _). rep t (m(k \<mapsto> v)))"
    and delete_law: "rep t m \<Longrightarrow> m k \<noteq> None \<Longrightarrow> returns (delete t k) (\<lambda>(t, _). rep t (m(k := None)))"
begin

lemma run_ops_ok:
  "rep t m \<Longrightarrow> legal_ops valid m ops \<Longrightarrow> returns (run_ops enter delete t ops) (\<lambda>t. rep t (foldl map_op m ops))"
proof (induction ops arbitrary: t m)
  case (Cons op ops)
  show ?case
  proof (cases op)
    case (Enter k v)
    have "returns (enter t k v) (\<lambda>(t, _). rep t (m(k \<mapsto> v)))" using enter_law Cons.prems Enter by simp
    then show ?thesis using Cons.IH Cons.prems Enter by (auto intro!: returns_bind)
  next
    case (Delete k)
    have "returns (delete t k) (\<lambda>(t, _). rep t (m(k := None)))" using delete_law Cons.prems Delete by simp
    then show ?thesis using Cons.IH Cons.prems Delete by (auto intro!: returns_bind)
  qed
qed simp

end

section \<open>Both tables meet it\<close>

interpretation ht: chained htable_hash
  by unfold_locales (simp add: htable_hash_def)

interpretation bh: chained binhash_hash
  by unfold_locales (simp add: binhash_hash_def)

definition htable_rep :: "'v htable \<Rightarrow> (string \<Rightarrow> 'v option option) \<Rightarrow> bool" where
  "htable_rep = represents htable_hash"

definition binhash_rep :: "'v binhash \<Rightarrow> (char list \<Rightarrow> 'v option option) \<Rightarrow> bool" where
  "binhash_rep = represents binhash_hash"

lemma htable_delete_ok:
  assumes "htable_rep t m" "m k \<noteq> None"
  shows "returns (htable_delete t k fn) (\<lambda>(t, _). htable_rep t (m(k := None)))"
  using ht.delete_ok(2) [of t m k "the (m k)" "''htable_delete: unknown_key''"] assms
  by (auto simp: htable_rep_def htable_delete_def returns_def)

interpretation htable: lookup_table htable_rep "\<lambda>_. True" htable_enter htable_find "\<lambda>t k. htable_delete t k fn"
proof
  fix t :: "'v htable" and m k v
  assume m: "htable_rep t m"
  show "htable_find t k = Ok (case m k of None \<Rightarrow> None | Some v \<Rightarrow> v)"
    using ht.find_ok m by (simp add: htable_rep_def htable_find_def)
  show "returns (htable_enter t k v) (\<lambda>(t, _). htable_rep t (m(k \<mapsto> v)))" if "m k = None"
    using ht.enter_ok [of t m k v] m that by (auto simp: htable_rep_def htable_enter_def returns_def)
  show "returns (htable_delete t k fn) (\<lambda>(t, _). htable_rep t (m(k := None)))" if "m k \<noteq> None"
    using m that by (rule htable_delete_ok)
qed

lemma binhash_enter_eq: "key \<noteq> [] \<Longrightarrow> binhash_enter t key v = tbl_enter binhash_hash t key v"
  by (simp add: binhash_enter_def tbl_enter_def binhash_grow_def)

interpretation binhash: lookup_table binhash_rep "\<lambda>k. k \<noteq> []" binhash_enter binhash_find "\<lambda>t k. binhash_delete t k fn"
proof
  fix t :: "'v binhash" and m k v
  assume m: "binhash_rep t m"
  show "binhash_find t k = Ok (case m k of None \<Rightarrow> None | Some v \<Rightarrow> v)"
    using bh.find_ok m by (simp add: binhash_rep_def binhash_find_def)
  show "returns (binhash_enter t k v) (\<lambda>(t, _). binhash_rep t (m(k \<mapsto> v)))" if "k \<noteq> []" "m k = None"
    using bh.enter_ok [of t m k v] m that by (auto simp: binhash_rep_def binhash_enter_eq returns_def)
  show "returns (binhash_delete t k fn) (\<lambda>(t, _). binhash_rep t (m(k := None)))" if "m k \<noteq> None"
    using bh.delete_ok(2) [of t m k "the (m k)" "''binhash_delete: unknown_key''"] m that
    by (auto simp: binhash_rep_def binhash_delete_def returns_def)
qed

lemma htable_create_rep: "htable_rep (htable_create sz) (\<lambda>_. None)"
  unfolding htable_rep_def htable_create_def htable_size_def by (rule ht.create_ok) simp

lemma binhash_create_rep: "binhash_rep (binhash_create sz) (\<lambda>_. None)"
  unfolding binhash_rep_def binhash_create_def by (rule bh.create_ok) simp

lemma htable_used: "htable_rep t m \<Longrightarrow> ht_used t = card (dom m)" "htable_rep t m \<Longrightarrow> card (dom m) \<le> ht_size t"
  unfolding htable_rep_def using ht.used_card by metis+

lemma binhash_used: "binhash_rep t m \<Longrightarrow> ht_used t = card (dom m)" "binhash_rep t m \<Longrightarrow> card (dom m) \<le> ht_size t"
  unfolding binhash_rep_def using bh.used_card by metis+

section \<open>The iterator\<close>

text \<open>
  The loop of its users: start with \<open>HTABLE_SEQ_FIRST\<close> and continue until the null
  result. The bound \<open>n\<close> is the number of calls; \<open>used + 1\<close> calls suffice.
\<close>

fun seq_loop :: "nat \<Rightarrow> 'v htable \<Rightarrow> seq_how \<Rightarrow> (nat list \<times> 'v htable) outcome" where
  "seq_loop 0 t how = Diverge"
| "seq_loop (Suc n) t how =
     obind (htable_sequence t how) (\<lambda>(t, e).
     case e of
       None \<Rightarrow> Ok ([], t)
     | Some a \<Rightarrow> obind (seq_loop n t HTABLE_SEQ_NEXT) (\<lambda>(as, t). Ok (a # as, t)))"

lemma seq_loop_next:
  "ht_seq_bucket t = Some list \<Longrightarrow> ht_seq_element t \<le> length list \<Longrightarrow> length list - ht_seq_element t < n \<Longrightarrow>
     \<exists>t'. seq_loop n t HTABLE_SEQ_NEXT = Ok (drop (ht_seq_element t) list, t') \<and>
       ht_seq_bucket t' = None \<and> ht_heap t' = ht_heap t"
proof (induction n arbitrary: t)
  case (Suc n)
  show ?case
  proof (cases "ht_seq_element t < length list")
    case True
    let ?t = "t\<lparr>ht_seq_element := ht_seq_element t + 1\<rparr>"
    have "\<exists>t'. seq_loop n ?t HTABLE_SEQ_NEXT = Ok (drop (ht_seq_element ?t) list, t') \<and>
        ht_seq_bucket t' = None \<and> ht_heap t' = ht_heap ?t"
      by (rule Suc.IH) (use Suc.prems True in auto)
    then show ?thesis using Suc.prems True by (auto simp: seq_read_def Cons_nth_drop_Suc)
  qed (use Suc.prems in \<open>auto simp: seq_read_def seq_stop_def\<close>)
qed simp

lemma seq_loop_first:
  assumes "htable_list t = Ok list" "list \<noteq> []" "length list < n"
  shows "\<exists>t'. seq_loop n t HTABLE_SEQ_FIRST = Ok (list, t') \<and> ht_seq_bucket t' = None \<and> ht_heap t' = ht_heap t"
proof -
  obtain a as where list: "list = a # as" using assms(2) by (cases list) auto
  obtain k where n: "n = Suc k" using assms(3) by (cases n) auto
  let ?t = "t\<lparr>ht_seq_bucket := Some list, ht_seq_element := 1\<rparr>"
  have "\<exists>t'. seq_loop k ?t HTABLE_SEQ_NEXT = Ok (drop (ht_seq_element ?t) list, t') \<and>
      ht_seq_bucket t' = None \<and> ht_heap t' = ht_heap ?t"
    by (rule seq_loop_next) (use assms n list in auto)
  then show ?thesis using assms n list by (auto simp: seq_read_def)
qed

section \<open>Properties\<close>

text \<open>
  C3: The hash table refines a finite map. After any sequence of entering new keys and
  deleting present ones, starting from a created table, the table is intact (chains,
  back links, hash classes and counters), a lookup returns what the map holds, \<open>used\<close> is
  the number of keys, and at most \<open>size\<close>, however often the table grew.
\<close>

theorem htable_refines_map:
  assumes "legal_ops (\<lambda>_. True) (\<lambda>_. None) ops"
  shows "returns (run_ops htable_enter (\<lambda>t k. htable_delete t k fn) (htable_create sz) ops) (\<lambda>t.
    let m = foldl map_op (\<lambda>_. None) ops in
    htable_rep t m \<and> (\<forall>k. htable_find t k = Ok (case m k of None \<Rightarrow> None | Some v \<Rightarrow> v)) \<and>
    ht_used t = card (dom m) \<and> ht_used t \<le> ht_size t)"
  using htable.run_ops_ok [OF htable_create_rep assms, of fn sz]
  by (rule returns_mono) (auto simp: Let_def htable.find_law htable_used)

theorem htable_refines_map_witness:
  "returns (run_ops htable_enter (\<lambda>t k. htable_delete t k True) (htable_create 0)
     [Enter ''a'' (Some (1::nat)), Enter ''b'' None, Delete ''a'']) (\<lambda>t.
    let m = foldl map_op (\<lambda>_. None) [Enter ''a'' (Some (1::nat)), Enter ''b'' None, Delete ''a''] in
    htable_rep t m \<and> (\<forall>k. htable_find t k = Ok (case m k of None \<Rightarrow> None | Some v \<Rightarrow> v)) \<and>
    ht_used t = card (dom m) \<and> ht_used t \<le> ht_size t)"
  by (rule htable_refines_map) simp

text \<open>
  C29: The same for binary keys, which must not be empty.
\<close>

theorem binhash_refines_map:
  assumes "legal_ops (\<lambda>k. k \<noteq> []) (\<lambda>_. None) ops"
  shows "returns (run_ops binhash_enter (\<lambda>t k. binhash_delete t k fn) (binhash_create sz) ops) (\<lambda>t.
    let m = foldl map_op (\<lambda>_. None) ops in
    binhash_rep t m \<and> (\<forall>k. binhash_find t k = Ok (case m k of None \<Rightarrow> None | Some v \<Rightarrow> v)) \<and>
    ht_used t = card (dom m) \<and> ht_used t \<le> ht_size t)"
  using binhash.run_ops_ok [OF binhash_create_rep assms, of fn sz]
  by (rule returns_mono) (auto simp: Let_def binhash.find_law binhash_used)

theorem binhash_refines_map_witness:
  "returns (run_ops binhash_enter (\<lambda>t k. binhash_delete t k True) (binhash_create 0)
     [Enter [NUL] (Some (1::nat)), Delete [NUL]]) (\<lambda>t.
    let m = foldl map_op (\<lambda>_. None) [Enter [NUL] (Some (1::nat)), Delete [NUL]] in
    binhash_rep t m \<and> (\<forall>k. binhash_find t k = Ok (case m k of None \<Rightarrow> None | Some v \<Rightarrow> v)) \<and>
    ht_used t = card (dom m) \<and> ht_used t \<le> ht_size t)"
  by (rule binhash_refines_map) simp

text \<open>
  \<open>nvtable_update\<close> sets the value of a key, whether or not the key is present, and keeps
  the table intact.
\<close>

lemma nvtable_update_sets:
  assumes "htable_rep t m"
  shows "returns (nvtable_update t key value) (\<lambda>(t, a). htable_rep t (m(key \<mapsto> Some value)) \<and>
    keyval (ht_heap t) a = Some (key, Some value))"
proof -
  have upd: "htable_rep (t\<lparr>ht_heap := (ht_heap t)(a \<mapsto> n\<lparr>hn_value := Some value\<rparr>)\<rparr>) (m(key \<mapsto> Some value))"
    if "htable_rep t m" "ht_heap t a = Some n" "hn_key n = key" "htable_locate t key = Ok (Some a)" for t :: "string htable" and m a n
    using ht.set_value_ok [of t m a n "Some value"] that by (simp add: htable_rep_def htable_locate_def)
  show ?thesis
  proof (cases "m key")
    case None
    have loc: "htable_locate t key = Ok None"
      using ht.locate_ok(1) [of t m key] assms None by (simp add: htable_rep_def htable_locate_def)
    obtain t1 a where e: "htable_enter t key None = Ok (t1, a)" "htable_rep t1 (m(key \<mapsto> None))"
      "keyval (ht_heap t1) = (keyval (ht_heap t))(a \<mapsto> (key, None))"
      using ht.enter_ok [of t m key None] assms None by (auto simp: htable_rep_def htable_enter_def)
    obtain b where b: "htable_locate t1 key = Ok (Some b)" "keyval (ht_heap t1) b = Some (key, None)"
      using ht.locate_ok(2) [of t1 "m(key \<mapsto> None)" key None] e(2) by (auto simp: htable_rep_def htable_locate_def)
    have "b = a" by (rule ht.unique_key [OF e(2) [unfolded htable_rep_def] b(2)]) (simp add: e(3))
    obtain n where n: "ht_heap t1 a = Some n" "hn_key n = key" using b(2) \<open>b = a\<close> by (auto simp: keyval_def)
    have "htable_rep (t1\<lparr>ht_heap := (ht_heap t1)(a \<mapsto> n\<lparr>hn_value := Some value\<rparr>)\<rparr>) (m(key \<mapsto> Some value))"
      using upd [OF e(2) n] b(1) \<open>b = a\<close> by simp
    then show ?thesis using loc e(1) n by (simp add: nvtable_update_def node_at_def keyval_def)
  next
    case (Some v)
    then obtain a where a: "htable_locate t key = Ok (Some a)" "keyval (ht_heap t) a = Some (key, v)"
      using ht.locate_ok(2) [of t m key v] assms by (auto simp: htable_rep_def htable_locate_def)
    then obtain n where n: "ht_heap t a = Some n" "hn_key n = key" by (auto simp: keyval_def)
    then show ?thesis using upd [OF assms n a(1)] a(1) by (simp add: nvtable_update_def node_at_def keyval_def)
  qed
qed

text \<open>
  C30: Iterating with \<open>htable_sequence\<close> over a table that is not empty visits every entry
  exactly once within \<open>used + 1\<close> calls and leaves no sequence behind.
\<close>

theorem htable_sequence_visits_all:
  assumes "htable_rep t m" "m \<noteq> (\<lambda>_. None)"
  shows "\<exists>as t'. seq_loop (ht_used t + 1) t HTABLE_SEQ_FIRST = Ok (as, t') \<and> distinct as \<and>
    (\<forall>k v. m k = Some v \<longleftrightarrow> (\<exists>!a. a \<in> set as \<and> keyval (ht_heap t) a = Some (k, v))) \<and>
    ht_seq_bucket t' = None \<and> ht_heap t' = ht_heap t"
proof -
  obtain as where as: "htable_list t = Ok as" "distinct as" "length as = ht_used t"
    "\<forall>k v. m k = Some v \<longleftrightarrow> (\<exists>!a. a \<in> set as \<and> keyval (ht_heap t) a = Some (k, v))"
    using ht.list_ok [OF assms(1) [unfolded htable_rep_def]] by (auto simp: htable_list_def)
  have "as \<noteq> []"
  proof
    assume "as = []"
    then have "m k = None" for k using as(4) by (cases "m k") auto
    then show False using assms(2) by auto
  qed
  from seq_loop_first [OF as(1) this, of "ht_used t + 1"] as show ?thesis by auto
qed

text \<open>A table with one entry.\<close>

definition one_entry :: "string htable" where
  "one_entry = (case htable_enter (htable_create 0) ''k'' (Some ''v'') of Ok (t, _) \<Rightarrow> t | _ \<Rightarrow> undefined)"

lemma one_entry_rep: "htable_rep one_entry [''k'' \<mapsto> Some ''v'']"
  using htable.enter_law [OF htable_create_rep [of 0], where k = "''k''" and v = "Some ''v''"]
  by (auto simp: one_entry_def elim!: returnsE)

theorem htable_sequence_visits_all_witness:
  "\<exists>as t'. seq_loop (ht_used one_entry + 1) one_entry HTABLE_SEQ_FIRST = Ok (as, t') \<and> distinct as \<and>
    (\<forall>k v. [''k'' \<mapsto> Some ''v''] k = Some v \<longleftrightarrow> (\<exists>!a. a \<in> set as \<and> keyval (ht_heap one_entry) a = Some (k, v))) \<and>
    ht_seq_bucket t' = None \<and> ht_heap t' = ht_heap one_entry"
  by (rule htable_sequence_visits_all [OF one_entry_rep]) (metis map_upd_nonempty)

text \<open>
  Continuing a sequence that was started on an empty table reads behind the end of its
  one-element array: \<open>HTABLE_SEQ_FIRST\<close> steps over the null pointer that ends it.
\<close>

lemma empty_sequence_overrun:
  assumes "htable_rep t (\<lambda>_. None)"
  shows "\<exists>t'. htable_sequence t HTABLE_SEQ_FIRST = Ok (t', None) \<and> htable_sequence t' HTABLE_SEQ_NEXT = Fault"
proof -
  obtain as where as: "htable_list t = Ok as" "length as = ht_used t"
    using ht.list_ok [OF assms [unfolded htable_rep_def]] by (auto simp: htable_list_def)
  moreover have "ht_used t = 0" using htable_used(1) [OF assms] by simp
  ultimately show ?thesis by (simp add: seq_read_def)
qed

end
