(* ===== verification/Ctable.thy ===== *)
theory Ctable
  imports Ring Htable
begin

text \<open>
  The cache manager of \<open>src/util/ctable.c\<close>: a hash table from keys to entries, and a ring
  that keeps the entries in most-recently-used order.

  An entry and the ring node embedded in it have the same address; the ring head of the cache
  itself is the node 0. The application context is a state that the constructor and the
  destructor may change. The theorems show that the cache is the list of its pairs in
  most-recently-used order, under the four list operations of an LRU cache.
\<close>

section \<open>The cache\<close>

record ('v, 'c) ctable =
  ct_table :: "nat htable"
  ct_limit :: nat
  ct_used :: nat
  ct_ring :: rings
  ct_key :: "nat \<Rightarrow> string"
  ct_value :: "nat \<Rightarrow> 'v"
  ct_brk :: nat
  ct_context :: 'c

text \<open>\<open>ct_key\<close> and \<open>ct_value\<close> are the fields of the entries, \<open>ct_brk\<close> the next free address.\<close>

abbreviation (input) HEAD :: nat where
  "HEAD \<equiv> 0"

definition CTABLE_MIN_SIZE :: nat where
  "CTABLE_MIN_SIZE = 5"

type_synonym ('v, 'c) create_fn = "string \<Rightarrow> 'c \<Rightarrow> 'v \<times> 'c"
type_synonym ('v, 'c) delete_fn = "'v \<Rightarrow> 'c \<Rightarrow> 'c"

definition ctable_create :: "int \<Rightarrow> 'c \<Rightarrow> ('v, 'c) ctable outcome" where
  "ctable_create limit context =
     (if limit < 1 then Panic ''ctable_create: bad cache limit''
      else Ok \<lparr>ct_table = htable_create limit,
               ct_limit = (if limit < int CTABLE_MIN_SIZE then CTABLE_MIN_SIZE else nat limit),
               ct_used = 0,
               ct_ring = ring_init \<lparr>rg_succ = (\<lambda>_. None), rg_pred = (\<lambda>_. None)\<rparr> HEAD,
               ct_key = (\<lambda>_. []), ct_value = (\<lambda>_. undefined), ct_brk = 1, ct_context = context\<rparr>)"

text \<open>The calls of the two callbacks on the cache's context.\<close>

definition call_delete :: "('v, 'c) delete_fn \<Rightarrow> ('v, 'c) ctable \<Rightarrow> nat \<Rightarrow> ('v, 'c) ctable" where
  "call_delete delete cache entry = cache\<lparr>ct_context := delete (ct_value cache entry) (ct_context cache)\<rparr>"

definition call_create :: "('v, 'c) create_fn \<Rightarrow> ('v, 'c) ctable \<Rightarrow> nat \<Rightarrow> string \<Rightarrow> ('v, 'c) ctable" where
  "call_create create cache entry key =
     (let (v, c) = create key (ct_context cache)
      in cache\<lparr>ct_value := (ct_value cache)(entry := v), ct_context := c\<rparr>)"

text \<open>Room for a new entry: the least recently used one is purged when the cache is full.\<close>

definition ctable_room :: "('v, 'c) delete_fn \<Rightarrow> ('v, 'c) ctable \<Rightarrow> (('v, 'c) ctable \<times> nat) outcome" where
  "ctable_room delete cache =
     (if ct_used cache \<ge> ct_limit cache then
        obind (deref (ring_pred (ct_ring cache) HEAD)) (\<lambda>entry.
        obind (ring_detach (ct_ring cache) entry) (\<lambda>ring.
        let cache = call_delete delete (cache\<lparr>ct_ring := ring\<rparr>) entry in
        obind (htable_delete (ct_table cache) (ct_key cache entry) False) (\<lambda>(table, _).
        Ok (cache\<lparr>ct_table := table\<rparr>, entry))))
      else Ok (cache\<lparr>ct_used := ct_used cache + 1, ct_brk := ct_brk cache + 1\<rparr>, ct_brk cache))"

definition move_front :: "('v, 'c) ctable \<Rightarrow> nat \<Rightarrow> ('v, 'c) ctable outcome" where
  "move_front cache entry =
     obind (ring_detach (ct_ring cache) entry) (\<lambda>ring.
     obind (ring_append ring HEAD entry) (\<lambda>ring. Ok (cache\<lparr>ct_ring := ring\<rparr>)))"

definition ctable_locate ::
  "('v, 'c) create_fn \<Rightarrow> ('v, 'c) delete_fn \<Rightarrow> ('v, 'c) ctable \<Rightarrow> string \<Rightarrow> (('v, 'c) ctable \<times> 'v) outcome" where
  "ctable_locate create delete cache key =
     obind (htable_find (ct_table cache) key) (\<lambda>found.
     case found of
       None \<Rightarrow>
         obind (ctable_room delete cache) (\<lambda>(cache, entry).
         let cache = call_create create cache entry key in
         obind (htable_enter (ct_table cache) key (Some entry)) (\<lambda>(table, _).
         let cache = cache\<lparr>ct_table := table, ct_key := (ct_key cache)(entry := key)\<rparr> in
         obind (ring_append (ct_ring cache) HEAD entry) (\<lambda>ring.
         Ok (cache\<lparr>ct_ring := ring\<rparr>, ct_value cache entry))))
     | Some entry \<Rightarrow>
         obind (if Some entry = ring_succ (ct_ring cache) HEAD then Ok cache else move_front cache entry) (\<lambda>cache.
         Ok (cache, ct_value cache entry)))"

definition ctable_refresh ::
  "('v, 'c) create_fn \<Rightarrow> ('v, 'c) delete_fn \<Rightarrow> ('v, 'c) ctable \<Rightarrow> string \<Rightarrow> (('v, 'c) ctable \<times> 'v) outcome" where
  "ctable_refresh create delete cache key =
     obind (htable_find (ct_table cache) key) (\<lambda>found.
     case found of
       None \<Rightarrow> ctable_locate create delete cache key
     | Some entry \<Rightarrow>
         let cache = call_create create (call_delete delete cache entry) entry key in
         obind (if Some entry \<noteq> ring_succ (ct_ring cache) HEAD then move_front cache entry else Ok cache) (\<lambda>cache.
         Ok (cache, ct_value cache entry)))"

definition ctable_newcontext :: "('v, 'c) ctable \<Rightarrow> 'c \<Rightarrow> ('v, 'c) ctable" where
  "ctable_newcontext cache context = cache\<lparr>ct_context := context\<rparr>"

text \<open>\<open>ctable_free\<close> calls the destructor for every entry, in the order of \<open>htable_free\<close>.\<close>

definition ctable_free :: "('v, 'c) delete_fn \<Rightarrow> ('v, 'c) ctable \<Rightarrow> 'c outcome" where
  "ctable_free delete cache =
     obind (htable_free (ct_table cache) True) (\<lambda>entries.
     Ok (foldl (\<lambda>c entry. delete (ct_value cache entry) c) (ct_context cache) entries))"

partial_function (option) ring_walk ::
  "(nat \<Rightarrow> 's \<Rightarrow> 's) \<Rightarrow> rings \<Rightarrow> nat \<Rightarrow> 's \<Rightarrow> 's outcome option" where
  "ring_walk action h entry s =
     (case ring_succ h entry of
        None \<Rightarrow> Some Fault
      | Some e \<Rightarrow> if e = HEAD then Some (Ok s) else ring_walk action h e (action e s))"

definition ctable_walk :: "('v, 'c) ctable \<Rightarrow> (string \<Rightarrow> 'v \<Rightarrow> 's \<Rightarrow> 's) \<Rightarrow> 's \<Rightarrow> 's outcome" where
  "ctable_walk cache action s =
     run (ring_walk (\<lambda>e. action (ct_key cache e) (ct_value cache e)) (ct_ring cache) HEAD s)"

section \<open>The abstract cache\<close>

text \<open>The pairs in most-recently-used order, with the context.\<close>

definition lru_locate ::
  "nat \<Rightarrow> ('v, 'c) create_fn \<Rightarrow> ('v, 'c) delete_fn \<Rightarrow> (string \<times> 'v) list \<times> 'c \<Rightarrow> string \<Rightarrow> ((string \<times> 'v) list \<times> 'c) \<times> 'v" where
  "lru_locate limit create delete = (\<lambda>(kvs, c) key.
     case map_of kvs key of
       Some v \<Rightarrow> (((key, v) # filter (\<lambda>kv. fst kv \<noteq> key) kvs, c), v)
     | None \<Rightarrow>
         let full = length kvs \<ge> limit;
             c = (if full then delete (snd (last kvs)) c else c);
             kvs = (if full then butlast kvs else kvs);
             (v, c) = create key c
         in (((key, v) # kvs, c), v))"

definition lru_refresh ::
  "nat \<Rightarrow> ('v, 'c) create_fn \<Rightarrow> ('v, 'c) delete_fn \<Rightarrow> (string \<times> 'v) list \<times> 'c \<Rightarrow> string \<Rightarrow> ((string \<times> 'v) list \<times> 'c) \<times> 'v" where
  "lru_refresh limit create delete = (\<lambda>(kvs, c) key.
     case map_of kvs key of
       Some old \<Rightarrow>
         let (v, c) = create key (delete old c)
         in (((key, v) # filter (\<lambda>kv. fst kv \<noteq> key) kvs, c), v)
     | None \<Rightarrow> lru_locate limit create delete (kvs, c) key)"

text \<open>The cache with the addresses of its entries in ring order.\<close>

definition ct_inv :: "('v, 'c) ctable \<Rightarrow> nat list \<Rightarrow> bool" where
  "ct_inv cache as \<longleftrightarrow>
     ring_holds (ct_ring cache) HEAD as \<and> length as = ct_used cache \<and>
     ct_used cache \<le> ct_limit cache \<and> 0 < ct_limit cache \<and>
     (\<forall>a \<in> set as. a < ct_brk cache) \<and> HEAD < ct_brk cache \<and>
     distinct (map (ct_key cache) as) \<and>
     htable_rep (ct_table cache) (map_of (map (\<lambda>a. (ct_key cache a, Some a)) as))"

definition ct_pairs :: "('v, 'c) ctable \<Rightarrow> nat list \<Rightarrow> (string \<times> 'v) list" where
  "ct_pairs cache as = map (\<lambda>a. (ct_key cache a, ct_value cache a)) as"

definition ct_rep :: "('v, 'c) ctable \<Rightarrow> (string \<times> 'v) list \<times> 'c \<Rightarrow> bool" where
  "ct_rep cache kc \<longleftrightarrow> (\<exists>as. ct_inv cache as \<and> fst kc = ct_pairs cache as \<and> snd kc = ct_context cache)"

section \<open>Refinement\<close>

lemma map_of_find: "map_of (map (\<lambda>a. (f a, g a)) as) k = map_option g (find (\<lambda>a. f a = k) as)"
  by (induction as) auto

lemma map_of_snoc_delete:
  assumes "f e \<notin> f ` set bs"
  shows "(map_of (map (\<lambda>a. (f a, g a)) (bs @ [e])))(f e := None) = map_of (map (\<lambda>a. (f a, g a)) bs)"
  using assms by (induction bs) (auto simp: fun_upd_twist)

lemma find_split: "find P as = Some e \<Longrightarrow> \<exists>xs ys. as = xs @ e # ys \<and> P e"
  by (induction as) (auto split: if_splits intro: exI [of _ "[]"], metis append_Cons)

lemma ct_find:
  assumes "ct_inv cache as"
  shows "htable_find (ct_table cache) key = Ok (find (\<lambda>a. ct_key cache a = key) as)"
proof -
  have "htable_rep (ct_table cache) (map_of (map (\<lambda>a. (ct_key cache a, Some a)) as))" using assms by (simp add: ct_inv_def)
  from htable.find_law [OF this, of key] show ?thesis
    by (cases "find (\<lambda>a. ct_key cache a = key) as") (simp_all add: map_of_find)
qed

lemma ct_pairs_find: "map_of (ct_pairs cache as) key = map_option (ct_value cache) (find (\<lambda>a. ct_key cache a = key) as)"
  by (simp add: ct_pairs_def map_of_find)

text \<open>Bringing an entry to the front of the ring keeps the invariant.\<close>

lemma move_front_ok:
  assumes "ct_inv cache (xs @ e # ys)"
  shows "\<exists>ring. move_front cache e = Ok (cache\<lparr>ct_ring := ring\<rparr>) \<and> ct_inv (cache\<lparr>ct_ring := ring\<rparr>) (e # xs @ ys)"
proof -
  have ring: "ring_holds (ct_ring cache) HEAD (xs @ e # ys)" using assms by (simp add: ct_inv_def)
  obtain r1 where r1: "ring_detach (ct_ring cache) e = Ok r1" "ring_holds r1 HEAD (xs @ ys)"
    using ring_detach_ok [OF ring] by blast
  have "e \<notin> set (HEAD # xs @ ys)" using ring by (auto simp: ring_holds_def)
  then obtain r2 where r2: "ring_append r1 HEAD e = Ok r2" "ring_holds r2 HEAD (e # xs @ ys)"
    using ring_append_ok [OF r1(2)] by blast
  let ?kv = "\<lambda>a. (ct_key cache a, Some a)"
  have d: "distinct (map (ct_key cache) (xs @ e # ys))" using assms by (simp add: ct_inv_def)
  have "map_of (map ?kv (e # xs @ ys)) = map_of (map ?kv (xs @ e # ys))"
    by (subst map_of_inject_set) (use d in \<open>auto simp: comp_def\<close>)
  then have "ct_inv (cache\<lparr>ct_ring := r2\<rparr>) (e # xs @ ys)" using assms r2(2) by (auto simp: ct_inv_def)
  then show ?thesis using r1(1) r2(1) by (auto simp: move_front_def)
qed

lemma front_entry:
  assumes "ct_inv cache (xs @ e # ys)"
  shows "Some e = ring_succ (ct_ring cache) HEAD \<longleftrightarrow> xs = []"
proof -
  have ring: "ring_holds (ct_ring cache) HEAD (xs @ e # ys)" using assms by (simp add: ct_inv_def)
  then have "distinct (xs @ e # ys)" by (simp add: ring_holds_def)
  then show ?thesis using ring_first [OF ring] by (cases xs) auto
qed

lemma touch_ok:
  assumes "ct_inv cache (xs @ e # ys)"
  shows "\<exists>ring. (if Some e = ring_succ (ct_ring cache) HEAD then Ok cache else move_front cache e) = Ok (cache\<lparr>ct_ring := ring\<rparr>) \<and>
    ct_inv (cache\<lparr>ct_ring := ring\<rparr>) (e # xs @ ys)"
proof (cases "xs = []")
  case True
  then show ?thesis using assms front_entry [OF assms] by (intro exI [of _ "ct_ring cache"]) simp
next
  case False
  then show ?thesis using move_front_ok [OF assms] front_entry [OF assms] by auto
qed

lemma pairs_front:
  assumes "distinct (map f (xs @ e # ys))"
  shows "filter (\<lambda>kv. fst kv \<noteq> f e) (map (\<lambda>a. (f a, g a)) (xs @ e # ys)) = map (\<lambda>a. (f a, g a)) (xs @ ys)"
proof -
  have "\<forall>a \<in> set (xs @ ys). f a \<noteq> f e" using assms by (auto simp: image_iff)
  then show ?thesis by (auto simp: filter_map comp_def intro!: filter_True)
qed

lemma room_ok:
  assumes inv: "ct_inv cache as"
  shows "\<exists>cache' e bs. ctable_room delete cache = Ok (cache', e) \<and>
    bs = (if length as \<ge> ct_limit cache then butlast as else as) \<and>
    ct_context cache' = (if length as \<ge> ct_limit cache then delete (ct_value cache (last as)) (ct_context cache) else ct_context cache) \<and>
    ct_key cache' = ct_key cache \<and> ct_value cache' = ct_value cache \<and> ct_limit cache' = ct_limit cache \<and>
    ring_holds (ct_ring cache') HEAD bs \<and> e \<notin> set (HEAD # bs) \<and> Suc (length bs) = ct_used cache' \<and>
    ct_used cache' \<le> ct_limit cache \<and> (\<forall>a \<in> set (e # bs). a < ct_brk cache') \<and>
    htable_rep (ct_table cache') (map_of (map (\<lambda>a. (ct_key cache a, Some a)) bs))"
proof (cases "length as \<ge> ct_limit cache")
  case True
  let ?kv = "\<lambda>a. (ct_key cache a, Some a)"
  have props: "ring_holds (ct_ring cache) HEAD as" "length as = ct_used cache" "ct_used cache \<le> ct_limit cache"
    "0 < ct_limit cache" "\<forall>a \<in> set as. a < ct_brk cache" "distinct (map (ct_key cache) as)"
    "htable_rep (ct_table cache) (map_of (map ?kv as))" using inv by (auto simp: ct_inv_def)
  then obtain bs e where as: "as = bs @ [e]" using True by (metis append_butlast_last_id leD list.size(3))
  have "ring_pred (ct_ring cache) HEAD = Some e" using ring_last [OF props(1)] as by simp
  moreover obtain r where r: "ring_detach (ct_ring cache) e = Ok r" "ring_holds r HEAD bs"
    using ring_detach_ok [of "ct_ring cache" HEAD bs e "[]"] props(1) as by auto
  moreover have new: "e \<notin> set (HEAD # bs)" using props(1) as by (auto simp: ring_holds_def)
  have ke: "ct_key cache e \<notin> ct_key cache ` set bs" using props(6) as by auto
  have m: "(map_of (map ?kv as))(ct_key cache e := None) = map_of (map ?kv bs)"
    unfolding as by (rule map_of_snoc_delete [OF ke])
  have "map_of (map ?kv as) (ct_key cache e) \<noteq> None" using as by (simp add: map_of_eq_None_iff)
  then obtain t c where t: "htable_delete (ct_table cache) (ct_key cache e) False = Ok (t, c)"
    "htable_rep t (map_of (map ?kv bs))"
    using htable_delete_ok [OF props(7), of "ct_key cache e" False] m by (auto elim!: returnsE)
  ultimately have "ctable_room delete cache = Ok (call_delete delete cache e\<lparr>ct_ring := r, ct_table := t\<rparr>, e)"
    using True props(2) by (simp add: ctable_room_def deref_def call_delete_def)
  then show ?thesis using True props r t new as by (auto simp: call_delete_def)
next
  case False
  then show ?thesis using inv by (auto simp: ctable_room_def ct_inv_def less_Suc_eq)
qed

lemma locate_hit:
  assumes inv: "ct_inv cache as" and Some: "find (\<lambda>a. ct_key cache a = key) as = Some e"
  shows "\<exists>ring. ctable_locate create delete cache key = Ok (cache\<lparr>ct_ring := ring\<rparr>, ct_value cache e) \<and>
    ct_rep (cache\<lparr>ct_ring := ring\<rparr>) (fst (lru_locate (ct_limit cache) create delete (ct_pairs cache as, ct_context cache) key)) \<and>
    ct_value cache e = snd (lru_locate (ct_limit cache) create delete (ct_pairs cache as, ct_context cache) key)"
proof -
  obtain xs ys where as: "as = xs @ e # ys" and k: "ct_key cache e = key" using find_split [OF Some] by blast
  obtain ring where r: "(if Some e = ring_succ (ct_ring cache) HEAD then Ok cache else move_front cache e) = Ok (cache\<lparr>ct_ring := ring\<rparr>)"
    "ct_inv (cache\<lparr>ct_ring := ring\<rparr>) (e # xs @ ys)" using touch_ok inv as by blast
  have "distinct (map (ct_key cache) (xs @ e # ys))" using inv as by (simp add: ct_inv_def)
  from pairs_front [OF this, of "ct_value cache"] k
  have "(key, ct_value cache e) # filter (\<lambda>kv. fst kv \<noteq> key) (ct_pairs cache as) = ct_pairs (cache\<lparr>ct_ring := ring\<rparr>) (e # xs @ ys)"
    by (simp add: ct_pairs_def as)
  then show ?thesis using r Some
    by (auto simp: ctable_locate_def ct_find [OF inv] lru_locate_def ct_pairs_find ct_rep_def)
qed

text \<open>The list that stands for the cache, when the key is missing: the last entry makes room if there is none.\<close>

lemma lru_miss:
  assumes inv: "ct_inv cache as" and None: "find (\<lambda>a. ct_key cache a = key) as = None"
    and bs: "bs = (if length as \<ge> ct_limit cache then butlast as else as)"
    and ctx: "ctx = (if length as \<ge> ct_limit cache then delete (ct_value cache (last as)) (ct_context cache) else ct_context cache)"
    and cr: "create key ctx = (v, c)"
  shows "lru_locate (ct_limit cache) create delete (ct_pairs cache as, ct_context cache) key = (((key, v) # ct_pairs cache bs, c), v)"
proof -
  have len: "length (ct_pairs cache as) = length as" by (simp add: ct_pairs_def)
  have butlast: "butlast (ct_pairs cache as) = ct_pairs cache (butlast as)" by (simp add: ct_pairs_def map_butlast)
  have "as \<noteq> [] \<Longrightarrow> snd (last (ct_pairs cache as)) = ct_value cache (last as)" by (simp add: ct_pairs_def last_map)
  moreover have "length as \<ge> ct_limit cache \<Longrightarrow> as \<noteq> []" using inv by (auto simp: ct_inv_def)
  ultimately show ?thesis using None cr bs ctx by (auto simp: lru_locate_def ct_pairs_find len Let_def butlast)
qed

lemma locate_miss:
  assumes inv: "ct_inv cache as" and None: "find (\<lambda>a. ct_key cache a = key) as = None"
  shows "\<exists>c3 v. ctable_locate create delete cache key = Ok (c3, v) \<and> ct_limit c3 = ct_limit cache \<and>
    ct_rep c3 (fst (lru_locate (ct_limit cache) create delete (ct_pairs cache as, ct_context cache) key)) \<and>
    v = snd (lru_locate (ct_limit cache) create delete (ct_pairs cache as, ct_context cache) key)"
proof -
  obtain c1 e bs where room: "ctable_room delete cache = Ok (c1, e)"
    "bs = (if length as \<ge> ct_limit cache then butlast as else as)"
    "ct_context c1 = (if length as \<ge> ct_limit cache then delete (ct_value cache (last as)) (ct_context cache) else ct_context cache)"
    "ct_key c1 = ct_key cache" "ct_value c1 = ct_value cache" "ct_limit c1 = ct_limit cache"
    "ring_holds (ct_ring c1) HEAD bs" "e \<notin> set (HEAD # bs)" "Suc (length bs) = ct_used c1"
    "ct_used c1 \<le> ct_limit cache" "\<forall>a \<in> set (e # bs). a < ct_brk c1"
    "htable_rep (ct_table c1) (map_of (map (\<lambda>a. (ct_key cache a, Some a)) bs))"
    using room_ok [OF inv, of delete] by blast
  obtain v c where cr: "create key (ct_context c1) = (v, c)" by force
  define c2 where "c2 = c1\<lparr>ct_value := (ct_value c1)(e := v), ct_context := c\<rparr>"
  have nokey: "\<forall>a \<in> set as. ct_key cache a \<noteq> key" using None by (simp add: find_None_iff)
  have sub: "set bs \<subseteq> set as" using room(2) by (auto dest: in_set_butlastD)
  have "map_of (map (\<lambda>a. (ct_key cache a, Some a)) bs) key = None" using nokey sub by (auto simp: map_of_eq_None_iff)
  then obtain t a where t: "htable_enter (ct_table c1) key (Some e) = Ok (t, a)"
    "htable_rep t ((map_of (map (\<lambda>a. (ct_key cache a, Some a)) bs))(key \<mapsto> Some e))"
    using htable.enter_law [OF room(12), of key "Some e"] by (auto elim!: returnsE)
  obtain r where r: "ring_append (ct_ring c1) HEAD e = Ok r" "ring_holds r HEAD (e # bs)"
    using ring_append_ok [OF room(7,8)] by blast
  define c3 where "c3 = c2\<lparr>ct_table := t, ct_key := (ct_key c2)(e := key), ct_ring := r\<rparr>"
  have vals: "ct_pairs c3 (e # bs) = (key, v) # ct_pairs cache bs" "map (ct_key c3) (e # bs) = key # map (ct_key cache) bs"
    using room(4,5,8) by (simp_all add: ct_pairs_def c3_def c2_def)
  have "distinct (map (ct_key cache) bs)" using inv room(2) by (auto simp: ct_inv_def map_butlast intro: distinct_butlast)
  moreover have "key \<notin> set (map (ct_key cache) bs)" using nokey sub by auto
  ultimately have "distinct (map (ct_key c3) (e # bs))" using vals(2) by (simp only: distinct.simps simp_thms not_False_eq_True)
  moreover have "map_of (map (\<lambda>a. (ct_key c3 a, Some a)) (e # bs)) = (map_of (map (\<lambda>a. (ct_key cache a, Some a)) bs))(key \<mapsto> Some e)"
    using room(4,8) by (auto simp: c3_def c2_def intro!: arg_cong [where f = map_of] arg_cong2 [where f = "\<lambda>m x. m(key \<mapsto> x)"])
  moreover have fields: "ct_ring c3 = r" "ct_used c3 = ct_used c1" "ct_limit c3 = ct_limit cache" "ct_brk c3 = ct_brk c1" "ct_table c3 = t"
    by (simp_all add: c3_def c2_def room(6))
  ultimately have "ct_inv c3 (e # bs)" using room(8-11) r(2) t(2) inv unfolding ct_inv_def fields by simp
  moreover have "ctable_locate create delete cache key = Ok (c3, v)"
    using room(1) t(1) r(1) None by (simp add: ctable_locate_def ct_find [OF inv] call_create_def cr c3_def c2_def Let_def)
  ultimately show ?thesis using lru_miss [OF inv None room(2), where delete = delete and create = create, OF room(3) cr] vals(1) fields(3) by (auto simp: ct_rep_def c3_def c2_def)
qed

lemma locate_refines:
  assumes "ct_rep cache kc"
  shows "returns (ctable_locate create delete cache key) (\<lambda>(cache', v).
    ct_rep cache' (fst (lru_locate (ct_limit cache) create delete kc key)) \<and>
    v = snd (lru_locate (ct_limit cache) create delete kc key) \<and> ct_limit cache' = ct_limit cache)"
proof -
  obtain as where inv: "ct_inv cache as" and kc: "kc = (ct_pairs cache as, ct_context cache)"
    using assms by (cases kc) (auto simp: ct_rep_def)
  show ?thesis
  proof (cases "find (\<lambda>a. ct_key cache a = key) as")
    case (Some e)
    then show ?thesis using locate_hit [OF inv Some, of create delete] by (auto simp: returns_def kc)
  next
    case None
    then show ?thesis using locate_miss [OF inv None, of create delete] by (auto simp: returns_def kc)
  qed
qed

lemma refresh_refines:
  assumes "ct_rep cache kc"
  shows "returns (ctable_refresh create delete cache key) (\<lambda>(cache', v).
    ct_rep cache' (fst (lru_refresh (ct_limit cache) create delete kc key)) \<and>
    v = snd (lru_refresh (ct_limit cache) create delete kc key) \<and> ct_limit cache' = ct_limit cache)"
proof -
  obtain as where inv: "ct_inv cache as" and kc: "kc = (ct_pairs cache as, ct_context cache)"
    using assms by (cases kc) (auto simp: ct_rep_def)
  let ?find = "find (\<lambda>a. ct_key cache a = key) as"
  show ?thesis
  proof (cases ?find)
    case None
    then have "ctable_refresh create delete cache key = ctable_locate create delete cache key"
      "lru_refresh (ct_limit cache) create delete kc key = lru_locate (ct_limit cache) create delete kc key"
      by (simp_all add: ctable_refresh_def ct_find [OF inv] lru_refresh_def kc ct_pairs_find)
    then show ?thesis using locate_refines [OF assms] by simp
  next
    case (Some e)
    then obtain xs ys where as: "as = xs @ e # ys" and k: "ct_key cache e = key" using find_split [OF Some] by blast
    obtain v c where cr: "create key (delete (ct_value cache e) (ct_context cache)) = (v, c)" by force
    define c2 where "c2 = cache\<lparr>ct_context := c, ct_value := (ct_value cache)(e := v)\<rparr>"
    have inv2: "ct_inv c2 (xs @ e # ys)" using inv by (simp add: ct_inv_def c2_def as)
    obtain ring where r: "(if Some e = ring_succ (ct_ring c2) HEAD then Ok c2 else move_front c2 e) = Ok (c2\<lparr>ct_ring := ring\<rparr>)"
      "ct_inv (c2\<lparr>ct_ring := ring\<rparr>) (e # xs @ ys)" using touch_ok [OF inv2] by blast
    have d: "distinct (map (ct_key cache) (xs @ e # ys))" "distinct (xs @ e # ys)"
      using inv as by (auto simp: ct_inv_def ring_holds_def)
    have "(key, v) # filter (\<lambda>kv. fst kv \<noteq> key) (ct_pairs cache as) = ct_pairs (c2\<lparr>ct_ring := ring\<rparr>) (e # xs @ ys)"
      using pairs_front [OF d(1), of "ct_value cache"] k d(2) by (simp add: ct_pairs_def as c2_def)
    moreover have "ctable_refresh create delete cache key = Ok (c2\<lparr>ct_ring := ring\<rparr>, v)"
    proof -
      have c2': "call_create create (call_delete delete cache e) e key = c2"
        using cr by (simp add: call_create_def call_delete_def c2_def)
      show ?thesis using r(1) Some by (auto simp: ctable_refresh_def ct_find [OF inv] c2' Let_def split: if_splits) (simp_all add: c2_def)
    qed
    moreover have "lru_refresh (ct_limit cache) create delete kc key = (((key, v) # filter (\<lambda>kv. fst kv \<noteq> key) (ct_pairs cache as), c), v)"
      using Some cr by (simp add: lru_refresh_def kc ct_pairs_find)
    ultimately show ?thesis using r(2) by (auto simp: ct_rep_def c2_def)
  qed
qed

text \<open>Walking the ring meets the entries in most-recently-used order.\<close>

lemma ring_walk_linked:
  assumes "linked h (a # as @ [HEAD])" "HEAD \<notin> set as"
  shows "ring_walk action h a s = Some (Ok (foldl (\<lambda>s e. action e s) s as))"
  using assms
proof (induction as arbitrary: a s)
  case Nil
  then show ?case by (simp add: ring_walk.simps ring_succ_def)
next
  case (Cons e as)
  then show ?case by (subst ring_walk.simps) (simp add: ring_succ_def)
qed

lemma walk_ok:
  assumes "ct_rep cache kc"
  shows "ctable_walk cache action s = Ok (foldl (\<lambda>s (k, v). action k v s) s (fst kc))"
proof -
  obtain as where inv: "ct_inv cache as" and kc: "fst kc = ct_pairs cache as" using assms by (auto simp: ct_rep_def)
  then have "linked (ct_ring cache) (HEAD # as @ [HEAD])" "HEAD \<notin> set as" by (auto simp: ct_inv_def ring_holds_def)
  then show ?thesis by (simp add: ctable_walk_def ring_walk_linked kc ct_pairs_def foldl_map)
qed

lemma create_rep:
  assumes "ctable_create limit context = Ok cache"
  shows "ct_rep cache ([], context)" "ct_limit cache = max CTABLE_MIN_SIZE (nat limit)"
proof -
  have "htable_rep (htable_create limit :: nat htable) Map.empty" by (rule htable_create_rep)
  then show "ct_rep cache ([], context)" "ct_limit cache = max CTABLE_MIN_SIZE (nat limit)" using assms ring_init_ok
    by (auto simp: ctable_create_def ct_rep_def ct_inv_def ct_pairs_def CTABLE_MIN_SIZE_def split: if_splits)
qed

text \<open>The cache as a state machine with two operations.\<close>

datatype ctable_op = Locate string | Refresh string

primrec ctable_step ::
  "('v, 'c) create_fn \<Rightarrow> ('v, 'c) delete_fn \<Rightarrow> ('v, 'c) ctable \<Rightarrow> ctable_op \<Rightarrow> (('v, 'c) ctable \<times> 'v) outcome" where
  "ctable_step create delete cache (Locate key) = ctable_locate create delete cache key"
| "ctable_step create delete cache (Refresh key) = ctable_refresh create delete cache key"

primrec lru_step ::
  "nat \<Rightarrow> ('v, 'c) create_fn \<Rightarrow> ('v, 'c) delete_fn \<Rightarrow> (string \<times> 'v) list \<times> 'c \<Rightarrow> ctable_op \<Rightarrow> ((string \<times> 'v) list \<times> 'c) \<times> 'v" where
  "lru_step limit create delete kc (Locate key) = lru_locate limit create delete kc key"
| "lru_step limit create delete kc (Refresh key) = lru_refresh limit create delete kc key"

definition ct_sim :: "nat \<Rightarrow> ('v, 'c) ctable \<Rightarrow> (string \<times> 'v) list \<times> 'c \<Rightarrow> bool" where
  "ct_sim limit cache kc \<longleftrightarrow> ct_rep cache kc \<and> ct_limit cache = limit"

interpretation ctable: simulation "ct_sim limit" "ctable_step create delete" "lru_step limit create delete"
  for limit and create :: "('v, 'c) create_fn" and delete :: "('v, 'c) delete_fn"
proof
  fix cache :: "('v, 'c) ctable" and kc and op
  assume a: "ct_sim limit cache kc"
  show "returns (ctable_step create delete cache op) (\<lambda>(s', r).
    ct_sim limit s' (fst (lru_step limit create delete kc op)) \<and> r = snd (lru_step limit create delete kc op))"
  proof (cases op)
    case (Locate key)
    then show ?thesis using a locate_refines [of cache kc create delete key] by (auto simp: ct_sim_def returns_def)
  next
    case (Refresh key)
    then show ?thesis using a refresh_refines [of cache kc create delete key] by (auto simp: ct_sim_def returns_def)
  qed
qed

text \<open>The states a program can bring a cache into.\<close>

inductive cache_reachable :: "('v, 'c) create_fn \<Rightarrow> ('v, 'c) delete_fn \<Rightarrow> ('v, 'c) ctable \<Rightarrow> bool"
  for create :: "('v, 'c) create_fn" and delete :: "('v, 'c) delete_fn" where
  Created: "ctable_create limit context = Ok cache \<Longrightarrow> cache_reachable create delete cache"
| Stepped: "cache_reachable create delete cache \<Longrightarrow> ctable_step create delete cache op = Ok (cache', v) \<Longrightarrow>
    cache_reachable create delete cache'"
| Context: "cache_reachable create delete cache \<Longrightarrow> cache_reachable create delete (ctable_newcontext cache context)"

lemma reachable_rep:
  assumes "cache_reachable create delete cache"
  shows "\<exists>kc. ct_rep cache kc"
  using assms
proof induction
  case (Created limit ctx cache)
  then show ?case by (intro exI) (rule create_rep(1))
next
  case (Stepped cache op cache' v)
  then obtain kc where "ct_sim (ct_limit cache) cache kc" by (auto simp: ct_sim_def)
  from ctable.step_law [OF this, of create delete op] Stepped.hyps(2) show ?case
    by (auto simp: returns_def ct_sim_def simp del: split_paired_Ex)
next
  case (Context cache ctx)
  then obtain as where "ct_inv cache as" by (auto simp: ct_rep_def)
  then have "ct_inv (ctable_newcontext cache ctx) as" by (simp add: ct_inv_def ctable_newcontext_def)
  then show ?case by (auto simp: ct_rep_def)
qed

lemma rep_bounds:
  assumes "ct_rep cache kc"
  shows "distinct (map fst (fst kc)) \<and> length (fst kc) = ct_used cache \<and> ct_used cache \<le> ct_limit cache"
  using assms by (auto simp: ct_rep_def ct_inv_def ct_pairs_def comp_def)

section \<open>Properties\<close>

text \<open>
  C2: The cache implements least-recently-used replacement. A cache made with any positive
  limit, driven through any sequence of \<open>ctable_locate\<close> and \<open>ctable_refresh\<close> calls, returns from
  every call; the values returned and the calls of the constructor and destructor (seen through
  the context they thread) are those of the list of pairs in most-recently-used order, which
  drops its last pair when a new key meets a full cache. A walk over the cache meets
  exactly the pairs of that list, in its order.
\<close>

theorem ctable_is_lru:
  assumes "ctable_create limit context = Ok cache"
  shows "returns (run_steps (ctable_step create delete) cache ops) (\<lambda>(cache', vs).
    let (kc, ws) = spec_steps (lru_step (max CTABLE_MIN_SIZE (nat limit)) create delete) ([], context) ops in
    vs = ws \<and> ct_context cache' = snd kc \<and>
    ctable_walk cache' action s = Ok (foldl (\<lambda>s (k, v). action k v s) s (fst kc)))"
proof -
  have "ct_sim (max CTABLE_MIN_SIZE (nat limit)) cache ([], context)"
    using create_rep [OF assms] by (simp add: ct_sim_def)
  from ctable.run_law [OF this, of create delete ops] show ?thesis
    by (rule returns_mono) (auto simp: ct_sim_def walk_ok split: prod.splits, auto simp: ct_rep_def)
qed

definition demo_create :: "(nat, string list) create_fn" where
  "demo_create key made = (length made, key # made)"

definition demo_delete :: "(nat, string list) delete_fn" where
  "demo_delete v made = made"

theorem ctable_is_lru_witness:
  "\<exists>cache. ctable_create 1 [] = Ok cache \<and>
    returns (run_steps (ctable_step demo_create demo_delete) cache [Locate ''a'', Locate ''b'', Locate ''a'', Refresh ''b'']) (\<lambda>(cache', vs).
      vs = [0, 1, 0, 2] \<and> ct_context cache' = [''b'', ''b'', ''a''] \<and>
      ctable_walk cache' (\<lambda>k v ks. k # ks) [] = Ok [''a'', ''b''])"
proof -
  obtain cache :: "(nat, string list) ctable" where c: "ctable_create 1 [] = Ok cache" by (simp add: ctable_create_def)
  have "spec_steps (lru_step (max CTABLE_MIN_SIZE (nat 1)) demo_create demo_delete) ([], [])
      [Locate ''a'', Locate ''b'', Locate ''a'', Refresh ''b'']
    = (([(''b'', 2), (''a'', 0)], [''b'', ''b'', ''a'']), [0, 1, 0, 2])"
    by (simp add: lru_locate_def lru_refresh_def demo_create_def demo_delete_def CTABLE_MIN_SIZE_def)
  with c ctable_is_lru [OF c, of demo_create demo_delete "[Locate ''a'', Locate ''b'', Locate ''a'', Refresh ''b'']" "\<lambda>k v ks. k # ks" "[]"]
  show ?thesis by (auto simp: returns_def)
qed

text \<open>
  C27: In every state a program can bring a cache into, the cache holds at most its limit of
  entries, every key once, and \<open>used\<close> is the number of entries that a walk meets.
\<close>

theorem ctable_bounded:
  assumes "cache_reachable create delete cache"
  shows "ct_used cache \<le> ct_limit cache \<and>
    (\<exists>keys. ctable_walk cache (\<lambda>k v ks. ks @ [k]) [] = Ok keys \<and> distinct keys \<and> length keys = ct_used cache)"
proof -
  obtain kc where rep: "ct_rep cache kc" using reachable_rep [OF assms] by blast
  have "foldl (\<lambda>s (k, v). s @ [k]) ks kvs = ks @ map fst kvs" for ks kvs
    by (induction kvs arbitrary: ks) auto
  from this [of "[]" "fst kc"] show ?thesis using rep_bounds [OF rep] walk_ok [OF rep, of "\<lambda>k v ks. ks @ [k]" "[]"] by simp
qed

theorem ctable_bounded_witness:
  "\<exists>cache. ctable_create 3 [] = Ok cache \<and> ct_used (cache :: (nat, string list) ctable) \<le> ct_limit cache"
proof -
  obtain cache :: "(nat, string list) ctable" where c: "ctable_create 3 [] = Ok cache" by (simp add: ctable_create_def)
  then have "cache_reachable demo_create demo_delete cache" by (rule cache_reachable.Created)
  from ctable_bounded [OF this] c show ?thesis by blast
qed

end
