(* ===== verification/Hostname.thy ===== *)
theory Hostname
  imports Stringops
begin

text \<open>
  The syntax checks of \<open>src/util/valid_hostname.c\<close> for host names, IPv4 and IPv6 addresses and
  port numbers, and the UTF-8 check of \<open>src/util/valid_utf8_string.c\<close>. Each scanner of the source
  is a recursive function on the rest of the string with the scanner's local variables; the
  \<open>gripe\<close> argument, which only selects logging, is left out.

  The theorems say which texts the scanners accept, in terms of the fields between the delimiters,
  and that the UTF-8 check accepts exactly the encodings of sequences of Unicode scalar values.
\<close>

section \<open>valid\_hostname.c\<close>

definition VALID_HOSTNAME_LEN :: nat where
  "VALID_HOSTNAME_LEN = 255"

definition VALID_LABEL_LEN :: nat where
  "VALID_LABEL_LEN = 63"

text \<open>
  The loop returns \<open>None\<close> for a rejected name, and the final value of \<open>non_numeric\<close> otherwise.
\<close>

primrec hostname_scan :: "string \<Rightarrow> nat \<Rightarrow> bool \<Rightarrow> bool option" where
  "hostname_scan [] label_length non_numeric = Some non_numeric"
| "hostname_scan (ch # cp) label_length non_numeric =
     (if ISALNUM ch \<or> ch = CHR ''_'' then
        if label_length + 1 > VALID_LABEL_LEN then None
        else hostname_scan cp (label_length + 1) (if \<not> ISDIGIT ch then True else non_numeric)
      else if ch = CHR ''.'' then
        if label_length = 0 \<or> cp = [] then None else hostname_scan cp 0 non_numeric
      else if ch = CHR ''-'' then
        if label_length + 1 = 1 \<or> cp = [] \<or> hd cp = CHR ''.'' then None
        else hostname_scan cp (label_length + 1) True
      else None)"

definition valid_hostname :: "string \<Rightarrow> bool" where
  "valid_hostname name =
     (if name = [] then False
      else case hostname_scan name 0 False of
        None \<Rightarrow> False
      | Some non_numeric \<Rightarrow>
          if \<not> non_numeric then False
          else if length name > VALID_HOSTNAME_LEN then False
          else True)"

definition BYTES_NEEDED :: nat where
  "BYTES_NEEDED = 4"

primrec ipv4_scan :: "string \<Rightarrow> string \<Rightarrow> bool \<Rightarrow> nat \<Rightarrow> nat \<Rightarrow> bool" where
  "ipv4_scan addr [] in_byte byte_count byte_val = (if byte_count \<noteq> BYTES_NEEDED then False else True)"
| "ipv4_scan addr (ch # cp) in_byte byte_count byte_val =
     (if ISDIGIT ch then
        let count = (if \<not> in_byte then byte_count + 1 else byte_count);
            val = (if \<not> in_byte then 0 else byte_val) * 10 + (ord ch - 48)
        in if val > 255 then False else ipv4_scan addr cp True count val
      else if ch = CHR ''.'' then
        if \<not> in_byte \<or> cp = [] then False
        else if byte_count = 1 \<and> byte_val = 0 \<and> drop (strspn addr ''0.'') addr \<noteq> [] then False
        else ipv4_scan addr cp False byte_count byte_val
      else False)"

definition valid_ipv4_hostaddr :: "string \<Rightarrow> bool" where
  "valid_ipv4_hostaddr addr = ipv4_scan addr addr False 0 0"

definition hex_digits :: string where
  "hex_digits = ''0123456789abcdefABCDEF''"

text \<open>\<open>cp\<close> is the position in \<open>addr\<close>.\<close>

function ipv6_scan :: "string \<Rightarrow> nat \<Rightarrow> nat \<Rightarrow> nat \<Rightarrow> nat \<Rightarrow> bool" where
  "ipv6_scan addr cp field null_field len =
     (case drop cp addr of
        [] \<Rightarrow>
          if field < 2 then False
          else if len = 0 \<and> null_field \<noteq> field - 1 then False
          else True
      | c # rest \<Rightarrow>
          if c = CHR ''.'' then
            if field < 2 \<or> field > 6 then False else valid_ipv4_hostaddr (drop (cp - len) addr)
          else if c = CHR '':'' then
            if field = 0 \<and> len = 0 \<and> rest \<noteq> [] \<and> ISALNUM (hd rest) then False
            else if field + 1 > 7 then False
            else if rest \<noteq> [] \<and> hd rest = CHR '':'' then
              if null_field > 0 then False else ipv6_scan addr (cp + 1) (field + 1) (field + 1) 0
            else ipv6_scan addr (cp + 1) (field + 1) null_field 0
          else let len = strspn (drop cp addr) hex_digits in
            if len > 4 then False
            else if len \<le> 0 then False
            else ipv6_scan addr (cp + len) field null_field len)"
  by pat_completeness auto

termination
proof (relation "measure (\<lambda>(addr, cp, _). length addr - cp)", goal_cases)
  case (4 addr cp field null_field len c rest len')
  then have "cp < length addr" by (metis drop_all leI list.distinct(1))
  then show ?case using 4 by auto
qed (auto, (metis Suc_leI diff_less_mono2 drop_all leI lessI list.distinct(1) not_less)+)

declare ipv6_scan.simps [simp del]

definition valid_ipv6_hostaddr :: "string \<Rightarrow> bool" where
  "valid_ipv6_hostaddr addr = ipv6_scan addr 0 0 0 0"

definition valid_hostaddr :: "string \<Rightarrow> bool" where
  "valid_hostaddr addr =
     (if addr = [] then False
      else if strchr addr CHR '':'' \<noteq> None then valid_ipv6_hostaddr addr
      else valid_ipv4_hostaddr addr)"

text \<open>\<open>atoi\<close> on a string of at most five digits, where it cannot overflow.\<close>

fun atoi_digits :: "string \<Rightarrow> int \<Rightarrow> int" where
  "atoi_digits [] n = n"
| "atoi_digits (c # cs) n = (if ISDIGIT c then atoi_digits cs (10 * n + (int (ord c) - 48)) else n)"

definition valid_hostport :: "string \<Rightarrow> bool" where
  "valid_hostport str =
     (if str \<noteq> [] \<and> hd str = CHR ''0'' \<and> tl str \<noteq> [] then False
      else if \<not> alldig str then False
      else if length str > length ''65535'' then False
      else let port = atoi_digits str 0 in if port > 65535 \<or> port < 0 then False else True)"

section \<open>valid\_utf8\_string.c\<close>

definition utf8_tail :: "char \<Rightarrow> bool" where
  "utf8_tail ch \<longleftrightarrow> ord ch AND 0xc0 = 0x80"

fun utf8_scan :: "char list \<Rightarrow> bool" where
  "utf8_scan [] = True"
| "utf8_scan (c # s) =
     (let c0 = ord c in
      if c0 \<le> 0x7f then utf8_scan s
      else if c0 \<le> 0xdf then
        (case s of
           ch # s' \<Rightarrow> if c0 < 0xc2 \<or> \<not> utf8_tail ch then False else utf8_scan s'
         | _ \<Rightarrow> False)
      else if c0 \<le> 0xef then
        (case s of
           ch # ch2 # s' \<Rightarrow>
             if ord ch < (if c0 = 0xe0 then 0xa0 else 0x80) \<or> ord ch > (if c0 = 0xed then 0x9f else 0xbf) \<or> \<not> utf8_tail ch2
             then False else utf8_scan s'
         | _ \<Rightarrow> False)
      else if c0 \<le> 0xf4 then
        (case s of
           ch # ch2 # ch3 # s' \<Rightarrow>
             if ord ch < (if c0 = 0xf0 then 0x90 else 0x80) \<or> ord ch > (if c0 = 0xf4 then 0x8f else 0xbf) \<or>
                \<not> utf8_tail ch2 \<or> \<not> utf8_tail ch3
             then False else utf8_scan s'
         | _ \<Rightarrow> False)
      else False)"

definition valid_utf8_string :: "char list \<Rightarrow> int \<Rightarrow> bool" where
  "valid_utf8_string str len =
     (if len < 0 then False else if len \<le> 0 then True else utf8_scan (take (nat len) str))"

section \<open>Host names and IPv4 addresses\<close>

definition host_char :: "char \<Rightarrow> bool" where
  "host_char c \<longleftrightarrow> ISALNUM c \<or> c = CHR ''_'' \<or> c = CHR ''-''"

definition label_rest :: "nat \<Rightarrow> string \<Rightarrow> bool" where
  "label_rest l f \<longleftrightarrow> list_all host_char f \<and> l + length f \<le> VALID_LABEL_LEN \<and>
     (f \<noteq> [] \<longrightarrow> last f \<noteq> CHR ''-'') \<and> (l = 0 \<longrightarrow> f \<noteq> [] \<and> hd f \<noteq> CHR ''-'')"

definition host_label :: "string \<Rightarrow> bool" where
  "host_label f \<longleftrightarrow> f \<noteq> [] \<and> length f \<le> VALID_LABEL_LEN \<and> list_all host_char f \<and> hd f \<noteq> CHR ''-'' \<and> last f \<noteq> CHR ''-''"

definition numeric_char :: "char \<Rightarrow> bool" where
  "numeric_char c \<longleftrightarrow> ISDIGIT c \<or> c = CHR ''.''"

lemma label_rest_0: "label_rest 0 f = host_label f"
  by (auto simp: label_rest_def host_label_def)

lemma char_classes:
  "\<not> ISALNUM CHR ''.''" "\<not> ISALNUM CHR ''-''" "\<not> ISALNUM CHR ''_''" "\<not> ISDIGIT CHR ''-''" "\<not> ISDIGIT CHR ''_''" "\<not> ISDIGIT CHR ''.''"
  by (simp_all add: ctype_defs)

lemma numeric_chars [simp]: "numeric_char CHR ''.''" "\<not> numeric_char CHR ''-''"
  by (simp_all add: numeric_char_def char_classes)

lemma hostname_scan_iff:
  assumes "fields_of CHR ''.'' cp = f # fs" "cp \<noteq> [] \<or> 0 < l" "l \<le> VALID_LABEL_LEN \<or> f \<noteq> []"
  shows "hostname_scan cp l nn =
    (if label_rest l f \<and> list_all host_label fs then Some (nn \<or> \<not> list_all numeric_char cp) else None)"
  using assms
proof (induction cp arbitrary: l nn f fs)
  case Nil
  then show ?case by (auto simp: label_rest_def)
next
  case (Cons c cp)
  obtain g gs where g: "fields_of CHR ''.'' cp = g # gs" using fields_Cons by blast
  consider (alnum) "ISALNUM c \<or> c = CHR ''_''" | (dot) "c = CHR ''.''" | (hyphen) "c = CHR ''-''"
    | (other) "\<not> host_char c" "c \<noteq> CHR ''.''" by (auto simp: host_char_def)
  then show ?case
  proof cases
    case alnum
    then have c: "c \<noteq> CHR ''.''" "c \<noteq> CHR ''-''" "host_char c" by (auto simp: char_classes host_char_def)
    have f: "f = c # g" "fs = gs" using Cons.prems(1) c g by auto
    show ?thesis
    proof (cases "l + 1 > VALID_LABEL_LEN")
      case True
      then show ?thesis using alnum by (auto simp: f label_rest_def)
    next
      case False
      have "label_rest l f = label_rest (l + 1) g" using c by (cases g) (auto simp: f label_rest_def)
      moreover have "numeric_char c = ISDIGIT c" using c by (simp add: numeric_char_def)
      ultimately show ?thesis using alnum False Cons.IH [OF g, of "l + 1"] by (auto simp: f)
    qed
  next
    case dot
    then have f: "f = []" "fs = g # gs" using Cons.prems(1) g by auto
    show ?thesis
    proof (cases "l = 0 \<or> cp = []")
      case True
      then show ?thesis using dot f g by (auto simp: char_classes label_rest_def host_label_def)
    next
      case False
      then have "label_rest l f" using Cons.prems(3) f by (simp add: label_rest_def)
      then show ?thesis using dot f False Cons.IH [OF g, of 0] by (simp add: char_classes label_rest_0)
    qed
  next
    case hyphen
    then have f: "f = c # g" "fs = gs" using Cons.prems(1) g by auto
    have g_nil: "g = [] \<longleftrightarrow> cp = [] \<or> hd cp = CHR ''.''" using fields_nil_iff [of "CHR ''.''" cp] g by simp
    show ?thesis
    proof (cases "l = 0 \<or> g = []")
      case True
      then show ?thesis using hyphen g_nil by (auto simp: char_classes f label_rest_def)
    next
      case False
      then have "label_rest l f = label_rest (l + 1) g" using hyphen by (auto simp: f label_rest_def host_char_def)
      then show ?thesis using hyphen False g_nil Cons.IH [OF g, of "l + 1" True] by (simp add: char_classes f)
    qed
  next
    case other
    then show ?thesis using Cons.prems(1) g by (auto simp: host_char_def label_rest_def)
  qed
qed

lemma valid_hostname_fields:
  "valid_hostname name \<longleftrightarrow>
     length name \<le> VALID_HOSTNAME_LEN \<and> list_all host_label (fields_of CHR ''.'' name) \<and> \<not> list_all numeric_char name"
proof (cases "name = []")
  case False
  obtain f fs where f: "fields_of CHR ''.'' name = f # fs" using fields_Cons by blast
  show ?thesis using False hostname_scan_iff [OF f, of 0 False] by (auto simp: valid_hostname_def f label_rest_0)
qed (simp add: valid_hostname_def)

text \<open>The value of a text of digits, after \<open>v\<close> for the digits before it.\<close>

fun digits_value :: "string \<Rightarrow> nat \<Rightarrow> nat" where
  "digits_value [] v = v"
| "digits_value (c # cs) v = digits_value cs (10 * v + (ord c - 48))"

lemma digits_value_mono: "v \<le> digits_value cs v"
  by (induction cs v rule: digits_value.induct) auto

definition octet :: "string \<Rightarrow> bool" where
  "octet f \<longleftrightarrow> f \<noteq> [] \<and> list_all ISDIGIT f \<and> digits_value f 0 \<le> 255"

definition zero_ok :: "string \<Rightarrow> bool" where
  "zero_ok addr \<longleftrightarrow> list_all (\<lambda>c. c = CHR ''0'' \<or> c = CHR ''.'') addr"

lemma drop_zero_ok: "length addr \<le> strspn addr ''0.'' \<longleftrightarrow> zero_ok addr"
proof -
  have "length addr \<le> strspn addr ''0.'' \<longleftrightarrow> drop (strspn addr ''0.'') addr = []" by (simp del: drop_strspn)
  then show ?thesis by (auto simp: zero_ok_def list_all_iff)
qed

lemma ipv4_scan_iff:
  assumes "fields_of CHR ''.'' cp = f # fs" "in_byte \<or> cp \<noteq> []" "byte_val \<le> 255" "in_byte \<longrightarrow> byte_count \<ge> 1"
  shows "ipv4_scan addr cp in_byte byte_count byte_val \<longleftrightarrow>
    list_all ISDIGIT f \<and> (in_byte \<or> f \<noteq> []) \<and> digits_value f (if in_byte then byte_val else 0) \<le> 255 \<and>
    list_all octet fs \<and> (if in_byte then byte_count else byte_count + 1) + length fs = BYTES_NEEDED \<and>
    ((if in_byte then byte_count else byte_count + 1) = 1 \<and> digits_value f (if in_byte then byte_val else 0) = 0 \<longrightarrow> fs \<noteq> [] \<longrightarrow> zero_ok addr)"
  using assms
proof (induction cp arbitrary: in_byte byte_count byte_val f fs)
  case Nil
  then show ?case by auto
next
  case (Cons c cp)
  obtain g gs where g: "fields_of CHR ''.'' cp = g # gs" using fields_Cons by blast
  show ?case
  proof (cases "ISDIGIT c")
    case True
    then have c: "c \<noteq> CHR ''.''" by (auto simp: char_classes)
    have f: "f = c # g" "fs = gs" using Cons.prems(1) c g by auto
    define n v where "n = (if in_byte then byte_count else byte_count + 1)" and "v = (if in_byte then byte_val else 0) * 10 + (ord c - 48)"
    have "ipv4_scan addr (c # cp) in_byte byte_count byte_val \<longleftrightarrow> v \<le> 255 \<and> ipv4_scan addr cp True n v"
      using True by (simp add: n_def v_def Let_def)
    moreover have "digits_value f (if in_byte then byte_val else 0) = digits_value g v" by (simp add: f v_def mult.commute)
    moreover have "n \<ge> 1" using Cons.prems(4) by (auto simp: n_def)
    ultimately show ?thesis using True Cons.IH [OF g, of True v n] digits_value_mono [of v g]
      by (cases "v \<le> 255") (simp_all add: f n_def [symmetric])
  next
    case False
    show ?thesis
    proof (cases "c = CHR ''.''")
      case True
      then have f: "f = []" "fs = g # gs" using Cons.prems(1) g by auto
      show ?thesis
      proof (cases "\<not> in_byte \<or> cp = []")
        case True
        then show ?thesis using \<open>c = CHR ''.''\<close> f g by (auto simp: char_classes octet_def)
      next
        case nocut: False
        show ?thesis using True nocut Cons.IH [OF g, of False byte_val byte_count] Cons.prems(3,4)
          by (auto simp: char_classes f octet_def drop_zero_ok simp del: drop_strspn)
      qed
    next
      case other: False
      then have "f = c # g" using Cons.prems(1) g by auto
      then show ?thesis using False other by simp
    qed
  qed
qed

lemma valid_ipv4_fields:
  "valid_ipv4_hostaddr addr \<longleftrightarrow>
     (let octets = fields_of CHR ''.'' addr in
      length octets = 4 \<and> list_all octet octets \<and> (digits_value (hd octets) 0 = 0 \<longrightarrow> zero_ok addr))"
proof (cases "addr = []")
  case False
  obtain f fs where f: "fields_of CHR ''.'' addr = f # fs" using fields_Cons by blast
  show ?thesis using False ipv4_scan_iff [OF f, of False 0 0 addr]
    by (auto simp: valid_ipv4_hostaddr_def f octet_def BYTES_NEEDED_def)
qed (simp add: valid_ipv4_hostaddr_def BYTES_NEEDED_def)

section \<open>IPv6 addresses\<close>

text \<open>A field of at most four hexadecimal digits, and a dotted text as it may end an IPv6 address.\<close>

definition hex_field :: "string \<Rightarrow> bool" where
  "hex_field f \<longleftrightarrow> list_all (\<lambda>c. c \<in> set hex_digits) f \<and> length f \<le> 4"

definition dotted :: "string \<Rightarrow> bool" where
  "dotted f \<longleftrightarrow> strspn f hex_digits \<le> 4 \<and> (\<exists>rest. dropWhile (\<lambda>c. c \<in> set hex_digits) f = CHR ''.'' # rest)"

lemma hex_not_delim: "CHR '':'' \<notin> set hex_digits" "CHR ''.'' \<notin> set hex_digits"
  by (simp_all add: hex_digits_def)

lemma ipv4_no_colon: "valid_ipv4_hostaddr s \<Longrightarrow> CHR '':'' \<notin> set s"
proof
  assume v: "valid_ipv4_hostaddr s" and "CHR '':'' \<in> set s"
  then obtain f where "f \<in> set (fields_of CHR ''.'' s)" "CHR '':'' \<in> set f" using fields_keep [of "CHR '':''" s "CHR ''.''"] by auto
  moreover have "list_all octet (fields_of CHR ''.'' s)" using v by (simp add: valid_ipv4_fields Let_def)
  ultimately have "ISDIGIT CHR '':''" by (auto simp: octet_def list_all_iff)
  then show False by (simp add: ctype_defs)
qed

text \<open>The text of one field.\<close>

lemma ipv6_scan_field:
  assumes s: "fields_of CHR '':'' (drop cp addr) = f # fs"
  shows "ipv6_scan addr cp k nf 0 =
    (if hex_field f then ipv6_scan addr (cp + length f) k nf (length f)
     else dotted f \<and> 2 \<le> k \<and> k \<le> 6 \<and> valid_ipv4_hostaddr (drop cp addr))"
proof -
  let ?hex = "\<lambda>c. c \<in> set hex_digits"
  define p where "p = takeWhile ?hex f"
  obtain q where f: "f = p @ q" "q = [] \<or> \<not> ?hex (hd q)"
    unfolding p_def by (metis hd_dropWhile takeWhile_dropWhile_id)
  have hexp: "list_all ?hex p" by (auto simp: p_def list_all_iff dest: set_takeWhileD)
  define r where "r = (if fs = [] then [] else CHR '':'' # drop (length f + 1) (drop cp addr))"
  have d: "drop cp addr = p @ q @ r" using fields_join [OF s] f by (simp add: r_def)
  have r: "r = [] \<or> hd r = CHR '':''" by (simp add: r_def)
  have nodelim: "CHR '':'' \<notin> set f" using fields_no_delim [of f "CHR '':''" "drop cp addr"] s by simp
  have nxt: "drop (cp + length p) addr = q @ r" using d by (metis add.commute append_eq_conv_conj drop_drop)
  have "q @ r = [] \<or> \<not> ?hex (hd (q @ r))" using f(2) r hex_not_delim by (cases q) auto
  then have span: "strspn (drop cp addr) hex_digits = length p"
    using takeWhile_app [OF hexp, of "q @ r"] by (simp add: strspn_def d)
  have fok: "hex_field f \<longleftrightarrow> length p \<le> 4 \<and> q = []" using f hexp by (cases q) (auto simp: hex_field_def)
  have dropq: "dropWhile ?hex f = q" using dropWhile_app [OF hexp, of q] f by simp
  have spanf: "strspn f hex_digits = length p" by (simp add: strspn_def p_def)
  have step: "ipv6_scan addr cp k nf 0 = (length p \<le> 4 \<and> ipv6_scan addr (cp + length p) k nf (length p))" if pne: "p \<noteq> []"
  proof -
    obtain c p' where p: "p = c # p'" "?hex c" using pne hexp by (cases p) auto
    then have c: "drop cp addr = c # p' @ q @ r" using d by simp
    have "c \<noteq> CHR ''.''" "c \<noteq> CHR '':''" using p hex_not_delim by auto
    then show ?thesis using span pne by (subst ipv6_scan.simps) (simp add: c Let_def)
  qed
  have at: "ipv6_scan addr (cp + length p) k nf (length p) = (hd q = CHR ''.'' \<and> 2 \<le> k \<and> k \<le> 6 \<and> valid_ipv4_hostaddr (drop cp addr))" if qne: "q \<noteq> []"
  proof -
    obtain c q' where q: "q = c # q'" using qne by (cases q) auto
    have "strspn (c # q' @ r) hex_digits = 0" using f(2) q by (simp add: strspn_def)
    moreover have "c \<noteq> CHR '':''" using nodelim f q by auto
    ultimately show ?thesis using nxt q by (subst ipv6_scan.simps) auto
  qed
  have dot: "dotted f \<longleftrightarrow> length p \<le> 4 \<and> q \<noteq> [] \<and> hd q = CHR ''.''"
    unfolding dotted_def dropq spanf by (cases q) auto
  show ?thesis
  proof (cases "p = []")
    case True
    then show ?thesis using fok dot at by (cases "q = []") (auto simp: f)
  next
    case False
    then show ?thesis using fok dot at step by (cases "q = []") (auto simp: f)
  qed
qed

fun ipv6_fields :: "nat \<Rightarrow> nat \<Rightarrow> string list \<Rightarrow> bool" where
  "ipv6_fields k nf [] = False"
| "ipv6_fields k nf [f] =
     (2 \<le> k \<and> (if hex_field f then f = [] \<longrightarrow> nf = k - 1 else dotted f \<and> k \<le> 6 \<and> valid_ipv4_hostaddr f))"
| "ipv6_fields k nf (f # g # fs) =
     (hex_field f \<and> k < 7 \<and> \<not> (k = 0 \<and> f = [] \<and> g \<noteq> [] \<and> ISALNUM (hd g)) \<and>
      (if g = [] \<and> fs \<noteq> [] then nf = 0 \<and> ipv6_fields (k + 1) (k + 1) (g # fs) else ipv6_fields (k + 1) nf (g # fs)))"

lemma alnum_colon: "\<not> ISALNUM CHR '':''"
  by (simp add: ctype_defs)

lemma ipv6_scan_fields:
  "fields_of CHR '':'' (drop cp addr) = fs \<Longrightarrow> ipv6_scan addr cp k nf 0 = ipv6_fields k nf fs"
proof (induction k nf fs arbitrary: cp rule: ipv6_fields.induct)
  case (2 k nf f)
  have d: "drop cp addr = f" using fields_join [OF 2] by (simp only: if_True append_Nil2 simp_thms)
  then have "drop (length f) (drop cp addr) = []" by simp
  then have "drop (cp + length f) addr = []" by (simp add: add.commute)
  then have "ipv6_scan addr (cp + length f) k nf (length f) = (2 \<le> k \<and> (f = [] \<longrightarrow> nf = k - 1))"
    by (subst ipv6_scan.simps) auto
  then show ?case using ipv6_scan_field [OF 2, of k nf] d by auto
next
  case (3 k nf f g fs)
  let ?r = "drop (length f + 1) (drop cp addr)"
  have d: "drop cp addr = f @ CHR '':'' # ?r" and r: "fields_of CHR '':'' ?r = g # fs"
    using fields_join [OF "3.prems"] by auto
  have nxt: "drop (cp + length f) addr = CHR '':'' # ?r" using d by (metis add.commute append_eq_conv_conj drop_drop)
  have r': "fields_of CHR '':'' (drop (cp + length f + 1) addr) = g # fs" using r by (simp add: add.commute add.left_commute)
  have look: "?r \<noteq> [] \<and> hd ?r = CHR '':'' \<longleftrightarrow> g = [] \<and> fs \<noteq> []" "?r \<noteq> [] \<and> ISALNUM (hd ?r) \<longleftrightarrow> g \<noteq> [] \<and> ISALNUM (hd g)"
    using fields_look [OF r] alnum_colon by metis+
  have "\<not> valid_ipv4_hostaddr (drop cp addr)" using ipv4_no_colon [of "drop cp addr"] d by auto
  then have "ipv6_scan addr cp k nf 0 = (hex_field f \<and> ipv6_scan addr (cp + length f) k nf (length f))"
    using ipv6_scan_field [OF "3.prems", of k nf] by auto
  moreover have "ipv6_scan addr (cp + length f) k nf (length f) =
    (\<not> (k = 0 \<and> f = [] \<and> ?r \<noteq> [] \<and> ISALNUM (hd ?r)) \<and> k < 7 \<and>
     (if ?r \<noteq> [] \<and> hd ?r = CHR '':'' then nf = 0 \<and> ipv6_scan addr (cp + length f + 1) (k + 1) (k + 1) 0
      else ipv6_scan addr (cp + length f + 1) (k + 1) nf 0))"
    using nxt by (subst ipv6_scan.simps) auto
  ultimately show ?case using "3.IH"(1) [OF _ r'] "3.IH"(2) [OF _ r'] unfolding look by auto
qed simp

definition ipv6_text :: "string \<Rightarrow> bool" where
  "ipv6_text addr \<longleftrightarrow>
     (let fs = fields_of CHR '':'' addr; n = length fs - 1 in
      2 \<le> n \<and> list_all hex_field (butlast fs) \<and>
      (hex_field (last fs) \<and> n \<le> 7 \<or> dotted (last fs) \<and> valid_ipv4_hostaddr (last fs) \<and> n \<le> 6) \<and>
      (hd fs = [] \<longrightarrow> fs ! 1 = []) \<and> (last fs = [] \<longrightarrow> fs ! (n - 1) = []) \<and>
      length (filter (\<lambda>f. f = []) (butlast (tl fs))) \<le> 1)"

lemma dotted_not_field: "dotted f \<Longrightarrow> \<not> hex_field f"
proof
  assume "dotted f" "hex_field f"
  then have "dropWhile (\<lambda>c. c \<in> set hex_digits) f = []" by (simp add: hex_field_def list_all_iff)
  with \<open>dotted f\<close> show False by (simp add: dotted_def)
qed

definition later_fields :: "nat \<Rightarrow> nat \<Rightarrow> string list \<Rightarrow> bool" where
  "later_fields k nf fs \<longleftrightarrow>
    (let n = length fs - 1 in
     2 \<le> k + n \<and> list_all hex_field (butlast fs) \<and>
     (hex_field (last fs) \<and> k + n \<le> 7 \<or> dotted (last fs) \<and> valid_ipv4_hostaddr (last fs) \<and> k + n \<le> 6) \<and>
     (last fs = [] \<longrightarrow> (if n = 0 then nf = k - 1 else fs ! (n - 1) = [])) \<and>
     (if 0 < nf \<and> nf < k then 1 else 0) + length (filter (\<lambda>f. f = []) (butlast fs)) \<le> 1)"

definition null_seen :: "nat \<Rightarrow> nat \<Rightarrow> string list \<Rightarrow> bool" where
  "null_seen k nf fs \<longleftrightarrow> (if hd fs = [] \<and> tl fs \<noteq> [] then nf = k else nf < k)"

lemma later_two:
  assumes "1 \<le> k" "k < 7" "null_seen k nf [f, g]"
  shows "later_fields k nf [f, g] \<longleftrightarrow> hex_field f \<and> later_fields (k + 1) nf [g]"
  using assms by (auto simp: later_fields_def null_seen_def split: if_splits)

lemma later_more:
  assumes "1 \<le> k" "k < 7" "null_seen k nf (f # g # hs @ [h])"
  shows "later_fields k nf (f # g # hs @ [h]) \<longleftrightarrow>
    hex_field f \<and> (if g = [] then nf = 0 \<and> later_fields (k + 1) (k + 1) (g # hs @ [h]) else later_fields (k + 1) nf (g # hs @ [h]))"
proof -
  let ?e = "length (filter (\<lambda>f. f = []) hs)"
  have n: "(f # g # hs @ [h]) ! Suc (length hs) = (g # hs @ [h]) ! length hs" by simp
  show ?thesis using assms unfolding later_fields_def null_seen_def Let_def
    by (simp add: n split: if_splits)
qed

lemma ipv6_fields_later:
  assumes "1 \<le> k" "k \<le> 7" "null_seen k nf fs" "fs \<noteq> []"
  shows "ipv6_fields k nf fs \<longleftrightarrow> later_fields k nf fs"
  using assms
proof (induction k nf fs rule: ipv6_fields.induct)
  case (2 k nf f)
  then show ?case using dotted_not_field [of f] by (auto simp: dotted_def later_fields_def null_seen_def)
next
  case (3 k nf f g fs)
  show ?case
  proof (cases "k < 7")
    case k: True
    show ?thesis
    proof (cases fs rule: rev_cases)
      case Nil
      then show ?thesis using "3.IH"(2) "3.prems" k later_two [of k nf f g] by (simp add: null_seen_def split: if_splits)
    next
      case (snoc hs h)
      then show ?thesis using "3.IH" "3.prems" k later_more [of k nf f g hs h] by (simp add: null_seen_def split: if_splits)
    qed
  next
    case False
    then show ?thesis using "3.prems"(2) by (auto simp: later_fields_def)
  qed
qed simp

lemma hex_alnum: "c \<in> set hex_digits \<Longrightarrow> ISALNUM c"
proof -
  have "list_all ISALNUM hex_digits" by code_simp
  then show "c \<in> set hex_digits \<Longrightarrow> ISALNUM c" by (simp add: list_all_iff)
qed

lemma valid_ipv6_fields: "valid_ipv6_hostaddr addr \<longleftrightarrow> ipv6_text addr"
proof -
  let ?fs = "fields_of CHR '':'' addr"
  have v: "valid_ipv6_hostaddr addr = ipv6_fields 0 0 ?fs"
    using ipv6_scan_fields [of 0 addr ?fs 0 0] by (simp add: valid_ipv6_hostaddr_def)
  obtain f fs where fs: "?fs = f # fs" using fields_Cons by blast
  show ?thesis
  proof (cases fs)
    case Nil
    then show ?thesis by (simp add: v fs ipv6_text_def)
  next
    case (Cons g gs)
    define nf :: nat where "nf = (if g = [] \<and> gs \<noteq> [] then 1 else 0)"
    have null: "null_seen 1 nf (g # gs)" by (simp add: null_seen_def nf_def)
    have "ipv6_fields 0 0 (f # g # gs) \<longleftrightarrow> hex_field f \<and> \<not> (f = [] \<and> g \<noteq> [] \<and> ISALNUM (hd g)) \<and> ipv6_fields 1 nf (g # gs)"
      by (auto simp: nf_def)
    then have "ipv6_fields 0 0 (f # g # gs) \<longleftrightarrow> hex_field f \<and> \<not> (f = [] \<and> g \<noteq> [] \<and> ISALNUM (hd g)) \<and> later_fields 1 nf (g # gs)"
      using ipv6_fields_later [OF _ _ null] by simp
    moreover have "ISALNUM (hd g)" if l: "later_fields 1 nf (g # gs)" and g: "g \<noteq> []"
    proof -
      have "hex_field g" using l by (cases gs) (auto simp: later_fields_def)
      then show ?thesis using g hex_alnum by (cases g) (auto simp: hex_field_def)
    qed
    moreover have "ipv6_text addr \<longleftrightarrow> hex_field f \<and> (f = [] \<longrightarrow> g = []) \<and> later_fields 1 nf (g # gs)"
      by (cases gs) (auto simp: ipv6_text_def fs Cons later_fields_def nf_def Let_def)
    ultimately show ?thesis unfolding v fs Cons by auto
  qed
qed

section \<open>UTF-8\<close>

definition utf8_encode :: "nat \<Rightarrow> char list" where
  "utf8_encode n =
     map char_of
       (if n < 0x80 then [n]
        else if n < 0x800 then [0xc0 + n div 64, 0x80 + n mod 64]
        else if n < 0x10000 then [0xe0 + n div 4096, 0x80 + n div 64 mod 64, 0x80 + n mod 64]
        else [0xf0 + n div 262144, 0x80 + n div 4096 mod 64, 0x80 + n div 64 mod 64, 0x80 + n mod 64])"

definition scalar_value :: "nat \<Rightarrow> bool" where
  "scalar_value n \<longleftrightarrow> n < 0xd800 \<or> 0xe000 \<le> n \<and> n \<le> 0x10ffff"

lemma and_c0: "x < 256 \<Longrightarrow> x AND 0xc0 = x div 64 * (64::nat)"
proof -
  assume x: "x < 256"
  have c0: "(0xc0::nat) = push_bit 6 (mask 2)" by (simp add: mask_eq_exp_minus_1 push_bit_eq_mult)
  have "n - 6 < 2" if "bit x n" "6 \<le> n" for n
    using that x bit_take_bit_iff [of 8 x n] take_bit_nat_eq_self [of x 8] by simp
  then have "x AND 0xc0 = push_bit 6 (drop_bit 6 x)"
    unfolding c0 by (intro bit_eqI) (auto simp: bit_and_iff bit_push_bit_iff bit_mask_iff bit_drop_bit_eq)
  then show ?thesis by (simp add: push_bit_eq_mult drop_bit_eq_div)
qed

lemma utf8_tail_iff: "utf8_tail ch \<longleftrightarrow> 0x80 \<le> ord ch \<and> ord ch < 0xc0"
  unfolding utf8_tail_def and_c0 [OF ord_bound [of ch]] by auto

lemma ord_char_of: "n < 256 \<Longrightarrow> ord (char_of n :: char) = (n::nat)"
  by simp

text \<open>The branches of the scanner.\<close>

lemma scan_one: "ord a \<le> 0x7f \<Longrightarrow> utf8_scan (a # s) = utf8_scan s"
  by simp

lemma scan_two: "0x80 \<le> ord a \<Longrightarrow> ord a \<le> 0xdf \<Longrightarrow>
  utf8_scan (a # s) \<longleftrightarrow> (\<exists>b s'. s = b # s' \<and> 0xc2 \<le> ord a \<and> utf8_tail b \<and> utf8_scan s')"
  by (cases s) auto

lemma scan_three: "0xe0 \<le> ord a \<Longrightarrow> ord a \<le> 0xef \<Longrightarrow>
  utf8_scan (a # s) \<longleftrightarrow> (\<exists>b c s'. s = b # c # s' \<and> (if ord a = 0xe0 then 0xa0 else 0x80) \<le> ord b \<and>
    ord b \<le> (if ord a = 0xed then 0x9f else 0xbf) \<and> utf8_tail c \<and> utf8_scan s')"
  by (auto simp: Let_def not_less split: list.split)

lemma scan_four: "0xf0 \<le> ord a \<Longrightarrow> ord a \<le> 0xf4 \<Longrightarrow>
  utf8_scan (a # s) \<longleftrightarrow> (\<exists>b c d s'. s = b # c # d # s' \<and> (if ord a = 0xf0 then 0x90 else 0x80) \<le> ord b \<and>
    ord b \<le> (if ord a = 0xf4 then 0x8f else 0xbf) \<and> utf8_tail c \<and> utf8_tail d \<and> utf8_scan s')"
  by (auto simp: Let_def not_less split: list.split)

declare utf8_scan.simps(2) [simp del]

text \<open>The encoding in terms of the payload bits of its bytes.\<close>

lemma radix64: "r < 64 \<Longrightarrow> (x * 64 + r) div 64 = x \<and> (x * 64 + r) mod 64 = (r::nat)"
  by simp

lemma encode_forms:
  assumes "q < 64" "r < 64" "t < 64"
  shows "0x80 \<le> q * 64 + r \<Longrightarrow> q < 32 \<Longrightarrow> utf8_encode (q * 64 + r) = map char_of [0xc0 + q, 0x80 + r]"
    and "0x800 \<le> p * 4096 + q * 64 + r \<Longrightarrow> p < 16 \<Longrightarrow>
      utf8_encode (p * 4096 + q * 64 + r) = map char_of [0xe0 + p, 0x80 + q, 0x80 + r]"
    and "0x10000 \<le> p * 262144 + q * 4096 + r * 64 + t \<Longrightarrow>
      utf8_encode (p * 262144 + q * 4096 + r * 64 + t) = map char_of [0xf0 + p, 0x80 + q, 0x80 + r, 0x80 + t]"
proof -
  show "utf8_encode (q * 64 + r) = map char_of [0xc0 + q, 0x80 + r]" if "0x80 \<le> q * 64 + r" "q < 32"
  proof -
    have "(q * 64 + r) div 64 = q" "(q * 64 + r) mod 64 = r" "q * 64 + r < 0x800" using assms that by auto
    then show ?thesis using that unfolding utf8_encode_def by simp
  qed
  show "utf8_encode (p * 4096 + q * 64 + r) = map char_of [0xe0 + p, 0x80 + q, 0x80 + r]"
    if "0x800 \<le> p * 4096 + q * 64 + r" "p < 16"
  proof -
    let ?n = "p * 4096 + q * 64 + r"
    have "?n = (p * 64 + q) * 64 + r" by simp
    then have "?n div 64 = p * 64 + q" "?n mod 64 = r" using radix64 [OF assms(2), of "p * 64 + q"] by metis+
    moreover have "?n div 4096 = p" "(p * 64 + q) mod 64 = q" "?n < 0x10000" using assms that by auto
    ultimately show ?thesis using that unfolding utf8_encode_def by simp
  qed
  show "utf8_encode (p * 262144 + q * 4096 + r * 64 + t) = map char_of [0xf0 + p, 0x80 + q, 0x80 + r, 0x80 + t]"
    if "0x10000 \<le> p * 262144 + q * 4096 + r * 64 + t"
  proof -
    let ?n = "p * 262144 + q * 4096 + r * 64 + t"
    have n: "?n = (p * 4096 + q * 64 + r) * 64 + t" "p * 4096 + q * 64 + r = (p * 64 + q) * 64 + r" by simp_all
    have "?n div 64 = p * 4096 + q * 64 + r" "?n mod 64 = t" using n(1) radix64 [OF assms(3)] by metis+
    moreover have "(p * 4096 + q * 64 + r) mod 64 = r" using n(2) radix64 [OF assms(2)] by metis
    moreover have "(p * 64 + q) mod 64 = q" using radix64 [OF assms(1)] by metis
    moreover have "?n div 4096 = p * 64 + q" "?n div 262144 = p" using assms by linarith+
    ultimately show ?thesis using that unfolding utf8_encode_def by simp
  qed
qed

lemma split64: "\<exists>q r. n = q * 64 + r \<and> r < (64::nat)"
  by (metis div_mult_mod_eq mod_less_divisor zero_less_numeral)

lemma tail_char: "r < 64 \<Longrightarrow> utf8_tail (char_of (0x80 + r :: nat))"
  by (simp add: utf8_tail_iff)

lemma utf8_scan_encode:
  assumes "scalar_value n"
  shows "utf8_scan (utf8_encode n @ s) = utf8_scan s"
proof -
  obtain m t where n: "n = m * 64 + t" "t < 64" using split64 by blast
  obtain k r where m: "m = k * 64 + r" "r < 64" using split64 by blast
  obtain p q where k: "k = p * 64 + q" "q < 64" using split64 by blast
  have max: "n \<le> 0x10ffff" using assms by (auto simp: scalar_value_def)
  then consider (one) "n < 0x80" | (two) "0x80 \<le> n" "m < 32" | (three) "0x800 \<le> n" "k < 16" | (four) "0x10000 \<le> n"
    using n m by linarith
  then show ?thesis
  proof cases
    case one
    then show ?thesis by (simp add: utf8_encode_def scan_one)
  next
    case two
    then have "2 \<le> m" using n by linarith
    then show ?thesis using two n encode_forms(1) [of m t 0] scan_two [of "char_of (0xc0 + m)"] tail_char by simp
  next
    case three
    have e: "utf8_encode n = map char_of [0xe0 + k, 0x80 + r, 0x80 + t]"
      using three n m encode_forms(2) [of r t 0 k] by (simp add: algebra_simps)
    have "k = 0 \<longrightarrow> 32 \<le> r" "k = 13 \<longrightarrow> r < 32" using three assms n m by (auto simp: scalar_value_def)
    then show ?thesis using three m(2) n(2) tail_char scan_three [of "char_of (0xe0 + k)"] unfolding e
      by (cases "k = 0"; cases "k = 13"; simp)
  next
    case four
    have e: "utf8_encode n = map char_of [0xf0 + p, 0x80 + q, 0x80 + r, 0x80 + t]"
      using four n m k encode_forms(3) [of q r t p] by (simp add: algebra_simps)
    have "p = 0 \<longrightarrow> 16 \<le> q" "p \<le> 4" "p = 4 \<longrightarrow> q < 16" using four max n m k by auto
    then show ?thesis using k(2) m(2) n(2) tail_char scan_four [of "char_of (0xf0 + p)"] unfolding e
      by (cases "p = 0"; cases "p = 4"; simp)
  qed
qed

definition utf8_text :: "char list \<Rightarrow> bool" where
  "utf8_text s \<longleftrightarrow> (\<exists>ns. list_all scalar_value ns \<and> s = concat (map utf8_encode ns))"

lemma utf8_text_Nil: "utf8_text []"
  unfolding utf8_text_def by (intro exI [of _ "[]"]) simp

lemma utf8_text_app:
  assumes "scalar_value n" "utf8_text s"
  shows "utf8_text (utf8_encode n @ s)"
proof -
  obtain ns where "list_all scalar_value ns" "s = concat (map utf8_encode ns)" using assms(2) by (auto simp: utf8_text_def)
  then show ?thesis unfolding utf8_text_def using assms(1) by (intro exI [of _ "n # ns"]) simp
qed

lemma tailE:
  assumes "utf8_tail b"
  obtains r :: nat where "r < 64" "b = char_of (0x80 + r)"
proof
  show "ord b - 0x80 < 64" "b = char_of (0x80 + (ord b - 0x80))" using assms by (auto simp: utf8_tail_iff)
qed

text \<open>A sequence of the right form in front of an encoded text gives an encoded text.\<close>

lemma two_bytes_text:
  assumes "0xc2 \<le> ord a" "ord a \<le> 0xdf" "utf8_tail b" "utf8_text s"
  shows "utf8_text (a # b # s)"
proof -
  obtain r :: nat where r: "r < 64" "b = char_of (0x80 + r)" by (rule tailE [OF assms(3)])
  define q where "q = ord a - 0xc0"
  have q: "2 \<le> q" "q < 32" "a = char_of (0xc0 + q)" using assms(1,2) by (auto simp: q_def)
  have "scalar_value (q * 64 + r)" using q r by (simp add: scalar_value_def)
  then show ?thesis using utf8_text_app [of "q * 64 + r" s] assms(4) encode_forms(1) [of q r 0] q r by simp
qed

lemma three_bytes_text:
  assumes "0xe0 \<le> ord a" "ord a \<le> 0xef" "(if ord a = 0xe0 then 0xa0 else 0x80) \<le> ord b"
    "ord b \<le> (if ord a = 0xed then 0x9f else 0xbf)" "utf8_tail c" "utf8_text s"
  shows "utf8_text (a # b # c # s)"
proof -
  obtain r :: nat where r: "r < 64" "c = char_of (0x80 + r)" by (rule tailE [OF assms(5)])
  define p q where "p = ord a - 0xe0" and "q = ord b - 0x80"
  have ab: "ord a = 0xe0 + p" "ord b = 0x80 + q" using assms(1,3) by (auto simp: p_def q_def split: if_splits)
  have q: "p < 16" "q < 64" "p = 0 \<longrightarrow> 32 \<le> q" "p = 13 \<longrightarrow> q < 32"
    using assms(1-4) unfolding ab by (auto split: if_splits)
  have "a = char_of (0xe0 + p)" "b = char_of (0x80 + q)" by (simp_all flip: ab)
  note q = q this
  have low: "0x800 \<le> p * 4096 + q * 64 + r" using q(3) by (cases "p = 0") auto
  consider "p < 13" | "p = 13" | "14 \<le> p" by linarith
  then have "scalar_value (p * 4096 + q * 64 + r)" by cases (use q r(1) in \<open>auto simp: scalar_value_def\<close>)
  with low show ?thesis using utf8_text_app [of "p * 4096 + q * 64 + r" s] assms(6) encode_forms(2) [of q r 0 p] q r by simp
qed

lemma four_bytes_text:
  assumes "0xf0 \<le> ord a" "ord a \<le> 0xf4" "(if ord a = 0xf0 then 0x90 else 0x80) \<le> ord b"
    "ord b \<le> (if ord a = 0xf4 then 0x8f else 0xbf)" "utf8_tail c" "utf8_tail d" "utf8_text s"
  shows "utf8_text (a # b # c # d # s)"
proof -
  obtain r :: nat where r: "r < 64" "c = char_of (0x80 + r)" by (rule tailE [OF assms(5)])
  obtain t :: nat where t: "t < 64" "d = char_of (0x80 + t)" by (rule tailE [OF assms(6)])
  define p q where "p = ord a - 0xf0" and "q = ord b - 0x80"
  have ab: "ord a = 0xf0 + p" "ord b = 0x80 + q" using assms(1,3) by (auto simp: p_def q_def split: if_splits)
  have q: "p \<le> 4" "q < 64" "p = 0 \<longrightarrow> 16 \<le> q" "p = 4 \<longrightarrow> q < 16"
    using assms(1-4) unfolding ab by (auto split: if_splits)
  have "a = char_of (0xf0 + p)" "b = char_of (0x80 + q)" by (simp_all flip: ab)
  note q = q this
  have low: "0x10000 \<le> p * 262144 + q * 4096 + r * 64 + t" using q(3) by (cases "p = 0") auto
  have "p * 262144 + q * 4096 + r * 64 + t \<le> 0x10ffff" using q(1,2,4) r(1) t(1) by (cases "p = 4") auto
  then have "scalar_value (p * 262144 + q * 4096 + r * 64 + t)" using low by (simp add: scalar_value_def)
  with low show ?thesis
    using utf8_text_app [of "p * 262144 + q * 4096 + r * 64 + t" s] assms(7) encode_forms(3) [of q r t p] q r t by simp
qed

lemma utf8_scan_text: "utf8_scan s \<Longrightarrow> utf8_text s"
proof (induction s rule: length_induct)
  case (1 s)
  have IH: "utf8_scan s' \<Longrightarrow> length s' < length s \<Longrightarrow> utf8_text s'" for s' using 1 by blast
  show ?case
  proof (cases s)
    case Nil
    then show ?thesis by (simp add: utf8_text_Nil)
  next
    case (Cons a s1)
    consider (one) "ord a \<le> 0x7f" | (two) "0x80 \<le> ord a" "ord a \<le> 0xdf" | (three) "0xe0 \<le> ord a" "ord a \<le> 0xef"
      | (four) "0xf0 \<le> ord a" "ord a \<le> 0xf4" | (bad) "ord a > 0xf4" by linarith
    then show ?thesis
    proof cases
      case one
      then have "utf8_text s1" "utf8_encode (ord a) = [a]" "scalar_value (ord a)"
        using IH [of s1] 1(2) Cons by (auto simp: scan_one scalar_value_def utf8_encode_def)
      then show ?thesis using utf8_text_app [of "ord a" s1] Cons by simp
    next
      case two
      then obtain b s' where s: "s1 = b # s'" "0xc2 \<le> ord a" "utf8_tail b" "utf8_scan s'"
        using scan_two [OF two] 1(2) Cons by auto
      then show ?thesis using two_bytes_text [OF s(2) two(2) s(3)] IH [OF s(4)] Cons by simp
    next
      case three
      then obtain b c s' where s: "s1 = b # c # s'" "(if ord a = 0xe0 then 0xa0 else 0x80) \<le> ord b"
        "ord b \<le> (if ord a = 0xed then 0x9f else 0xbf)" "utf8_tail c" "utf8_scan s'"
        using scan_three [OF three] 1(2) Cons by auto
      then show ?thesis using three_bytes_text [OF three s(2,3,4)] IH [OF s(5)] Cons by simp
    next
      case four
      then obtain b c d s' where s: "s1 = b # c # d # s'" "(if ord a = 0xf0 then 0x90 else 0x80) \<le> ord b"
        "ord b \<le> (if ord a = 0xf4 then 0x8f else 0xbf)" "utf8_tail c" "utf8_tail d" "utf8_scan s'"
        using scan_four [OF four] 1(2) Cons by auto
      then show ?thesis using four_bytes_text [OF four s(2,3,4,5)] IH [OF s(6)] Cons by simp
    next
      case bad
      then show ?thesis using 1(2) Cons by (simp add: utf8_scan.simps(2))
    qed
  qed
qed

lemma utf8_scan_iff: "utf8_scan s \<longleftrightarrow> utf8_text s"
proof
  assume "utf8_text s"
  then obtain ns where "list_all scalar_value ns" "s = concat (map utf8_encode ns)" by (auto simp: utf8_text_def)
  then show "utf8_scan s" by (induction ns arbitrary: s) (auto simp: utf8_scan_encode)
qed (rule utf8_scan_text)

section \<open>Port numbers\<close>

fun dec_text :: "nat \<Rightarrow> string" where
  "dec_text n = (if n < 10 then [char_of (48 + n)] else dec_text (n div 10) @ [char_of (48 + n mod 10)])"

declare dec_text.simps [simp del]

lemma digits_value_snoc: "digits_value (s @ [c]) v = 10 * digits_value s v + (ord c - 48)"
  by (induction s v rule: digits_value.induct) auto

lemma digit_char: "ISDIGIT c \<longleftrightarrow> (\<exists>d<10. c = char_of (48 + d :: nat))"
proof
  assume "ISDIGIT c"
  then show "\<exists>d<10. c = char_of (48 + d :: nat)"
    by (intro exI [of _ "ord c - 48"]) (auto simp: ISDIGIT_def)
qed (auto simp: ctype_defs)

lemma digit_of: "d < 10 \<Longrightarrow> ISDIGIT (char_of (48 + d :: nat))"
  by (simp add: ISDIGIT_def ISASCII_def)

lemma zero_char: "char_of (48 :: nat) = CHR ''0''"
  by (simp add: char_of_def bit_0)

lemma dec_text_digits:
  "list_all ISDIGIT (dec_text n) \<and> digits_value (dec_text n) 0 = n \<and> dec_text n \<noteq> [] \<and>
   (0 < n \<longrightarrow> hd (dec_text n) \<noteq> CHR ''0'')"
proof (induction n rule: dec_text.induct)
  case (1 n)
  show ?case
  proof (cases "n < 10")
    case True
    have z: "ord (char_of (48 + n) :: char) = 48 + n" using True by simp
    have "0 < n \<longrightarrow> char_of (48 + n) \<noteq> CHR ''0''"
    proof (intro impI notI)
      assume "0 < n" "char_of (48 + n) = CHR ''0''"
      then have "48 + n = ord CHR ''0''" using z by simp
      with \<open>0 < n\<close> show False by simp
    qed
    then show ?thesis using True z by (auto simp: dec_text.simps [of n] digit_of)
  next
    case False
    then show ?thesis using 1 by (subst (1 2 3 4) dec_text.simps) (auto simp: digits_value_snoc digit_of)
  qed
qed

lemma dec_text_value:
  assumes "list_all ISDIGIT s" "s \<noteq> []" "hd s \<noteq> CHR ''0'' \<or> tl s = []"
  shows "dec_text (digits_value s 0) = s"
  using assms
proof (induction s rule: rev_induct)
  case (snoc c s)
  obtain d where d: "d < 10" "c = char_of (48 + d :: nat)" using snoc.prems(1) digit_char [of c] by auto
  have oc: "ord c = 48 + d" using d by simp
  show ?case
  proof (cases "s = []")
    case True
    then show ?thesis using d oc by (simp add: dec_text.simps [of d])
  next
    case False
    have h: "hd s \<noteq> CHR ''0''" using snoc.prems(3) False by auto
    have pos: "0 < digits_value s 0"
    proof (rule ccontr)
      assume "\<not> 0 < digits_value s 0"
      obtain e s' where s: "s = e # s'" using False by (cases s) auto
      then obtain x where x: "x < 10" "e = char_of (48 + x :: nat)" using snoc.prems(1) digit_char [of e] by auto
      have "0 < x" using h s x zero_char by (cases "x = 0") auto
      then have "0 < digits_value s 0" using digits_value_mono [of x s'] x by (simp add: s)
      then show False using \<open>\<not> 0 < digits_value s 0\<close> by simp
    qed
    have "dec_text (digits_value s 0) = s" using snoc.IH snoc.prems(1) False h by auto
    then show ?thesis using pos d oc by (subst dec_text.simps) (simp add: digits_value_snoc)
  qed
qed simp

lemma digits_value_bound: "list_all ISDIGIT s \<Longrightarrow> digits_value s 0 < 10 ^ length s"
proof (induction s rule: rev_induct)
  case (snoc c s)
  then obtain d where "d < 10" "c = char_of (48 + d :: nat)" using digit_char [of c] by auto
  then show ?case using snoc by (simp add: digits_value_snoc)
qed simp

lemma dec_text_length: "n < 10 ^ Suc k \<Longrightarrow> length (dec_text n) \<le> Suc k"
proof (induction k arbitrary: n)
  case 0
  then show ?case by (simp add: dec_text.simps [of n])
next
  case (Suc k)
  show ?case
  proof (cases "n < 10")
    case True
    then show ?thesis by (simp add: dec_text.simps [of n])
  next
    case False
    have "n div 10 < 10 ^ Suc k" using Suc.prems by auto
    from Suc.IH [OF this] False show ?thesis by (simp add: dec_text.simps [of n])
  qed
qed

lemma atoi_value: "list_all ISDIGIT s \<Longrightarrow> atoi_digits s (int v) = int (digits_value s v)"
proof (induction s arbitrary: v)
  case (Cons c s)
  then have "48 \<le> ord c" by (simp add: ISDIGIT_def)
  then have eq: "10 * int v + (int (ord c) - 48) = int (10 * v + (ord c - 48))"
    by (simp only: of_nat_add of_nat_mult of_nat_diff of_nat_numeral)
  have "atoi_digits s (int (10 * v + (ord c - 48))) = int (digits_value s (10 * v + (ord c - 48)))"
    by (rule Cons.IH) (use Cons.prems in simp)
  moreover have "ISDIGIT c" using Cons.prems by simp
  ultimately show ?case unfolding atoi_digits.simps digits_value.simps eq by (simp only: if_True)
qed simp

lemma valid_hostport_text: "valid_hostport s \<longleftrightarrow> (\<exists>n \<le> 65535. s = dec_text n)"
proof
  assume v: "valid_hostport s"
  then have s: "s \<noteq> []" "list_all ISDIGIT s" "hd s \<noteq> CHR ''0'' \<or> tl s = []" "atoi_digits s 0 \<le> 65535"
    by (auto simp: valid_hostport_def alldig_iff Let_def split: if_splits)
  then have "digits_value s 0 \<le> 65535" using atoi_value [of s 0] by simp
  then show "\<exists>n \<le> 65535. s = dec_text n" using dec_text_value [OF s(2,1,3)] by metis
next
  assume "\<exists>n \<le> 65535. s = dec_text n"
  then obtain n where n: "n \<le> 65535" "s = dec_text n" by blast
  have d: "list_all ISDIGIT s" "digits_value s 0 = n" "s \<noteq> []" "0 < n \<longrightarrow> hd s \<noteq> CHR ''0''"
    using dec_text_digits [of n] n(2) by auto
  have "length s \<le> 5" using dec_text_length [of n 4] n by simp
  moreover have "n = 0 \<longrightarrow> tl s = []" using n(2) by (simp add: dec_text.simps)
  moreover have "atoi_digits s 0 = int n" using atoi_value [OF d(1), of 0] d(2) by simp
  ultimately show "valid_hostport s" using d n(1) by (auto simp: valid_hostport_def alldig_iff)
qed

section \<open>Properties\<close>

text \<open>
  C17: \<open>valid_hostname\<close> accepts exactly the names of at most 255 characters that are not made of
  digits and dots only, and whose labels between the dots have 1 to 63 letters, digits, underscores
  and hyphens, with no hyphen at either end. The underscore is not in the description at the top of
  \<open>valid_hostname.c\<close>, which says ``only letters, digits, dots and hyphens'': the scanner treats it like a
  letter.
\<close>

theorem valid_hostname_syntax:
  "valid_hostname name \<longleftrightarrow>
     length name \<le> 255 \<and> \<not> list_all (\<lambda>c. ISDIGIT c \<or> c = CHR ''.'') name \<and>
     list_all (\<lambda>label. 1 \<le> length label \<and> length label \<le> 63 \<and>
        list_all (\<lambda>c. ISALNUM c \<or> c = CHR ''_'' \<or> c = CHR ''-'') label \<and>
        hd label \<noteq> CHR ''-'' \<and> last label \<noteq> CHR ''-'') (fields_of CHR ''.'' name)"
  unfolding valid_hostname_fields VALID_HOSTNAME_LEN_def numeric_char_def
  by (auto simp: list_all_iff host_label_def VALID_LABEL_LEN_def host_char_def Suc_le_eq)

text \<open>
  C18: \<open>valid_hostaddr\<close> by fields. Without a colon: four groups of digits of value at most 255,
  the first of value zero only when the whole text is made of zeros and dots. With a colon: three to
  eight fields of at most four hexadecimal digits, or three to seven with a dotted quad at the end
  (whose first group has at most four characters); at most one inner field is empty, and an empty
  first or last field has an empty neighbour. (The number of fields is not tied to the presence of
  an empty one: the comment in the source asks for eight fields or a compressed form, but \<open>1:2:3\<close>
  is accepted.)
\<close>

theorem valid_hostaddr_syntax:
  "valid_hostaddr addr \<longleftrightarrow>
     (if CHR '':'' \<in> set addr then
        let fs = fields_of CHR '':'' addr; n = length fs - 1 in
        2 \<le> n \<and> list_all hex_field (butlast fs) \<and>
        (hex_field (last fs) \<and> n \<le> 7 \<or> dotted (last fs) \<and> valid_ipv4_hostaddr (last fs) \<and> n \<le> 6) \<and>
        (hd fs = [] \<longrightarrow> fs ! 1 = []) \<and> (last fs = [] \<longrightarrow> fs ! (n - 1) = []) \<and>
        length (filter (\<lambda>f. f = []) (butlast (tl fs))) \<le> 1
      else
        let octets = fields_of CHR ''.'' addr in
        length octets = 4 \<and>
        list_all (\<lambda>f. f \<noteq> [] \<and> list_all ISDIGIT f \<and> digits_value f 0 \<le> 255) octets \<and>
        (digits_value (hd octets) 0 = 0 \<longrightarrow> list_all (\<lambda>c. c = CHR ''0'' \<or> c = CHR ''.'') addr))"
proof -
  have colon: "strchr addr CHR '':'' \<noteq> None \<longleftrightarrow> CHR '':'' \<in> set addr" by (induction addr) auto
  show ?thesis
  proof (cases "addr = []")
    case False
    then show ?thesis unfolding valid_hostaddr_def colon valid_ipv6_fields valid_ipv4_fields ipv6_text_def octet_def zero_ok_def
      by simp
  qed (simp add: valid_hostaddr_def)
qed

theorem valid_hostaddr_syntax_witness:
  "valid_hostaddr ''2001:db8::1'' \<and> valid_hostaddr ''::ffff:1.2.3.4'' = valid_ipv4_hostaddr ''1.2.3.4'' \<and>
   valid_hostaddr ''1:2:3'' \<and> valid_hostaddr ''168.100.1.2'' \<and> \<not> valid_hostaddr ''0.1.2.3'' \<and> \<not> valid_hostaddr ''1::2::3''"
  unfolding valid_hostaddr_syntax
  by (simp add: hex_field_def hex_digits_def dotted_def strspn_def Let_def ctype_defs)

text \<open>
  C19: \<open>valid_utf8_string\<close> accepts exactly the texts that are the UTF-8 encoding of a sequence of
  Unicode scalar values: no overlong form, no surrogate, nothing above 0x10ffff, no truncated
  character.
\<close>

theorem valid_utf8_iff:
  "valid_utf8_string str (int (length str)) \<longleftrightarrow>
     (\<exists>ns. list_all (\<lambda>n. n < 0xd800 \<or> 0xe000 \<le> n \<and> n \<le> 0x10ffff) ns \<and> str = concat (map utf8_encode ns))"
  using utf8_scan_iff [of str] utf8_text_Nil
  by (cases "str = []") (auto simp: valid_utf8_string_def utf8_text_def scalar_value_def [abs_def])

text \<open>
  \<open>valid_hostport\<close> accepts exactly the decimal texts, without leading zeros, of the numbers up
  to 65535.
\<close>

lemma valid_hostport_iff: "valid_hostport str \<longleftrightarrow> (\<exists>n. n \<le> 65535 \<and> str = dec_text n)"
  using valid_hostport_text [of str] by blast

end
