(* ===== verification/Midna.thy ===== *)
theory Midna
  imports Ctable Hostname
begin

text \<open>
  Internationalised domain names (\<open>src/util/midna_domain.c\<close>), their check
  (\<open>src/util/valid_utf8_hostname.c\<close>) and the host and port parser \<open>src/util/host_port.c\<close>.

  The conversions keep two caches of the cache manager in static variables; the constructor of the
  UTF-8 cache itself calls the cached ASCII conversion. The ICU library is a parameter: a
  function that gives, for a name, whether the call succeeded, the error bits of its report, and
  the text stored in the buffer. The theorems show that the caches cannot be observed: every
  conversion returns what its constructor computes.
\<close>

section \<open>midna\_domain.c\<close>

type_synonym icu_fn = "string \<Rightarrow> bool \<times> nat \<times> char list"

definition allascii :: "string \<Rightarrow> bool" where
  "allascii s = allascii_len s (-1)"

text \<open>The C string in a buffer, up to the first null byte.\<close>

definition c_str :: "char list \<Rightarrow> string" where
  "c_str buf = takeWhile (\<lambda>c. c \<noteq> NUL) buf"

definition midna_domain_to_ascii_create :: "icu_fn \<Rightarrow> string \<Rightarrow> string option" where
  "midna_domain_to_ascii_create nameToASCII name =
     (if \<not> allascii name \<and> \<not> valid_utf8_string name (int (length name)) then None
      else let (success, errors, buf) = nameToASCII name in
        if success \<and> errors = 0 \<and> length buf > 0 then
          if \<not> valid_hostname (c_str buf) then None else Some (c_str buf)
        else None)"

text \<open>The constructor and destructor of the ASCII cache; their context argument is unused.\<close>

definition ascii_create :: "icu_fn \<Rightarrow> (string option, unit) create_fn" where
  "ascii_create nameToASCII name c = (midna_domain_to_ascii_create nameToASCII name, c)"

definition midna_domain_cache_free :: "(string option, 'c) delete_fn" where
  "midna_domain_cache_free value c = c"

type_synonym ascii_cache = "(string option, unit) ctable option"

definition to_ascii :: "int \<Rightarrow> icu_fn \<Rightarrow> ascii_cache \<Rightarrow> string \<Rightarrow> (ascii_cache \<times> string option) outcome" where
  "to_ascii cache_size nameToASCII cache name =
     obind (case cache of None \<Rightarrow> ctable_create cache_size () | Some c \<Rightarrow> Ok c) (\<lambda>c.
     obind (ctable_locate (ascii_create nameToASCII) midna_domain_cache_free c name) (\<lambda>(c, value).
     Ok (Some c, value)))"

text \<open>
  The constructor of the UTF-8 cache converts its result back through the ASCII cache, a static
  variable: the context of the UTF-8 cache stands for that variable while the constructor runs.
\<close>

definition midna_domain_to_utf8_create ::
  "int \<Rightarrow> icu_fn \<Rightarrow> icu_fn \<Rightarrow> (string option, ascii_cache outcome) create_fn" where
  "midna_domain_to_utf8_create cache_size nameToASCII nameToUnicode name ascii =
     (if \<not> allascii name \<and> \<not> valid_utf8_string name (int (length name)) then (None, ascii)
      else let (success, errors, buf) = nameToUnicode name in
        if success \<and> errors = 0 \<and> length buf > 0 then
          (case obind ascii (\<lambda>ascii. to_ascii cache_size nameToASCII ascii (c_str buf)) of
             Ok (ascii, None) \<Rightarrow> (None, Ok ascii)
           | Ok (ascii, Some _) \<Rightarrow> (Some (c_str buf), Ok ascii)
           | failed \<Rightarrow> (None, obind failed (\<lambda>(ascii, _). Ok ascii)))
        else (None, ascii))"

record midna =
  midna_to_ascii_cache :: ascii_cache
  midna_to_utf8_cache :: "(string option, ascii_cache outcome) ctable option"

definition midna_domain_to_ascii :: "int \<Rightarrow> icu_fn \<Rightarrow> midna \<Rightarrow> string \<Rightarrow> (midna \<times> string option) outcome" where
  "midna_domain_to_ascii cache_size nameToASCII st name =
     obind (to_ascii cache_size nameToASCII (midna_to_ascii_cache st) name) (\<lambda>(cache, value).
     Ok (st\<lparr>midna_to_ascii_cache := cache\<rparr>, value))"

definition midna_domain_to_utf8 ::
  "int \<Rightarrow> icu_fn \<Rightarrow> icu_fn \<Rightarrow> midna \<Rightarrow> string \<Rightarrow> (midna \<times> string option) outcome" where
  "midna_domain_to_utf8 cache_size nameToASCII nameToUnicode st name =
     obind (case midna_to_utf8_cache st of
              None \<Rightarrow> ctable_create cache_size (Ok (midna_to_ascii_cache st))
            | Some c \<Rightarrow> Ok (ctable_newcontext c (Ok (midna_to_ascii_cache st)))) (\<lambda>c.
     obind (ctable_locate (midna_domain_to_utf8_create cache_size nameToASCII nameToUnicode) midna_domain_cache_free c name) (\<lambda>(c, value).
     obind (ct_context c) (\<lambda>ascii.
     Ok (\<lparr>midna_to_ascii_cache = ascii, midna_to_utf8_cache = Some c\<rparr>, value))))"

definition midna_domain_suffix_to_ascii :: "int \<Rightarrow> icu_fn \<Rightarrow> midna \<Rightarrow> string \<Rightarrow> (midna \<times> string option) outcome" where
  "midna_domain_suffix_to_ascii cache_size nameToASCII st suffix =
     obind (midna_domain_to_ascii cache_size nameToASCII st (CHR ''x'' # suffix)) (\<lambda>(st, cache_res).
     Ok (st, map_option (drop 1) cache_res))"

definition midna_domain_suffix_to_utf8 ::
  "int \<Rightarrow> icu_fn \<Rightarrow> icu_fn \<Rightarrow> midna \<Rightarrow> string \<Rightarrow> (midna \<times> string option) outcome" where
  "midna_domain_suffix_to_utf8 cache_size nameToASCII nameToUnicode st name =
     obind (midna_domain_to_utf8 cache_size nameToASCII nameToUnicode st (CHR ''x'' # name)) (\<lambda>(st, cache_res).
     Ok (st, map_option (drop 1) cache_res))"

section \<open>valid\_utf8\_hostname.c\<close>

definition valid_utf8_hostname :: "int \<Rightarrow> icu_fn \<Rightarrow> midna \<Rightarrow> bool \<Rightarrow> string \<Rightarrow> (midna \<times> bool) outcome" where
  "valid_utf8_hostname cache_size nameToASCII st enable_utf8 name =
     (if name = [] then Ok (st, False)
      else if enable_utf8 \<and> \<not> allascii name then
        obind (midna_domain_to_ascii cache_size nameToASCII st name) (\<lambda>(st, value).
        if value = None then Ok (st, False) else Ok (st, True))
      else Ok (st, valid_hostname name))"

section \<open>host\_port.c\<close>

definition IPV6_COL :: string where
  "IPV6_COL = ''IPv6:''"

definition HAS_IPV6_COL :: "string \<Rightarrow> bool" where
  "HAS_IPV6_COL str \<longleftrightarrow> strcasecmp (take (length IPV6_COL) str) IPV6_COL = 0"

text \<open>
  A result pointer of \<open>host_port\<close> is one of the caller's defaults or points into the buffer; the
  final checks tell them apart.
\<close>

datatype part = Default string | Parsed string

primrec part_text :: "part \<Rightarrow> string" where
  "part_text (Default s) = s"
| "part_text (Parsed s) = s"

definition parsed_or :: "string \<Rightarrow> string option \<Rightarrow> part option" where
  "parsed_or s def = (if s \<noteq> [] then Some (Parsed s) else map_option Default def)"

definition host_port_split :: "string \<Rightarrow> string option \<Rightarrow> string option \<Rightarrow> string + (part option \<times> part option)" where
  "host_port_split buf def_host def_service =
     (if buf \<noteq> [] \<and> hd buf = CHR ''['' then
        let cp = tl buf;
            ipv6 = HAS_IPV6_COL cp;
            cp = (if ipv6 then drop (length IPV6_COL) cp else cp)
        in case split_at cp CHR '']'' of
             (_, None) \<Rightarrow> Inl ''missing ]''
           | (host, Some cp) \<Rightarrow>
               if cp \<noteq> [] \<and> hd cp \<noteq> CHR '':'' then Inl ''garbage after ]''
               else if ipv6 \<and> \<not> valid_ipv6_hostaddr host then Inl ''malformed IPv6 address''
               else Inr (Some (Parsed host), parsed_or (tl cp) def_service)
      else case split_at_right buf CHR '':'' of
          (host, Some cp) \<Rightarrow> Inr (parsed_or host def_host, parsed_or cp def_service)
        | (_, None) \<Rightarrow>
            Inr (case def_host of Some h \<Rightarrow> Some (Default h) | None \<Rightarrow> parsed_or buf None,
                 case def_service of Some s \<Rightarrow> Some (Default s) | None \<Rightarrow> parsed_or buf None))"

definition host_valid :: "int \<Rightarrow> icu_fn \<Rightarrow> midna \<Rightarrow> bool \<Rightarrow> part \<Rightarrow> (midna \<times> bool) outcome" where
  "host_valid cache_size nameToASCII st util_utf8_enable host =
     (case host of
        Default _ \<Rightarrow> Ok (st, True)
      | Parsed h \<Rightarrow>
          obind (valid_utf8_hostname cache_size nameToASCII st util_utf8_enable h) (\<lambda>(st, ok).
          Ok (st, ok \<or> valid_hostaddr h)))"

primrec port_valid :: "part \<Rightarrow> bool" where
  "port_valid (Default _) = True"
| "port_valid (Parsed p) = (\<not> (ISDIGIT (hd p) \<and> \<not> alldig p))"

definition host_port ::
  "int \<Rightarrow> icu_fn \<Rightarrow> midna \<Rightarrow> bool \<Rightarrow> string \<Rightarrow> string option \<Rightarrow> string option \<Rightarrow> (midna \<times> (string + string \<times> string)) outcome" where
  "host_port cache_size nameToASCII st util_utf8_enable buf def_host def_service =
     (case host_port_split buf def_host def_service of
        Inl err \<Rightarrow> Ok (st, Inl err)
      | Inr (None, _) \<Rightarrow> Ok (st, Inl ''missing host information'')
      | Inr (Some host, None) \<Rightarrow> Ok (st, Inl ''missing service information'')
      | Inr (Some host, Some port) \<Rightarrow>
          obind (host_valid cache_size nameToASCII st util_utf8_enable host) (\<lambda>(st, ok).
          if \<not> ok then Ok (st, Inl ''valid hostname or network address required'')
          else if \<not> port_valid port then Ok (st, Inl ''garbage after numerical service'')
          else Ok (st, Inr (part_text host, part_text port))))"

section \<open>The caches cannot be observed\<close>

text \<open>What the conversions compute without a cache.\<close>

definition utf8_pure :: "icu_fn \<Rightarrow> icu_fn \<Rightarrow> string \<Rightarrow> string option" where
  "utf8_pure nameToASCII nameToUnicode name =
     (if \<not> allascii name \<and> \<not> valid_utf8_string name (int (length name)) then None
      else let (success, errors, buf) = nameToUnicode name in
        if success \<and> errors = 0 \<and> length buf > 0 \<and> midna_domain_to_ascii_create nameToASCII (c_str buf) \<noteq> None
        then Some (c_str buf) else None)"

text \<open>Every pair of a cache is a name with the value of the function.\<close>

definition caches :: "(string \<Rightarrow> 'v) \<Rightarrow> (string \<times> 'v) list \<Rightarrow> bool" where
  "caches f kvs \<longleftrightarrow> list_all (\<lambda>(k, v). v = f k) kvs"

lemma caches_locate:
  assumes rep: "ct_rep cache (kvs, c)" and kvs: "caches f kvs"
    and create: "fst (create key c) = f key" and delete: "\<And>v. delete v c = c"
  shows "returns (ctable_locate create delete cache key) (\<lambda>(cache', v). v = f key \<and>
    (\<exists>kvs'. caches f kvs' \<and> ct_rep cache' (kvs', ct_context cache') \<and>
      (ct_context cache' = c \<or> ct_context cache' = snd (create key c))))"
proof -
  let ?l = "lru_locate (ct_limit cache) create delete (kvs, c) key"
  have "snd ?l = f key \<and> caches f (fst (fst ?l)) \<and> (snd (fst ?l) = c \<or> snd (fst ?l) = snd (create key c))"
  proof (cases "map_of kvs key")
    case (Some v)
    then have "v = f key" using kvs map_of_SomeD [OF Some] by (auto simp: caches_def list_all_iff)
    then show ?thesis using Some kvs by (auto simp: lru_locate_def caches_def list_all_iff)
  next
    case None
    define kvs' where "kvs' = (if length kvs \<ge> ct_limit cache then butlast kvs else kvs)"
    have l: "?l = (((key, fst (create key c)) # kvs', snd (create key c)), fst (create key c))"
      using None by (simp add: lru_locate_def delete kvs'_def Let_def split: prod.split)
    have "caches f kvs'" using kvs by (auto simp: kvs'_def caches_def list_all_iff dest: in_set_butlastD)
    then show ?thesis unfolding l using create by (auto simp: caches_def)
  qed
  moreover obtain cache' where loc: "ctable_locate create delete cache key = Ok (cache', snd ?l)" "ct_rep cache' (fst ?l)"
    using locate_refines [OF rep, of create delete key] by (auto simp: returns_def)
  moreover from loc(2) have "snd (fst ?l) = ct_context cache'" by (auto simp: ct_rep_def)
  moreover from this loc(2) have "ct_rep cache' (fst (fst ?l), ct_context cache')" by (metis prod.collapse)
  ultimately show ?thesis by (auto intro!: exI [of _ "fst (fst ?l)"])
qed

definition cache_ok :: "(string \<Rightarrow> 'v) \<Rightarrow> ('v, 'c) ctable option \<Rightarrow> bool" where
  "cache_ok f cache \<longleftrightarrow> (\<forall>c. cache = Some c \<longrightarrow> (\<exists>kvs. ct_rep c (kvs, ct_context c) \<and> caches f kvs))"

lemma cache_ok_start:
  fixes cache :: "('v, 'c) ctable option"
  assumes "cache_ok f cache" "1 \<le> limit"
  shows "\<exists>c kvs. (case cache of None \<Rightarrow> ctable_create limit context | Some c \<Rightarrow> Ok (ctable_newcontext c context)) = Ok c \<and>
    ct_rep c (kvs, context) \<and> caches f kvs"
proof (cases cache)
  case None
  obtain c :: "('v, 'c) ctable" where c: "ctable_create limit context = Ok c" using assms(2) by (auto simp: ctable_create_def)
  moreover have "caches f []" by (simp add: caches_def)
  ultimately show ?thesis using None create_rep(1) [OF c] by auto
next
  case (Some c)
  then obtain kvs where "ct_rep c (kvs, ct_context c)" "caches f kvs" using assms(1) by (auto simp: cache_ok_def)
  moreover from this(1) have "ct_rep (ctable_newcontext c context) (kvs, context)"
    by (auto simp: ct_rep_def ct_inv_def ct_pairs_def ctable_newcontext_def)
  ultimately show ?thesis using Some by auto
qed

lemma to_ascii_law:
  assumes "cache_ok (midna_domain_to_ascii_create icu) cache" "1 \<le> limit"
  shows "returns (to_ascii limit icu cache name) (\<lambda>(cache', v).
    cache_ok (midna_domain_to_ascii_create icu) cache' \<and> v = midna_domain_to_ascii_create icu name)"
proof -
  have unit: "(case cache of None \<Rightarrow> ctable_create limit () | Some c \<Rightarrow> Ok c) =
    (case cache of None \<Rightarrow> ctable_create limit () | Some c \<Rightarrow> Ok (ctable_newcontext c ()))"
    by (simp add: ctable_newcontext_def split: option.split)
  obtain c kvs where c: "(case cache of None \<Rightarrow> ctable_create limit () | Some c \<Rightarrow> Ok c) = Ok c"
    "ct_rep c (kvs, ())" "caches (midna_domain_to_ascii_create icu) kvs"
    unfolding unit using cache_ok_start [OF assms] by blast
  from caches_locate [OF c(2,3), where create = "ascii_create icu" and delete = midna_domain_cache_free and key = name] c(1) show ?thesis
    by (auto simp: ascii_create_def to_ascii_def returns_def cache_ok_def midna_domain_cache_free_def)
qed

definition context_ok :: "icu_fn \<Rightarrow> ascii_cache outcome \<Rightarrow> bool" where
  "context_ok icu c \<longleftrightarrow> returns c (cache_ok (midna_domain_to_ascii_create icu))"

lemma utf8_create_law:
  assumes "context_ok ascii c" "1 \<le> limit"
  shows "fst (midna_domain_to_utf8_create limit ascii unicode name c) = utf8_pure ascii unicode name \<and>
    context_ok ascii (snd (midna_domain_to_utf8_create limit ascii unicode name c))"
proof -
  obtain a where a: "c = Ok a" "cache_ok (midna_domain_to_ascii_create ascii) a"
    using assms(1) by (auto simp: context_ok_def returns_def)
  have law: "\<exists>a'. to_ascii limit ascii a n = Ok (a', midna_domain_to_ascii_create ascii n) \<and> cache_ok (midna_domain_to_ascii_create ascii) a'" for n
    using to_ascii_law [OF a(2) assms(2), of n] by (auto simp: returns_def)
  obtain success errors buf where icu: "unicode name = (success, errors, buf)" by (metis prod_cases3)
  from law [of "c_str buf"] show ?thesis using assms(1)
    by (auto simp: midna_domain_to_utf8_create_def utf8_pure_def icu a(1) context_ok_def split: option.split)
qed

definition midna_ok :: "icu_fn \<Rightarrow> icu_fn \<Rightarrow> midna \<Rightarrow> bool" where
  "midna_ok ascii unicode st \<longleftrightarrow>
     cache_ok (midna_domain_to_ascii_create ascii) (midna_to_ascii_cache st) \<and>
     cache_ok (utf8_pure ascii unicode) (midna_to_utf8_cache st)"

lemma to_ascii_st_law:
  assumes "midna_ok ascii unicode st" "1 \<le> limit"
  shows "returns (midna_domain_to_ascii limit ascii st name) (\<lambda>(st', v).
    midna_ok ascii unicode st' \<and> v = midna_domain_to_ascii_create ascii name)"
  using to_ascii_law [of ascii "midna_to_ascii_cache st" limit name] assms
  by (auto simp: midna_domain_to_ascii_def midna_ok_def returns_def)

lemma to_utf8_st_law:
  assumes "midna_ok ascii unicode st" "1 \<le> limit"
  shows "returns (midna_domain_to_utf8 limit ascii unicode st name) (\<lambda>(st', v).
    midna_ok ascii unicode st' \<and> v = utf8_pure ascii unicode name)"
proof -
  let ?ctx = "Ok (midna_to_ascii_cache st)"
  have ctx: "context_ok ascii ?ctx" using assms(1) by (simp add: context_ok_def midna_ok_def)
  obtain c kvs where c: "(case midna_to_utf8_cache st of None \<Rightarrow> ctable_create limit ?ctx | Some c \<Rightarrow> Ok (ctable_newcontext c ?ctx)) = Ok c"
    "ct_rep c (kvs, ?ctx)" "caches (utf8_pure ascii unicode) kvs"
    using cache_ok_start [OF _ assms(2), of "utf8_pure ascii unicode" "midna_to_utf8_cache st" ?ctx] assms(1)
    by (auto simp: midna_ok_def)
  note create = utf8_create_law [OF ctx assms(2), of unicode name]
  have free: "\<And>v. midna_domain_cache_free v ?ctx = ?ctx" by (simp add: midna_domain_cache_free_def)
  obtain c' kvs' where c': "ctable_locate (midna_domain_to_utf8_create limit ascii unicode) midna_domain_cache_free c name = Ok (c', utf8_pure ascii unicode name)"
    "caches (utf8_pure ascii unicode) kvs'" "ct_rep c' (kvs', ct_context c')"
    "ct_context c' = ?ctx \<or> ct_context c' = snd (midna_domain_to_utf8_create limit ascii unicode name ?ctx)"
    using caches_locate [OF c(2,3), where create = "midna_domain_to_utf8_create limit ascii unicode" and
      delete = midna_domain_cache_free and key = name] create free by (auto simp: returns_def)
  have "context_ok ascii (ct_context c')" using c'(4) ctx create by auto
  then obtain a where "ct_context c' = Ok a" "cache_ok (midna_domain_to_ascii_create ascii) a"
    by (auto simp: context_ok_def returns_def)
  then show ?thesis using c(1) c'(1-3) by (auto simp: midna_domain_to_utf8_def midna_ok_def cache_ok_def)
qed

datatype midna_op = To_ascii string | To_utf8 string | Suffix_to_ascii string | Suffix_to_utf8 string

primrec midna_step :: "int \<Rightarrow> icu_fn \<Rightarrow> icu_fn \<Rightarrow> midna \<Rightarrow> midna_op \<Rightarrow> (midna \<times> string option) outcome" where
  "midna_step limit ascii unicode st (To_ascii n) = midna_domain_to_ascii limit ascii st n"
| "midna_step limit ascii unicode st (To_utf8 n) = midna_domain_to_utf8 limit ascii unicode st n"
| "midna_step limit ascii unicode st (Suffix_to_ascii n) = midna_domain_suffix_to_ascii limit ascii st n"
| "midna_step limit ascii unicode st (Suffix_to_utf8 n) = midna_domain_suffix_to_utf8 limit ascii unicode st n"

primrec midna_result :: "icu_fn \<Rightarrow> icu_fn \<Rightarrow> midna_op \<Rightarrow> string option" where
  "midna_result ascii unicode (To_ascii n) = midna_domain_to_ascii_create ascii n"
| "midna_result ascii unicode (To_utf8 n) = utf8_pure ascii unicode n"
| "midna_result ascii unicode (Suffix_to_ascii n) = map_option (drop 1) (midna_domain_to_ascii_create ascii (CHR ''x'' # n))"
| "midna_result ascii unicode (Suffix_to_utf8 n) = map_option (drop 1) (utf8_pure ascii unicode (CHR ''x'' # n))"

interpretation midna: simulation "\<lambda>st (_::unit). midna_ok ascii unicode st \<and> 1 \<le> limit"
    "midna_step limit ascii unicode" "\<lambda>u op. (u, midna_result ascii unicode op)"
  for limit :: int and ascii unicode :: icu_fn
proof
  fix st and a :: unit and op
  assume ok: "midna_ok ascii unicode st \<and> 1 \<le> limit"
  note laws = to_ascii_st_law [OF conjunct1 [OF ok] conjunct2 [OF ok]] to_utf8_st_law [OF conjunct1 [OF ok] conjunct2 [OF ok]]
  show "returns (midna_step limit ascii unicode st op) (\<lambda>(s', r).
    (midna_ok ascii unicode s' \<and> 1 \<le> limit) \<and> r = snd (a, midna_result ascii unicode op))"
  proof (cases op)
    case (To_ascii n)
    then show ?thesis using laws(1) [of n] ok by (auto simp: returns_def)
  next
    case (To_utf8 n)
    then show ?thesis using laws(2) [of n] ok by (auto simp: returns_def)
  next
    case (Suffix_to_ascii n)
    then show ?thesis using laws(1) [of "CHR ''x'' # n"] ok by (auto simp: returns_def midna_domain_suffix_to_ascii_def)
  next
    case (Suffix_to_utf8 n)
    then show ?thesis using laws(2) [of "CHR ''x'' # n"] ok by (auto simp: returns_def midna_domain_suffix_to_utf8_def)
  qed
qed

section \<open>Hosts and ports\<close>

lemma hostname_chars:
  assumes "valid_hostname h" "c \<in> set h"
  shows "host_char c \<or> c = CHR ''.''"
  using assms fields_keep [of c h "CHR ''.''"] by (auto simp: valid_hostname_fields list_all_iff host_label_def)

lemma ipv4_chars: "valid_ipv4_hostaddr h \<Longrightarrow> c \<in> set h \<Longrightarrow> ISDIGIT c \<or> c = CHR ''.''"
  using fields_keep [of c h "CHR ''.''"] by (auto simp: valid_ipv4_fields Let_def list_all_iff octet_def)

lemma hostaddr_chars:
  assumes "valid_hostaddr h" "c \<in> set h"
  shows "c \<in> set hex_digits \<or> c = CHR '':'' \<or> c = CHR ''.''"
proof -
  have digit: "ISDIGIT c \<Longrightarrow> c \<in> set hex_digits" for c
  proof -
    have "\<forall>d \<in> set [0..<10]. char_of (48 + d :: nat) \<in> set hex_digits" by code_simp
    then show "ISDIGIT c \<Longrightarrow> c \<in> set hex_digits" by (auto simp: digit_char)
  qed
  consider "valid_ipv4_hostaddr h" | "valid_ipv6_hostaddr h" using assms(1) by (auto simp: valid_hostaddr_def split: if_splits)
  then show ?thesis
  proof cases
    case 1
    then show ?thesis using ipv4_chars [OF _ assms(2)] digit by blast
  next
    case 2
    let ?fs = "fields_of CHR '':'' h"
    have fs: "list_all hex_field (butlast ?fs)" "hex_field (last ?fs) \<or> valid_ipv4_hostaddr (last ?fs)"
      using 2 by (auto simp: valid_ipv6_fields ipv6_text_def Let_def)
    show ?thesis
    proof (cases "c = CHR '':''")
      case False
      then obtain f where f: "f \<in> set ?fs" "c \<in> set f" using fields_keep [OF assms(2)] by blast
      obtain xs x where "?fs = xs @ [x]" by (cases ?fs rule: rev_cases) auto
      then have "hex_field f \<or> valid_ipv4_hostaddr f" using f(1) fs by (auto simp: list_all_iff)
      then show ?thesis using f(2) ipv4_chars [of f c] digit by (auto simp: hex_field_def list_all_iff)
    qed simp
  qed
qed

lemma tolower_facts:
  "TOLOWER c = CHR '':'' \<longleftrightarrow> c = CHR '':''"
  "c \<in> set hex_digits \<Longrightarrow> TOLOWER c \<noteq> CHR ''i''"
proof -
  have "list_all (\<lambda>c. TOLOWER c \<noteq> CHR ''i'') hex_digits" by code_simp
  then show "c \<in> set hex_digits \<Longrightarrow> TOLOWER c \<noteq> CHR ''i''" by (simp add: list_all_iff)
  have "ord (TOLOWER c) \<noteq> 58" if u: "ISUPPER c" using u by (simp add: TOLOWER_def ISUPPER_def)
  then have "ISUPPER c \<Longrightarrow> TOLOWER c \<noteq> CHR '':''" by auto
  moreover have "\<not> ISUPPER CHR '':''" by (simp add: ctype_defs)
  moreover have "\<not> ISUPPER c \<Longrightarrow> TOLOWER c = c" by (simp add: TOLOWER_def)
  ultimately show "TOLOWER c = CHR '':'' \<longleftrightarrow> c = CHR '':''" by metis
qed

lemma no_ipv6_col:
  assumes "valid_hostname h \<or> valid_hostaddr h"
  shows "\<not> HAS_IPV6_COL (h @ CHR '']'' # s)"
proof
  assume "HAS_IPV6_COL (h @ CHR '']'' # s)"
  moreover have "map TOLOWER IPV6_COL = ''ipv6:''" by code_simp
  moreover have "length IPV6_COL = 5" by (simp add: IPV6_COL_def)
  ultimately have eq: "map TOLOWER (take 5 (h @ CHR '']'' # s)) = ''ipv6:''"
    unfolding HAS_IPV6_COL_def strcasecmp_eq_0 by (simp only:)
  have len: "5 \<le> length h"
  proof (rule ccontr)
    assume "\<not> 5 \<le> length h"
    then have "length h < 5" by simp
    then have "CHR '']'' \<in> set (take 5 (h @ CHR '']'' # s))"
      unfolding in_set_conv_nth by (intro exI [of _ "length h"]) (simp add: nth_append)
    then have "TOLOWER CHR '']'' \<in> set ''ipv6:''" unfolding eq [symmetric] by (metis image_eqI set_map)
    then show False by (simp add: TOLOWER_def ISUPPER_def ISASCII_def)
  qed
  then have "map TOLOWER (take 5 h) = ''ipv6:''" using eq by simp
  then have "TOLOWER (h ! 0) = CHR ''i''" "TOLOWER (h ! 4) = CHR '':''"
    using len nth_map [of 0 "take 5 h" TOLOWER] nth_map [of 4 "take 5 h" TOLOWER] by auto
  moreover have "h ! 0 \<in> set h" "h ! 4 \<in> set h" using len by (auto intro!: nth_mem)
  moreover have "\<not> host_char CHR '':''" "TOLOWER CHR '':'' \<noteq> CHR ''i''" "TOLOWER CHR ''.'' \<noteq> CHR ''i''"
    "CHR '':'' \<noteq> CHR ''.''" by (simp_all add: host_char_def TOLOWER_def ctype_defs)
  ultimately show False using assms hostname_chars [of h "h ! 4"] hostaddr_chars [of h "h ! 0"]
      tolower_facts(1) [of "h ! 4"] tolower_facts(2) [of "h ! 0"] by metis
qed

lemma split_at_here: "c \<notin> set h \<Longrightarrow> c \<noteq> NUL \<Longrightarrow> split_at (h @ c # s) c = (h, Some s)"
proof -
  assume "c \<notin> set h" "c \<noteq> NUL"
  then have "strchr (h @ c # s) c = Some (length h)" by (induction h) auto
  then show ?thesis by (simp add: split_at_def)
qed

lemma split_at_right_here: "c \<notin> set s \<Longrightarrow> c \<noteq> NUL \<Longrightarrow> split_at_right (h @ c # s) c = (h, Some s)"
proof -
  assume a: "c \<notin> set s" "c \<noteq> NUL"
  then have "strrchr s c = None" by (induction s) auto
  then have "strrchr (h @ c # s) c = Some (length h)" by (induction h) auto
  then show ?thesis by (simp add: split_at_right_def)
qed

definition host_name_ok :: "icu_fn \<Rightarrow> bool \<Rightarrow> string \<Rightarrow> bool" where
  "host_name_ok icu enable h \<longleftrightarrow> h \<noteq> [] \<and>
     (if enable \<and> \<not> allascii h then midna_domain_to_ascii_create icu h \<noteq> None else valid_hostname h)"

lemma valid_utf8_hostname_law:
  assumes "midna_ok ascii unicode st" "1 \<le> limit"
  shows "returns (valid_utf8_hostname limit ascii st enable h) (\<lambda>(st', ok). midna_ok ascii unicode st' \<and> ok = host_name_ok ascii enable h)"
proof -
  obtain st' where "midna_domain_to_ascii limit ascii st h = Ok (st', midna_domain_to_ascii_create ascii h)" "midna_ok ascii unicode st'"
    using to_ascii_st_law [OF assms, of h] by (auto simp: returns_def)
  then show ?thesis using assms(1) by (auto simp: valid_utf8_hostname_def host_name_ok_def)
qed

section \<open>Properties\<close>

text \<open>
  C16: The conversion caches cannot be observed. Starting with no cache and any positive cache
  size, every sequence of the four conversions returns, and each result is what the
  conversion computes without a cache, although the UTF-8 conversion goes through both
  caches and entries are replaced when a cache is full.
\<close>

theorem midna_caches_transparent:
  assumes "1 \<le> cache_size"
  shows "returns (run_steps (midna_step cache_size nameToASCII nameToUnicode)
      \<lparr>midna_to_ascii_cache = None, midna_to_utf8_cache = None\<rparr> ops) (\<lambda>(st, results).
    results = map (midna_result nameToASCII nameToUnicode) ops)"
proof -
  have ok: "midna_ok nameToASCII nameToUnicode \<lparr>midna_to_ascii_cache = None, midna_to_utf8_cache = None\<rparr> \<and> 1 \<le> cache_size"
    using assms by (simp add: midna_ok_def cache_ok_def)
  have "snd (spec_steps (\<lambda>u op. (u, f op)) (u::unit) ops) = map f ops" for f :: "midna_op \<Rightarrow> string option" and u
    by (induction ops arbitrary: u) (auto split: prod.splits)
  with midna.run_law [OF ok, of ops] show ?thesis by (auto simp: returns_def)
qed

text \<open>A conversion that fails on names with a dot in front, for the witnesses.\<close>

definition demo_icu :: icu_fn where
  "demo_icu name = (name \<noteq> [] \<and> hd name \<noteq> CHR ''.'', 0, name)"

theorem midna_caches_transparent_witness:
  "returns (run_steps (midna_step 1 demo_icu demo_icu) \<lparr>midna_to_ascii_cache = None, midna_to_utf8_cache = None\<rparr>
      [To_utf8 ''a-b'', To_ascii ''.c'', Suffix_to_utf8 ''.d'']) (\<lambda>(st, results). results = [Some ''a-b'', None, Some ''.d''])"
proof -
  have eq: "map (midna_result demo_icu demo_icu) [To_utf8 ''a-b'', To_ascii ''.c'', Suffix_to_utf8 ''.d''] = [Some ''a-b'', None, Some ''.d'']"
    by (simp add: utf8_pure_def midna_domain_to_ascii_create_def demo_icu_def c_str_def allascii_def allascii_len_def
        valid_hostname_def VALID_HOSTNAME_LEN_def VALID_LABEL_LEN_def ctype_defs)
  show ?thesis unfolding eq [symmetric] by (rule midna_caches_transparent) simp
qed

text \<open>
  C35: \<open>host_port\<close> always returns, and when it accepts its input, the host is the caller's default, a
  valid host name (after conversion to ASCII when UTF-8 is enabled) or a valid network address, and
  the port is the default or a non-empty text that is numeric as soon as it starts with a digit.
\<close>

theorem host_port_checks:
  assumes "midna_ok ascii unicode st" "1 \<le> cache_size"
  shows "returns (host_port cache_size ascii st enable buf def_host def_service) (\<lambda>(st', r).
    midna_ok ascii unicode st' \<and>
    (\<forall>h p. r = Inr (h, p) \<longrightarrow>
      (def_host = Some h \<or> host_name_ok ascii enable h \<or> valid_hostaddr h) \<and>
      (def_service = Some p \<or> p \<noteq> [] \<and> (ISDIGIT (hd p) \<longrightarrow> alldig p))))"
proof (cases "host_port_split buf def_host def_service")
  case (Inl e)
  then show ?thesis using assms by (simp add: host_port_def)
next
  case (Inr hp)
  obtain host port where hp: "hp = (host, port)" by (cases hp)
  show ?thesis
  proof (cases "host = None \<or> port = None")
    case True
    then show ?thesis using Inr hp assms by (cases host) (auto simp: host_port_def)
  next
    case False
    then obtain h p where h: "host = Some h" "port = Some p" by auto
    have "(case h of Default s \<Rightarrow> def_host = Some s | Parsed _ \<Rightarrow> True) \<and>
      (case p of Default s \<Rightarrow> def_service = Some s | Parsed s \<Rightarrow> s \<noteq> [])"
      using Inr unfolding hp h by (auto simp: host_port_split_def parsed_or_def Let_def split: if_splits option.splits prod.splits)
    moreover obtain st' where "valid_utf8_hostname cache_size ascii st enable (part_text h) = Ok (st', host_name_ok ascii enable (part_text h))"
      "midna_ok ascii unicode st'" using valid_utf8_hostname_law [OF assms, of enable "part_text h"] by (auto simp: returns_def)
    ultimately show ?thesis using assms(1) Inr unfolding hp h
      by (cases h; cases p) (auto simp: host_port_def host_valid_def)
  qed
qed

theorem host_port_checks_witness:
  "let st = \<lparr>midna_to_ascii_cache = None, midna_to_utf8_cache = None\<rparr> in
   midna_ok demo_icu demo_icu st \<and>
   returns (host_port 1 demo_icu st True ''a.b:25'' None (Some ''smtp'')) (\<lambda>(st', r). midna_ok demo_icu demo_icu st')"
proof -
  have ok: "midna_ok demo_icu demo_icu \<lparr>midna_to_ascii_cache = None, midna_to_utf8_cache = None\<rparr>"
    by (simp add: midna_ok_def cache_ok_def)
  from host_port_checks [OF ok, of 1 True "''a.b:25''" None "Some ''smtp''"] ok show ?thesis
    by (auto simp: returns_def)
qed

text \<open>
  C36: \<open>host_port\<close> recovers host and port from both written forms, \<open>[host]:port\<close> and
  \<open>host:port\<close>, for every valid host name or network address and numeric port, whatever the
  defaults.
\<close>

theorem host_port_parses:
  assumes "valid_hostname h \<or> valid_hostaddr h" "alldig p"
  shows "host_port cache_size ascii st enable (''['' @ h @ '']:'' @ p) def_host def_service = Ok (st, Inr (h, p)) \<and>
    host_port cache_size ascii st enable (h @ '':'' @ p) def_host def_service = Ok (st, Inr (h, p))"
proof -
  have hex: "c \<in> set hex_digits \<Longrightarrow> ISALNUM c" for c by (rule hex_alnum)
  have chars: "ISALNUM c \<or> c \<in> {CHR ''_'', CHR ''-'', CHR ''.'', CHR '':''}" if "c \<in> set h" for c
    using assms(1) hostname_chars [of h c] hostaddr_chars [of h c] that hex by (auto simp: host_char_def)
  have bracket: "CHR ''['' \<notin> set h" "CHR '']'' \<notin> set h" using chars [of "CHR ''[''"] chars [of "CHR '']''"] by (auto simp: ctype_defs)
  have "h \<noteq> []" using assms(1) by (auto simp: valid_hostname_def valid_hostaddr_def)
  moreover have "list_all ISASCII h"
  proof (unfold list_all_iff, rule ballI)
    fix c assume "c \<in> set h"
    from chars [OF this] show "ISASCII c" by (auto simp: ctype_defs)
  qed
  ultimately have "allascii h" by (simp add: allascii_def allascii_len_def)
  then have host: "host_valid cache_size ascii st enable (Parsed h) = Ok (st, True)"
    using assms(1) \<open>h \<noteq> []\<close> by (simp add: host_valid_def valid_utf8_hostname_def)
  have p: "p \<noteq> []" "CHR '':'' \<notin> set p" using assms(2) by (auto simp: alldig_iff list_all_iff ctype_defs)
  have "host_port_split (''['' @ h @ '']:'' @ p) def_host def_service = Inr (Some (Parsed h), Some (Parsed p))"
    using no_ipv6_col [OF assms(1)] bracket p by (simp add: host_port_split_def split_at_here parsed_or_def)
  moreover have "host_port_split (h @ '':'' @ p) def_host def_service = Inr (Some (Parsed h), Some (Parsed p))"
    using \<open>h \<noteq> []\<close> bracket p by (cases h) (auto simp: host_port_split_def split_at_right_here [of _ _ "_ # _", simplified] parsed_or_def)
  ultimately show ?thesis using host assms(2) by (simp add: host_port_def)
qed

theorem host_port_parses_witness:
  "\<forall>st. host_port 1 demo_icu st True ''[1.2.3.4]:25'' None None = Ok (st, Inr (''1.2.3.4'', ''25''))"
proof -
  have "valid_hostaddr ''1.2.3.4''"
    by (simp add: valid_hostaddr_def valid_ipv4_fields octet_def ctype_defs)
  moreover have "alldig ''25''" by (simp add: alldig_iff ctype_defs)
  ultimately show ?thesis using host_port_parses [of "''1.2.3.4''" "''25''" 1 demo_icu _ True None None] by simp
qed

end
