(* ===== verification/Readlline.thy ===== *)
theory Readlline
  imports Util_Prelude
begin

text \<open>
  The reader of logical lines, \<open>src/util/readlline.c\<close>. The stream is the text still to be read,
  the buffer the text collected so far. The main theorem describes the sequence of lines that
  repeated calls return: comments and blank lines are dropped, indented lines continue the
  line before them.
\<close>

abbreviation newline :: char where
  "newline \<equiv> CHR 0x0A"

section \<open>readllines\<close>

text \<open>The inner loop: the rest of the physical line, whether a newline ended it, and the stream behind it.\<close>

definition read_physical :: "string \<Rightarrow> string \<times> bool \<times> string" where
  "read_physical fp =
     (case dropWhile (\<lambda>c. c \<noteq> newline) fp of
        [] \<Rightarrow> (fp, False, [])
      | _ # rest \<Rightarrow> (takeWhile (\<lambda>c. c \<noteq> newline) fp, True, rest))"

lemma read_physical_shorter: "(l, True, rest) = read_physical fp \<Longrightarrow> length rest < length fp"
  using length_dropWhile_le [of "\<lambda>c. c \<noteq> newline" fp] by (auto simp: read_physical_def split: list.splits)

text \<open>Comment line, all whitespace line, or empty line.\<close>

definition ignored :: "string \<Rightarrow> bool" where
  "ignored l \<longleftrightarrow> (let cp = dropWhile ISSPACE l in cp = [] \<or> hd cp = CHR ''#'')"

text \<open>
  The outer loop, with the buffer, the stream and the two line counters. At the end of the
  stream the loop stops; otherwise one newline at least has been consumed.
\<close>

function readllines_loop :: "string \<Rightarrow> string \<Rightarrow> nat \<Rightarrow> nat \<Rightarrow> string \<times> string \<times> nat \<times> nat" where
  "readllines_loop buf fp lineno first_line =
     (let (l, nl, rest) = read_physical fp;
          lineno = (if nl \<or> l \<noteq> [] then lineno + 1 else lineno);
          first_line = (if \<not> ignored l \<and> buf = [] then lineno else first_line);
          buf = (if ignored l then buf else buf @ l)
      in if \<not> nl then (buf, rest, lineno, first_line)
         else if buf \<noteq> [] \<and> (rest = [] \<or> hd rest \<noteq> CHR ''#'' \<and> \<not> ISSPACE (hd rest)) then (buf, rest, lineno, first_line)
         else readllines_loop buf rest lineno first_line)"
  by pat_completeness auto

termination
  by (relation "measure (\<lambda>(_, fp, _). length fp)") (auto dest: read_physical_shorter)

declare readllines_loop.simps [simp del]

lemma loop_consumes:
  "readllines_loop buf fp n f = (buf', fp', n', f') \<Longrightarrow> length fp' \<le> length fp \<and> (buf' \<noteq> buf \<longrightarrow> length fp' < length fp)"
proof (induction buf fp n f rule: readllines_loop.induct)
  case (1 buf fp n f)
  obtain l nl rest where r: "read_physical fp = (l, nl, rest)" by (metis prod_cases3)
  have len: "length rest \<le> length fp" "nl \<Longrightarrow> length rest < length fp" "\<not> nl \<Longrightarrow> rest = [] \<and> l = fp"
    using r [symmetric] read_physical_shorter [of l rest fp] by (auto simp: read_physical_def split: list.splits)
  have i: "\<not> ignored l \<Longrightarrow> l \<noteq> []" by (auto simp: ignored_def)
  show ?case
  proof (cases nl)
    case False
    then show ?thesis using "1.prems" r len i by (subst (asm) readllines_loop.simps) (auto split: if_splits)
  next
    case True
    let ?n = "if nl \<or> l \<noteq> [] then n + 1 else n"
    let ?f = "if \<not> ignored l \<and> buf = [] then ?n else f"
    let ?b = "if ignored l then buf else buf @ l"
    show ?thesis
    proof (cases "?b \<noteq> [] \<and> (rest = [] \<or> hd rest \<noteq> CHR ''#'' \<and> \<not> ISSPACE (hd rest))")
      case stop: True
      then show ?thesis using "1.prems" r len True by (subst (asm) readllines_loop.simps) (simp add: Let_def split: if_splits)
    next
      case go: False
      then have "readllines_loop ?b rest ?n ?f = (buf', fp', n', f')"
        using "1.prems" r True by (subst (asm) readllines_loop.simps) (simp add: Let_def split: if_splits)
      from "1.IH" [OF r [symmetric] refl refl refl refl refl _ go this] True len show ?thesis by auto
    qed
  qed
qed

function readllines :: "string \<Rightarrow> nat \<Rightarrow> nat \<Rightarrow> (string \<times> nat) option \<times> string \<times> nat" where
  "readllines fp lineno first_line =
     (case readllines_loop [] fp lineno first_line of
        (buf, fp', lineno, first_line) \<Rightarrow>
          if length buf > 0 \<and> ISSPACE (hd buf) then readllines fp' lineno first_line
          else (if length buf > 0 then Some (buf, first_line) else None, fp', lineno))"
  by pat_completeness auto

termination
proof (relation "measure (\<lambda>(fp, _). length fp)", goal_cases)
  case (2 fp lineno first_line buf y fp' z lineno' first_line')
  then have "readllines_loop [] fp lineno first_line = (buf, fp', lineno', first_line')" by simp
  from loop_consumes [OF this] 2 show ?case by auto
qed simp

declare readllines.simps [simp del]

section \<open>The logical lines of a text\<close>

text \<open>The physical lines that count, the lines that continue another, and the logical lines.\<close>

definition significant :: "string \<Rightarrow> string list" where
  "significant fp = filter (\<lambda>l. \<not> ignored l) (fields_of newline fp)"

definition indented :: "string \<Rightarrow> bool" where
  "indented l \<longleftrightarrow> ISSPACE (hd l)"

function logical_lines :: "string list \<Rightarrow> string list" where
  "logical_lines [] = []"
| "logical_lines (l # ls) =
     (if indented l then logical_lines ls
      else (l @ concat (takeWhile indented ls)) # logical_lines (dropWhile indented ls))"
  by pat_completeness auto

termination
  by (relation "measure length") (auto simp: le_imp_less_Suc length_dropWhile_le)

lemma read_physical_fields:
  assumes "read_physical fp = (l, nl, rest)"
  shows "fields_of newline fp = l # (if nl then fields_of newline rest else [])"
proof -
  obtain f fs where f: "fields_of newline fp = f # fs" using fields_Cons by blast
  then have "f = takeWhile (\<lambda>c. c \<noteq> newline) fp" using fields_hd [of newline fp] by simp
  moreover have "fs = (case dropWhile (\<lambda>c. c \<noteq> newline) fp of [] \<Rightarrow> [] | _ # r \<Rightarrow> fields_of newline r)"
    using f fields_tl [of newline fp] by simp
  moreover have "dropWhile (\<lambda>c. c \<noteq> newline) fp = [] \<Longrightarrow> takeWhile (\<lambda>c. c \<noteq> newline) fp = fp"
    by (metis append_Nil2 takeWhile_dropWhile_id)
  ultimately show ?thesis using assms f
    by (cases "dropWhile (\<lambda>c. c \<noteq> newline) fp") (simp_all add: read_physical_def)
qed

lemma ignored_start: "l \<noteq> [] \<Longrightarrow> \<not> ISSPACE (hd l) \<Longrightarrow> ignored l \<longleftrightarrow> hd l = CHR ''#''"
  by (cases l) (auto simp: ignored_def)

lemma newline_space: "ISSPACE newline"
  by (simp add: ISSPACE_def ISASCII_def)

text \<open>Whether a new logical line starts can be told from the next character.\<close>

lemma significant_start:
  assumes "fp = [] \<or> hd fp \<noteq> CHR ''#'' \<and> \<not> ISSPACE (hd fp)"
  shows "significant fp = [] \<or> \<not> indented (hd (significant fp))"
proof (cases fp)
  case Nil
  then show ?thesis by (simp add: significant_def ignored_def)
next
  case (Cons c s)
  obtain f fs where f: "fields_of newline fp = f # fs" using fields_Cons by blast
  have c: "c \<noteq> newline" "\<not> ISSPACE c" "c \<noteq> CHR ''#''" using assms Cons newline_space by auto
  then have "hd f = c" "f \<noteq> []" using f Cons by auto
  then show ?thesis using c ignored_start [of f] by (simp add: significant_def f indented_def)
qed

definition loop_result :: "string \<Rightarrow> string list \<Rightarrow> string \<times> string list" where
  "loop_result buf ls =
     (if buf = [] then (case ls of [] \<Rightarrow> ([], []) | l # ls \<Rightarrow> (l @ concat (takeWhile indented ls), dropWhile indented ls))
      else (buf @ concat (takeWhile indented ls), dropWhile indented ls))"

lemma readllines_loop_ok:
  assumes "buf = [] \<or> fp \<noteq> [] \<and> (hd fp = CHR ''#'' \<or> ISSPACE (hd fp))"
    and "readllines_loop buf fp n f = (buf', fp', n', f')"
  shows "(buf', significant fp') = loop_result buf (significant fp)"
  using assms
proof (induction buf fp n f rule: readllines_loop.induct)
  case (1 buf fp n f)
  obtain l nl rest where r: "read_physical fp = (l, nl, rest)" by (metis prod_cases3)
  note fields = read_physical_fields [OF r]
  let ?b = "if ignored l then buf else buf @ l"
  let ?n = "if nl \<or> l \<noteq> [] then n + 1 else n"
  let ?f = "if \<not> ignored l \<and> buf = [] then ?n else f"
  have sig: "significant fp = (if ignored l then [] else [l]) @ (if nl then significant rest else [])"
    by (simp add: significant_def fields)
  have ne: "\<not> ignored l \<Longrightarrow> l \<noteq> []" by (auto simp: ignored_def)
  have ind: "indented l" if a: "\<not> ignored l" "buf \<noteq> []"
  proof -
    obtain c l' where l: "l = c # l'" using ne a(1) by (cases l) auto
    then have "hd fp = c" using fields by (cases fp) (auto split: if_splits)
    then show ?thesis using "1.prems"(1) a l ignored_start [of l] by (auto simp: indented_def)
  qed
  have step: "loop_result buf (significant fp) = loop_result ?b (if nl then significant rest else [])"
    if "\<not> (?b = [] \<and> \<not> ignored l)" using ind ne by (auto simp: sig loop_result_def)
  then have step: "loop_result buf (significant fp) = loop_result ?b (if nl then significant rest else [])"
    using ne by auto
  show ?case
  proof (cases nl)
    case False
    then have "rest = []" using r by (auto simp: read_physical_def split: list.splits)
    moreover have "(buf', fp') = (?b, rest)"
      using "1.prems"(2) r False by (subst (asm) readllines_loop.simps) (simp add: Let_def split: if_splits)
    ultimately show ?thesis unfolding step using False
      by (simp add: loop_result_def significant_def ignored_def)
  next
    case True
    show ?thesis
    proof (cases "?b \<noteq> [] \<and> (rest = [] \<or> hd rest \<noteq> CHR ''#'' \<and> \<not> ISSPACE (hd rest))")
      case stop: True
      then have "(buf', fp') = (?b, rest)"
        using "1.prems"(2) r True by (subst (asm) readllines_loop.simps) (simp add: Let_def split: if_splits)
      moreover have "loop_result ?b (significant rest) = (?b, significant rest)"
        using stop significant_start [of rest] by (cases "significant rest") (auto simp: loop_result_def)
      ultimately show ?thesis unfolding step using True by simp
    next
      case go: False
      then have loop: "readllines_loop ?b rest ?n ?f = (buf', fp', n', f')"
        using "1.prems"(2) r True by (subst (asm) readllines_loop.simps) (simp add: Let_def split: if_splits)
      have "?b = [] \<or> rest \<noteq> [] \<and> (hd rest = CHR ''#'' \<or> ISSPACE (hd rest))" using go by blast
      from "1.IH" [OF r [symmetric] refl refl refl refl refl _ go this loop] True show ?thesis unfolding step by simp
    qed
  qed
qed

text \<open>All the lines, by calling \<open>readllines\<close> until it returns null.\<close>

lemma readllines_shorter: "readllines fp n f = (Some l, fp', n') \<Longrightarrow> length fp' < length fp"
proof (induction fp n f rule: readllines.induct)
  case (1 fp n f)
  obtain buf fp1 n1 f1 where r: "readllines_loop [] fp n f = (buf, fp1, n1, f1)" by (metis prod_cases4)
  show ?case
  proof (cases "length buf > 0 \<and> ISSPACE (hd buf)")
    case True
    then have "readllines fp1 n1 f1 = (Some l, fp', n')" using "1.prems" r by (subst (asm) readllines.simps) simp
    from "1.IH" [OF r [symmetric] refl refl True this] show ?thesis using loop_consumes [OF r] by simp
  next
    case False
    then have "buf \<noteq> [] \<and> fp1 = fp'" using "1.prems" r by (subst (asm) readllines.simps) (auto split: if_splits)
    then show ?thesis using loop_consumes [OF r] by simp
  qed
qed

function read_all :: "string \<Rightarrow> nat \<Rightarrow> (string \<times> nat) list" where
  "read_all fp lineno =
     (case readllines fp lineno 0 of
        (None, _, _) \<Rightarrow> []
      | (Some l, fp', lineno') \<Rightarrow> l # read_all fp' lineno')"
  by pat_completeness auto

termination
  by (relation "measure (\<lambda>(fp, _). length fp)") (auto dest: readllines_shorter [OF sym])

declare read_all.simps [simp del]

lemma logical_skip: "logical_lines (dropWhile indented ls) = logical_lines ls"
  by (induction ls) auto

lemma readllines_ok:
  "(case readllines fp n f of
      (None, fp', _) \<Rightarrow> logical_lines (significant fp) = []
    | (Some (l, _), fp', _) \<Rightarrow> logical_lines (significant fp) = l # logical_lines (significant fp'))"
proof (induction fp n f rule: readllines.induct)
  case (1 fp n f)
  obtain buf fp1 n1 f1 where r: "readllines_loop [] fp n f = (buf, fp1, n1, f1)" by (metis prod_cases4)
  have res: "(buf, significant fp1) = loop_result [] (significant fp)" by (rule readllines_loop_ok [OF _ r]) simp
  show ?case
  proof (cases "significant fp")
    case Nil
    then show ?thesis using res r by (subst readllines.simps) (simp add: loop_result_def)
  next
    case (Cons l ls)
    then have "l \<in> set (significant fp)" by simp
    then have "l \<noteq> []" by (auto simp: significant_def ignored_def)
    then have buf: "buf = l @ concat (takeWhile indented ls)" "significant fp1 = dropWhile indented ls" "hd buf = hd l" "buf \<noteq> []"
      using res Cons by (auto simp: loop_result_def)
    show ?thesis
    proof (cases "indented l")
      case True
      then have sp: "length buf > 0 \<and> ISSPACE (hd buf)" using buf by (simp add: indented_def)
      have e1: "readllines fp n f = readllines fp1 n1 f1" using sp r by (subst readllines.simps) simp
      have e2: "logical_lines (significant fp) = logical_lines (significant fp1)"
        using True by (simp add: Cons buf(2) logical_skip)
      show ?thesis unfolding e1 e2 by (rule "1.IH" [OF r [symmetric] refl refl sp])
    next
      case False
      then have "readllines fp n f = (Some (buf, f1), fp1, n1)"
        using r buf by (subst readllines.simps) (simp add: indented_def)
      then show ?thesis using False Cons buf by simp
    qed
  qed
qed

lemma read_all_ok: "map fst (read_all fp n) = logical_lines (significant fp)"
proof (induction fp n rule: read_all.induct)
  case (1 fp n)
  show ?case
  proof (cases "readllines fp n 0")
    case (fields r fp' n')
    then show ?thesis using 1 readllines_ok [of fp n 0]
      by (cases r) (auto simp: read_all.simps [of fp n] split: prod.splits)
  qed
qed

section \<open>Properties\<close>

text \<open>
  C26: Reading a text to its end returns its logical lines: the physical lines that are neither blank
  nor comments, each followed by the indented lines behind it (indented lines before the first
  line are skipped). Reading always ends.
\<close>

theorem read_all_logical_lines:
  "map fst (read_all text lineno) = logical_lines (filter (\<lambda>l. \<not> ignored l) (fields_of newline text))"
  using read_all_ok by (simp add: significant_def)

end
