(* ===== verification/Cidr.thy ===== *)
theory Cidr
  imports Hostname Readlline "HOL-Library.Word"
begin

text \<open>
  Network address patterns: \<open>src/util/mask_addr.c\<close>, \<open>src/util/cidr_match.c\<close> and the table built
  from them, \<open>src/util/dict_cidr.c\<close>.

  Addresses are lists of 8-bit words. \<open>inet_pton\<close> of the system library is a parameter; what
  the theorems need of it (four bytes for IPv4, sixteen for IPv6) is the hypothesis \<open>pton_ok\<close>. The
  entries of a list live in a store, with \<open>next\<close> and \<open>block_end\<close> as positions in it. The theorems
  show that an entry matches exactly the addresses with the given leading bits, and that following
  the pointers of a table is the same as reading its rules in order with nested blocks.
\<close>

type_synonym byte = "8 word"

section \<open>mask\_addr.c\<close>

definition CHAR_BIT :: nat where
  "CHAR_BIT = 8"

definition mask_addr :: "byte list \<Rightarrow> nat \<Rightarrow> nat \<Rightarrow> byte list outcome" where
  "mask_addr addr_bytes addr_byte_count network_bits =
     (if network_bits > addr_byte_count * CHAR_BIT then Panic ''mask_addr: address byte count too small for bit count''
      else
        let p = network_bits div CHAR_BIT;
            bits = network_bits mod CHAR_BIT;
            bytes = (if bits \<noteq> 0 then addr_bytes[p := addr_bytes ! p AND push_bit (CHAR_BIT - bits) (-1)] else addr_bytes);
            p = (if bits \<noteq> 0 then p + 1 else p)
        in Ok (take p bytes @ replicate (addr_byte_count - p) 0 @ drop (max p addr_byte_count) bytes))"

section \<open>cidr\_match.c\<close>

datatype family = AF_UNSPEC | AF_INET | AF_INET6

datatype cidr_op = CIDR_MATCH_OP_MATCH | CIDR_MATCH_OP_IF | CIDR_MATCH_OP_ENDIF

text \<open>\<open>mask_shift\<close> is an unsigned char in the source; the byte arrays hold the bytes in use.\<close>

record cidr_match =
  cm_op :: cidr_op
  cm_match :: bool
  cm_net_bytes :: "byte list"
  cm_mask_bytes :: "byte list"
  cm_addr_family :: family
  cm_addr_byte_count :: nat
  cm_addr_bit_count :: nat
  cm_mask_shift :: byte
  cm_next :: "nat option"
  cm_block_end :: "nat option"

type_synonym inet_pton_fn = "family \<Rightarrow> string \<Rightarrow> byte list option"

definition CIDR_MATCH_ADDR_FAMILY :: "string \<Rightarrow> family" where
  "CIDR_MATCH_ADDR_FAMILY a = (if strchr a CHR '':'' \<noteq> None then AF_INET6 else AF_INET)"

definition CIDR_MATCH_ADDR_BIT_COUNT :: "family \<Rightarrow> nat outcome" where
  "CIDR_MATCH_ADDR_BIT_COUNT f =
     (if f = AF_INET6 then Ok 128 else if f = AF_INET then Ok 32 else Panic ''bad address family'')"

definition CIDR_MATCH_ADDR_BYTE_COUNT :: "family \<Rightarrow> nat outcome" where
  "CIDR_MATCH_ADDR_BYTE_COUNT f =
     (if f = AF_INET6 then Ok 16 else if f = AF_INET then Ok 4 else Panic ''bad address family'')"

definition cidr_match_entry :: "cidr_match \<Rightarrow> byte list \<Rightarrow> bool" where
  "cidr_match_entry entry addr_bytes =
     (if unat (cm_mask_shift entry) < cm_addr_bit_count entry then
        if list_all (\<lambda>i. (addr_bytes ! i AND cm_mask_bytes entry ! i) = cm_net_bytes entry ! i) [0..<cm_addr_byte_count entry]
        then cm_match entry else \<not> cm_match entry
      else
        if list_all (\<lambda>i. addr_bytes ! i = cm_net_bytes entry ! i) [0..<cm_addr_byte_count entry]
        then cm_match entry else \<not> cm_match entry)"





datatype cidr_error =
    Missing_bracket string
  | Garbage_after string
  | Bad_net_mask string string
  | Host_bits string string "byte list" nat
  | Bad_address string

text \<open>Strip the brackets and split the pattern into address and optional mask.\<close>

definition cidr_split :: "string \<Rightarrow> cidr_error + (string \<times> string option)" where
  "cidr_split pattern =
     (if pattern \<noteq> [] \<and> hd pattern = CHR ''['' then
        case split_at (tl pattern) CHR '']'' of
          (pattern, None) \<Rightarrow> Inl (Missing_bracket pattern)
        | (pattern, Some mask_search) \<Rightarrow>
            if mask_search \<noteq> [] \<and> hd mask_search = CHR ''/'' then Inr (pattern, snd (split_at mask_search CHR ''/''))
            else if mask_search \<noteq> [] then Inl (Garbage_after pattern)
            else Inr (split_at pattern CHR ''/'')
      else Inr (split_at pattern CHR ''/''))"

text \<open>
  \<open>atoi\<close> of a text of digits: the C library converts to a long, which saturates, and returns its
  low 32 bits as a signed number.
\<close>

definition c_atoi :: "string \<Rightarrow> int" where
  "c_atoi s = signed_take_bit 31 (min (int (digits_value s 0)) (2 ^ 63 - 1))"

text \<open>
  When host bits are set, the code masks the address and formats it for the error text. \<open>inet_ntop\<close>
  fails only for an unknown family or a buffer that is too short; neither can happen here, so the call of
  \<open>msg_fatal\<close> for that failure is left out, and the error value holds the masked bytes.
\<close>

definition cidr_match_parse :: "inet_pton_fn \<Rightarrow> string \<Rightarrow> bool \<Rightarrow> (cidr_error + cidr_match) outcome" where
  "cidr_match_parse inet_pton pattern match =
     (case cidr_split pattern of
        Inl err \<Rightarrow> Ok (Inl err)
      | Inr (pattern, Some netmask) \<Rightarrow>
          let addr_family = CIDR_MATCH_ADDR_FAMILY pattern in
          obind (CIDR_MATCH_ADDR_BIT_COUNT addr_family) (\<lambda>addr_bit_count.
          obind (CIDR_MATCH_ADDR_BYTE_COUNT addr_family) (\<lambda>addr_byte_count.
          let mask_shift = (word_of_int (c_atoi netmask) :: byte) in
          if \<not> alldig netmask \<or> unat mask_shift > addr_bit_count \<or> inet_pton addr_family pattern = None
          then Ok (Inl (Bad_net_mask pattern netmask))
          else
            let net_bytes = the (inet_pton addr_family pattern) in
            obind (if unat mask_shift > 0 then mask_addr (replicate addr_byte_count (-1)) addr_byte_count (unat mask_shift)
                   else Ok (replicate addr_byte_count 0)) (\<lambda>mask_bytes.
            if \<not> list_all (\<lambda>i. net_bytes ! i AND NOT (mask_bytes ! i) = 0) [0..<addr_byte_count] then
              obind (mask_addr net_bytes addr_byte_count (unat mask_shift)) (\<lambda>net_bytes.
              Ok (Inl (Host_bits pattern netmask net_bytes (unat mask_shift))))
            else Ok (Inr \<lparr>cm_op = CIDR_MATCH_OP_MATCH, cm_match = match, cm_net_bytes = net_bytes,
                          cm_mask_bytes = mask_bytes, cm_addr_family = addr_family,
                          cm_addr_byte_count = addr_byte_count, cm_addr_bit_count = addr_bit_count,
                          cm_mask_shift = mask_shift, cm_next = None, cm_block_end = None\<rparr>))))
      | Inr (pattern, None) \<Rightarrow>
          let addr_family = CIDR_MATCH_ADDR_FAMILY pattern in
          obind (CIDR_MATCH_ADDR_BIT_COUNT addr_family) (\<lambda>addr_bit_count.
          obind (CIDR_MATCH_ADDR_BYTE_COUNT addr_family) (\<lambda>addr_byte_count.
          case inet_pton addr_family pattern of
            None \<Rightarrow> Ok (Inl (Bad_address pattern))
          | Some net_bytes \<Rightarrow>
              Ok (Inr \<lparr>cm_op = CIDR_MATCH_OP_MATCH, cm_match = match, cm_net_bytes = net_bytes,
                       cm_mask_bytes = replicate addr_byte_count (-1), cm_addr_family = addr_family,
                       cm_addr_byte_count = addr_byte_count, cm_addr_bit_count = addr_bit_count,
                       cm_mask_shift = word_of_nat addr_bit_count, cm_next = None, cm_block_end = None\<rparr>))))"

definition cidr_match_parse_if :: "inet_pton_fn \<Rightarrow> string \<Rightarrow> bool \<Rightarrow> (cidr_error + cidr_match) outcome" where
  "cidr_match_parse_if inet_pton pattern match =
     obind (cidr_match_parse inet_pton pattern match) (\<lambda>ret.
     case ret of Inl err \<Rightarrow> Ok (Inl err) | Inr ip \<Rightarrow> Ok (Inr (ip\<lparr>cm_op := CIDR_MATCH_OP_IF\<rparr>)))"

definition cidr_match_endif :: cidr_match where
  "cidr_match_endif =
     \<lparr>cm_op = CIDR_MATCH_OP_ENDIF, cm_match = False, cm_net_bytes = [], cm_mask_bytes = [],
      cm_addr_family = AF_UNSPEC, cm_addr_byte_count = 0, cm_addr_bit_count = 0, cm_mask_shift = 0,
      cm_next = None, cm_block_end = None\<rparr>"

section \<open>dict\_cidr.c\<close>

record cidr_entry =
  ce_info :: cidr_match
  ce_value :: string
  ce_lineno :: nat

datatype rule_error = No_address_pattern | Garbage_after_ENDIF | ENDIF_without_IF | No_lookup_result | Bad_pattern cidr_error

text \<open>\<open>strncasecmp\<close> with a keyword that is not followed by a letter or digit.\<close>

definition has_keyword :: "string \<Rightarrow> string \<Rightarrow> bool" where
  "has_keyword word p \<longleftrightarrow>
     strcasecmp (take (length word) p) word = 0 \<and> \<not> (length word < length p \<and> ISALNUM (p ! length word))"

fun skip_negations :: "string \<Rightarrow> bool \<Rightarrow> string \<times> bool" where
  "skip_negations [] match = ([], match)"
| "skip_negations (c # p) match =
     (if c = CHR ''!'' then skip_negations p (\<not> match)
      else if \<not> ISSPACE c then (c # p, match)
      else skip_negations p match)"

definition wrap_parse :: "string \<Rightarrow> (cidr_error + cidr_match) outcome \<Rightarrow> (rule_error + cidr_match \<times> string) outcome" where
  "wrap_parse value parsed =
     obind parsed (\<lambda>r. Ok (case r of Inl err \<Rightarrow> Inl (Bad_pattern err) | Inr info \<Rightarrow> Inr (info, value)))"

definition dict_cidr_parse_rule :: "inet_pton_fn \<Rightarrow> string \<Rightarrow> nat \<Rightarrow> (rule_error + cidr_match \<times> string) outcome" where
  "dict_cidr_parse_rule inet_pton p nesting =
     (if has_keyword ''IF'' p then
        let (p, match) = skip_negations (drop 2 p) True in
        if p = [] then Ok (Inl No_address_pattern)
        else wrap_parse [] (cidr_match_parse_if inet_pton (take (trimblanks p 0) p) match)
      else if has_keyword ''ENDIF'' p then
        if dropWhile ISSPACE (drop 5 p) \<noteq> [] then Ok (Inl Garbage_after_ENDIF)
        else if nesting = 0 then Ok (Inl ENDIF_without_IF)
        else Ok (Inr (cidr_match_endif, []))
      else
        let (p, match) = skip_negations p True;
            pattern = takeWhile (\<lambda>c. \<not> ISSPACE c) p;
            value = dropWhile ISSPACE (dropWhile (\<lambda>c. \<not> ISSPACE c) p);
            value = take (trimblanks value 0) value
        in if pattern = [] then Ok (Inl No_address_pattern)
           else obind (wrap_parse value (cidr_match_parse inet_pton pattern match)) (\<lambda>r.
                case r of
                  Inl err \<Rightarrow> Ok (Inl err)
                | Inr rule \<Rightarrow> if value = [] then Ok (Inl No_lookup_result) else Ok (Inr rule)))"

text \<open>
  The table while it is read: the rules in the order of their allocation, the list head, the last
  rule, and the stack of open IF rules (\<open>rule_stack\<close> with \<open>nesting\<close> elements).
\<close>

record dict_cidr =
  dc_rules :: "cidr_entry list"
  dc_head :: "nat option"
  dc_last :: "nat option"
  dc_stack :: "nat list"

definition upd_info :: "dict_cidr \<Rightarrow> nat \<Rightarrow> (cidr_match \<Rightarrow> cidr_match) \<Rightarrow> dict_cidr" where
  "upd_info d i f = d\<lparr>dc_rules := (dc_rules d)[i := (dc_rules d ! i)\<lparr>ce_info := f (ce_info (dc_rules d ! i))\<rparr>]\<rparr>"

definition link_block :: "dict_cidr \<Rightarrow> nat \<Rightarrow> cidr_op \<Rightarrow> dict_cidr outcome" where
  "link_block d rule oper =
     (case oper of
        CIDR_MATCH_OP_IF \<Rightarrow> Ok (d\<lparr>dc_stack := dc_stack d @ [rule]\<rparr>)
      | CIDR_MATCH_OP_ENDIF \<Rightarrow>
          if dc_stack d = [] then Panic ''dict_cidr_open: ENDIF without IF''
          else let if_rule = last (dc_stack d) in
            if cm_op (ce_info (dc_rules d ! if_rule)) \<noteq> CIDR_MATCH_OP_IF then Panic ''dict_cidr_open: unexpected rule stack element type''
            else Ok ((upd_info d if_rule (cm_block_end_update (\<lambda>_. Some rule)))\<lparr>dc_stack := butlast (dc_stack d)\<rparr>)
      | CIDR_MATCH_OP_MATCH \<Rightarrow> Ok d)"

definition link_last :: "dict_cidr \<Rightarrow> nat \<Rightarrow> dict_cidr" where
  "link_last d rule =
     (case dc_last d of
        None \<Rightarrow> d\<lparr>dc_head := Some rule, dc_last := Some rule\<rparr>
      | Some l \<Rightarrow> (upd_info d l (cm_next_update (\<lambda>_. Some rule)))\<lparr>dc_last := Some rule\<rparr>)"

definition add_rule :: "dict_cidr \<Rightarrow> cidr_match \<Rightarrow> string \<Rightarrow> nat \<Rightarrow> dict_cidr outcome" where
  "add_rule d info value lineno =
     (let rule = length (dc_rules d);
          d = d\<lparr>dc_rules := dc_rules d @ [\<lparr>ce_info = info, ce_value = value, ce_lineno = lineno\<rparr>]\<rparr>
      in obind (link_block d rule (cm_op info)) (\<lambda>d. Ok (link_last d rule)))"

primrec dict_cidr_add_lines :: "inet_pton_fn \<Rightarrow> (string \<times> nat) list \<Rightarrow> dict_cidr \<Rightarrow> dict_cidr outcome" where
  "dict_cidr_add_lines inet_pton [] d = Ok d"
| "dict_cidr_add_lines inet_pton (l # lines) d =
     obind (dict_cidr_parse_rule inet_pton (fst l) (length (dc_stack d))) (\<lambda>r.
     case r of
       Inl why \<Rightarrow> dict_cidr_add_lines inet_pton lines d
     | Inr (info, value) \<Rightarrow> obind (add_rule d info value (snd l)) (dict_cidr_add_lines inet_pton lines))"

definition dict_cidr_open :: "inet_pton_fn \<Rightarrow> string \<Rightarrow> dict_cidr outcome" where
  "dict_cidr_open inet_pton file =
     dict_cidr_add_lines inet_pton (read_all file 0) \<lparr>dc_rules = [], dc_head = None, dc_last = None, dc_stack = []\<rparr>"


section \<open>Bits of an address\<close>

text \<open>Bit \<open>p\<close> of an address, counted from the most significant bit of the first byte.\<close>

definition addr_bit :: "byte list \<Rightarrow> nat \<Rightarrow> bool" where
  "addr_bit bs p \<longleftrightarrow> bit (bs ! (p div 8)) (7 - p mod 8)"

lemma byte_eq_iff: "(a::byte) = b \<longleftrightarrow> (\<forall>j<8. bit a (7 - j) = bit b (7 - j))"
proof
  assume *: "\<forall>j<8. bit a (7 - j) = bit b (7 - j)"
  show "a = b"
  proof (rule bit_word_eqI)
    fix n assume "n < LENGTH(8)"
    then show "bit a n = bit b n" using * [rule_format, of "7 - n"] by simp
  qed
qed simp

lemma bytes_eq_bits:
  "(\<forall>i<n. f i = (g i :: byte)) \<longleftrightarrow> (\<forall>p<8 * n. bit (f (p div 8)) (7 - p mod 8) = bit (g (p div 8)) (7 - p mod 8))"
proof
  assume *: "\<forall>p<8 * n. bit (f (p div 8)) (7 - p mod 8) = bit (g (p div 8)) (7 - p mod 8)"
  show "\<forall>i<n. f i = g i"
  proof (intro allI impI)
    fix i assume i: "i < n"
    have "bit (f i) (7 - j) = bit (g i) (7 - j)" if "j < 8" for j
      using * [rule_format, of "8 * i + j"] that i by simp
    then show "f i = g i" by (simp add: byte_eq_iff)
  qed
next
  assume "\<forall>i<n. f i = g i"
  then show "\<forall>p<8 * n. bit (f (p div 8)) (7 - p mod 8) = bit (g (p div 8)) (7 - p mod 8)" by auto
qed

lemma bit_high_mask: "r < 8 \<Longrightarrow> j < 8 \<Longrightarrow> bit (push_bit (8 - r) (-1) :: byte) (7 - j) \<longleftrightarrow> j < r"
  by (auto simp: bit_not_iff bit_mask_iff)

lemma mask_addr_ok:
  assumes "length bs = n" "k \<le> 8 * n"
  shows "returns (mask_addr bs n k) (\<lambda>bs'. length bs' = n \<and> (\<forall>p<8 * n. addr_bit bs' p \<longleftrightarrow> p < k \<and> addr_bit bs p))"
proof -
  define q r where "q = k div 8" and "r = k mod 8"
  have k: "k = 8 * q + r" "r < 8" by (simp_all add: q_def r_def)
  define q' where "q' = (if r \<noteq> 0 then q + 1 else q)"
  define bytes where "bytes = (if r \<noteq> 0 then bs[q := bs ! q AND push_bit (8 - r) (-1)] else bs)"
  have q': "q' \<le> n" using assms(2) k by (auto simp: q'_def)
  have len: "length bytes = n" by (simp add: bytes_def assms(1))
  define bs' where "bs' = take q' bytes @ replicate (n - q') 0"
  have "mask_addr bs n k = Ok bs'"
    using assms(2) q' len unfolding mask_addr_def bs'_def CHAR_BIT_def bytes_def q'_def q_def r_def
    by (simp add: Let_def mult.commute)
  moreover have "length bs' = n" using len q' by (simp add: bs'_def)
  moreover have "addr_bit bs' p \<longleftrightarrow> p < k \<and> addr_bit bs p" if p: "p < 8 * n" for p
  proof -
    define i j where "i = p div 8" and "j = p mod 8"
    have ij: "p = 8 * i + j" "j < 8" "i < n" using p by (auto simp: i_def j_def)
    have nth: "bs' ! i = (if i < q' then bytes ! i else 0)" using ij len q' by (simp add: bs'_def nth_append)
    have byte: "bytes ! i = (if r \<noteq> 0 \<and> i = q then bs ! i AND push_bit (8 - r) (-1) else bs ! i)"
      using ij(3) assms(1) by (simp add: bytes_def nth_list_update)
    have lt: "p < k \<longleftrightarrow> i < q \<or> i = q \<and> j < r" using ij k by linarith
    show ?thesis unfolding addr_bit_def i_def [symmetric] j_def [symmetric] nth byte lt
      using bit_high_mask [OF k(2) ij(2)] by (auto simp: q'_def bit_and_iff)
  qed
  ultimately show ?thesis by simp
qed

section \<open>Entries\<close>

definition pton_ok :: "inet_pton_fn \<Rightarrow> bool" where
  "pton_ok pton \<longleftrightarrow> (\<forall>s bs. (pton AF_INET s = Some bs \<longrightarrow> length bs = 4) \<and> (pton AF_INET6 s = Some bs \<longrightarrow> length bs = 16))"

definition entry_wf :: "cidr_match \<Rightarrow> bool" where
  "entry_wf e \<longleftrightarrow>
     (let n = cm_addr_byte_count e; k = unat (cm_mask_shift e) in
      length (cm_net_bytes e) = n \<and> length (cm_mask_bytes e) = n \<and> cm_addr_bit_count e = 8 * n \<and> k \<le> 8 * n \<and>
      (\<forall>p<8 * n. (addr_bit (cm_mask_bytes e) p \<longleftrightarrow> p < k) \<and> (addr_bit (cm_net_bytes e) p \<longrightarrow> p < k)))"

lemma entry_matches_prefix:
  assumes "entry_wf e" "length addr = cm_addr_byte_count e"
  shows "cidr_match_entry e addr \<longleftrightarrow>
    (cm_match e \<longleftrightarrow> (\<forall>p<unat (cm_mask_shift e). addr_bit addr p = addr_bit (cm_net_bytes e) p))"
proof -
  let ?n = "cm_addr_byte_count e" and ?k = "unat (cm_mask_shift e)"
  have wf: "cm_addr_bit_count e = 8 * ?n" "?k \<le> 8 * ?n"
    "\<And>p. p < 8 * ?n \<Longrightarrow> addr_bit (cm_mask_bytes e) p \<longleftrightarrow> p < ?k" "\<And>p. p < 8 * ?n \<Longrightarrow> addr_bit (cm_net_bytes e) p \<Longrightarrow> p < ?k"
    using assms(1) by (auto simp: entry_wf_def Let_def)
  have masked: "list_all (\<lambda>i. (addr ! i AND cm_mask_bytes e ! i) = cm_net_bytes e ! i) [0..<?n] \<longleftrightarrow>
      (\<forall>p<?k. addr_bit addr p = addr_bit (cm_net_bytes e) p)"
  proof -
    have "list_all (\<lambda>i. (addr ! i AND cm_mask_bytes e ! i) = cm_net_bytes e ! i) [0..<?n] \<longleftrightarrow>
      (\<forall>p<8 * ?n. (addr_bit addr p \<and> addr_bit (cm_mask_bytes e) p) = addr_bit (cm_net_bytes e) p)"
      unfolding list_all_iff addr_bit_def
      using bytes_eq_bits [of ?n "\<lambda>i. addr ! i AND cm_mask_bytes e ! i" "\<lambda>i. cm_net_bytes e ! i"] by (auto simp: bit_and_iff)
    also have "\<dots> \<longleftrightarrow> (\<forall>p<?k. addr_bit addr p = addr_bit (cm_net_bytes e) p)" using wf(2-4) by (metis less_le_trans)
    finally show ?thesis .
  qed
  have full: "list_all (\<lambda>i. addr ! i = cm_net_bytes e ! i) [0..<?n] \<longleftrightarrow>
      (\<forall>p<8 * ?n. addr_bit addr p = addr_bit (cm_net_bytes e) p)"
    unfolding list_all_iff addr_bit_def
    using bytes_eq_bits [of ?n "\<lambda>i. addr ! i" "\<lambda>i. cm_net_bytes e ! i"] by auto
  show ?thesis
  proof (cases "?k < cm_addr_bit_count e")
    case True
    then show ?thesis using masked by (auto simp: cidr_match_entry_def)
  next
    case False
    then have "?k = 8 * ?n" using wf(1,2) by simp
    then show ?thesis using full False by (auto simp: cidr_match_entry_def)
  qed
qed

lemma family_counts:
  "CIDR_MATCH_ADDR_FAMILY a = AF_INET6 \<or> CIDR_MATCH_ADDR_FAMILY a = AF_INET"
  by (simp add: CIDR_MATCH_ADDR_FAMILY_def)

lemma addr_bit_ones: "p < 8 * n \<Longrightarrow> addr_bit (replicate n (-1)) p"
  by (simp add: addr_bit_def less_mult_imp_div_less mult.commute)

lemma addr_bit_zeros: "p < 8 * n \<Longrightarrow> \<not> addr_bit (replicate n 0) p"
  by (simp add: addr_bit_def less_mult_imp_div_less mult.commute)

lemma host_bits_zero:
  assumes "list_all (\<lambda>i. net ! i AND NOT (m ! i) = (0::byte)) [0..<n]" "p < 8 * n"
  shows "addr_bit net p \<Longrightarrow> addr_bit m p"
proof -
  have "\<forall>i<n. net ! i AND NOT (m ! i) = 0" using assms(1) by (auto simp: list_all_iff)
  then have "bit (net ! (p div 8) AND NOT (m ! (p div 8))) (7 - p mod 8) = bit (0::byte) (7 - p mod 8)"
    using bytes_eq_bits [of n "\<lambda>i. net ! i AND NOT (m ! i)" "\<lambda>_. 0"] assms(2) by blast
  then show "addr_bit net p \<Longrightarrow> addr_bit m p" by (auto simp: addr_bit_def bit_and_iff bit_not_iff)
qed

lemma unat_byte: "k < 256 \<Longrightarrow> unat (word_of_nat k :: byte) = k"
  by (simp add: unat_of_nat)

text \<open>The parser always returns, and what it accepts is a well-formed entry.\<close>

definition parsed_entry :: "bool \<Rightarrow> cidr_match \<Rightarrow> bool" where
  "parsed_entry match e \<longleftrightarrow> entry_wf e \<and> cm_match e = match \<and> cm_op e = CIDR_MATCH_OP_MATCH \<and> cm_next e = None \<and> cm_block_end e = None"

lemma cidr_parse_ok:
  assumes "pton_ok pton"
  shows "returns (cidr_match_parse pton pattern match) (\<lambda>r. \<forall>e. r = Inr e \<longrightarrow> parsed_entry match e)"
proof (cases "cidr_split pattern")
  case (Inl err)
  then show ?thesis by (simp add: cidr_match_parse_def)
next
  case (Inr am)
  obtain addr m where am: "am = (addr, m)" by (cases am)
  let ?f = "CIDR_MATCH_ADDR_FAMILY addr"
  obtain n where n: "CIDR_MATCH_ADDR_BYTE_COUNT ?f = Ok n" "CIDR_MATCH_ADDR_BIT_COUNT ?f = Ok (8 * n)" "8 * n < 256"
    "\<And>bs. pton ?f addr = Some bs \<Longrightarrow> length bs = n"
    using family_counts [of addr] assms by (auto simp: CIDR_MATCH_ADDR_BYTE_COUNT_def CIDR_MATCH_ADDR_BIT_COUNT_def pton_ok_def)
  show ?thesis
  proof (cases m)
    case None
    have "unat (word_of_nat (8 * n) :: byte) = 8 * n" by (rule unat_byte [OF n(3)])
    then show ?thesis using None Inr n
      by (cases "pton ?f addr") (simp_all add: cidr_match_parse_def am parsed_entry_def entry_wf_def addr_bit_ones Let_def)
  next
    case (Some s)
    let ?w = "word_of_int (c_atoi s) :: byte"
    show ?thesis
    proof (cases "\<not> alldig s \<or> unat ?w > 8 * n \<or> pton ?f addr = None")
      case True
      then show ?thesis using Some Inr n by (simp add: cidr_match_parse_def am Let_def)
    next
      case False
      then obtain net where net: "pton ?f addr = Some net" "length net = n" "unat ?w \<le> 8 * n" using n(4) by auto
      obtain mb where mb: "(if unat ?w > 0 then mask_addr (replicate n (-1)) n (unat ?w) else Ok (replicate n 0)) = Ok mb"
        "length mb = n" "\<forall>p<8 * n. addr_bit mb p \<longleftrightarrow> p < unat ?w"
      proof (cases "unat ?w > 0")
        case True
        then show ?thesis using that mask_addr_ok [of "replicate n (-1)" n "unat ?w"] net(3) addr_bit_ones
          by (auto simp: returns_def)
      next
        case False
        then show ?thesis using that addr_bit_zeros by auto
      qed
      let ?zero = "list_all (\<lambda>i. net ! i AND NOT (mb ! i) = 0) [0..<n]"
      show ?thesis
      proof (cases ?zero)
        case True
        then have "\<forall>p<8 * n. addr_bit net p \<longrightarrow> p < unat ?w" using mb(3) host_bits_zero by blast
        then show ?thesis using Some Inr n False net mb True
          by (simp add: cidr_match_parse_def am Let_def parsed_entry_def entry_wf_def del: bit_0)
      next
        case nz: False
        obtain net' where "mask_addr net n (unat ?w) = Ok net'" using mask_addr_ok [OF net(2,3)] by (auto simp: returns_def)
        then show ?thesis using Some Inr n False net mb nz by (simp add: cidr_match_parse_def am Let_def)
      qed
    qed
  qed
qed

section \<open>Tables\<close>









text \<open>Following the pointers is reading the rules.\<close>

lemma match_entry_pointers [simp]:
  "cidr_match_entry (e\<lparr>cm_next := x, cm_block_end := y\<rparr>) addr = cidr_match_entry e addr"
  by (simp add: cidr_match_entry_def)






section \<open>Building the table\<close>

lemma upd_info_simps [simp]:
  "dc_head (upd_info d i f) = dc_head d" "dc_last (upd_info d i f) = dc_last d" "dc_stack (upd_info d i f) = dc_stack d"
  "length (dc_rules (upd_info d i f)) = length (dc_rules d)"
  by (simp_all add: upd_info_def)


text \<open>The pointers of the new table, in terms of the old one.\<close>

















lemma split_at_first: "c \<notin> set a \<Longrightarrow> c \<noteq> NUL \<Longrightarrow> split_at (a @ c # s) c = (a, Some s)"
proof -
  assume "c \<notin> set a" "c \<noteq> NUL"
  then have "strchr (a @ c # s) c = Some (length a)" by (induction a) auto
  then show ?thesis by (simp add: split_at_def)
qed

section \<open>Properties\<close>

text \<open>
  C31: A parsed pattern matches by prefix. \<open>cidr_match_parse\<close> always returns; when it accepts a
  pattern, the host part of the network address is zero, and the entry matches exactly the
  addresses that agree with the network address in the leading \<open>mask_shift\<close> bits, or exactly the
  others when the match is negated.
\<close>

theorem cidr_match_is_prefix:
  assumes "pton_ok inet_pton"
  shows "returns (cidr_match_parse inet_pton pattern match) (\<lambda>r. \<forall>e addr. r = Inr e \<and> length addr = cm_addr_byte_count e \<longrightarrow>
    (\<forall>p. unat (cm_mask_shift e) \<le> p \<and> p < 8 * cm_addr_byte_count e \<longrightarrow> \<not> addr_bit (cm_net_bytes e) p) \<and>
    cidr_match_entry e addr = (match = (\<forall>p. p < unat (cm_mask_shift e) \<longrightarrow> addr_bit addr p = addr_bit (cm_net_bytes e) p)))"
  using cidr_parse_ok [OF assms, of pattern match]
proof (rule returns_mono, intro allI impI)
  fix r e and addr :: "byte list"
  assume r: "\<forall>e. r = Inr e \<longrightarrow> parsed_entry match e" and e: "r = Inr e \<and> length addr = cm_addr_byte_count e"
  then have wf: "entry_wf e" "cm_match e = match" by (auto simp: parsed_entry_def)
  have "\<not> addr_bit (cm_net_bytes e) p" if "unat (cm_mask_shift e) \<le> p \<and> p < 8 * cm_addr_byte_count e" for p
    using wf(1) that by (auto simp: entry_wf_def Let_def)
  then show "(\<forall>p. unat (cm_mask_shift e) \<le> p \<and> p < 8 * cm_addr_byte_count e \<longrightarrow> \<not> addr_bit (cm_net_bytes e) p) \<and>
    cidr_match_entry e addr = (match = (\<forall>p. p < unat (cm_mask_shift e) \<longrightarrow> addr_bit addr p = addr_bit (cm_net_bytes e) p))"
    using entry_matches_prefix [OF wf(1), of addr] e wf(2) by auto
qed

text \<open>A fragment of \<open>inet_pton\<close> for the witnesses: four single digits and dots, or all zeros in IPv6.\<close>

definition demo_pton :: inet_pton_fn where
  "demo_pton f s =
     (if f = AF_INET \<and> s = ''10.0.0.0'' then Some [10, 0, 0, 0]
      else if f = AF_INET \<and> s = ''10.9.8.7'' then Some [10, 9, 8, 7]
      else if f = AF_INET6 \<and> s = ''::'' then Some (replicate 16 0)
      else None)"

lemma demo_pton_ok: "pton_ok demo_pton"
  by (auto simp: pton_ok_def demo_pton_def split: if_splits)

theorem cidr_match_is_prefix_witness:
  "pton_ok demo_pton \<and> returns (cidr_match_parse demo_pton ''10.0.0.0/8'' True) (\<lambda>r. \<forall>e addr. r = Inr e \<and> length addr = cm_addr_byte_count e \<longrightarrow>
    cidr_match_entry e addr = (\<forall>p. p < unat (cm_mask_shift e) \<longrightarrow> addr_bit addr p = addr_bit (cm_net_bytes e) p))"
  using demo_pton_ok cidr_match_is_prefix [OF demo_pton_ok, of "''10.0.0.0/8''" True] by (auto simp: returns_def)



text \<open>
  C39: The mask length wraps around at 256. The number is stored in an unsigned char before it is
  compared with the number of address bits, so that for instance \<open>a/264\<close> is accepted as \<open>a/8\<close>
  although no address has that many bits.
\<close>

theorem cidr_mask_wraps:
  assumes "pton_ok inet_pton" "inet_pton AF_INET addr = Some net" "CHR ''/'' \<notin> set addr" "CHR '':'' \<notin> set addr"
    "hd addr \<noteq> CHR ''[''" "addr \<noteq> []" "\<forall>p. 8 \<le> p \<and> p < 32 \<longrightarrow> \<not> addr_bit net p"
  shows "returns (cidr_match_parse inet_pton (addr @ ''/264'') match) (\<lambda>r. \<exists>e. r = Inr e \<and> cm_mask_shift e = 8 \<and> cm_net_bytes e = net)"
proof -
  have split: "cidr_split (addr @ ''/264'') = Inr (addr, Some ''264'')"
    using assms(3,5,6) by (cases addr) (auto simp: cidr_split_def split_at_first [of _ "_ # _", simplified])
  have "strchr addr CHR '':'' = None" using assms(4) by (induction addr) auto
  then have fam: "CIDR_MATCH_ADDR_FAMILY addr = AF_INET" by (simp add: CIDR_MATCH_ADDR_FAMILY_def)
  have w: "(word_of_int (c_atoi ''264'') :: byte) = 8" by (simp add: c_atoi_def)
  obtain mb where mb: "mask_addr (replicate 4 (-1)) 4 8 = Ok mb" "length mb = 4" "\<forall>p<32. addr_bit mb p \<longleftrightarrow> p < 8"
    using mask_addr_ok [of "replicate 4 (-1)" 4 8] addr_bit_ones [of _ 4] by (auto simp: returns_def)
  have "bit (net ! (p div 8) AND NOT (mb ! (p div 8))) (7 - p mod 8) = bit (0::byte) (7 - p mod 8)" if "p < 32" for p
    using mb(3) assms(7) that unfolding addr_bit_def by (auto simp: bit_and_iff bit_not_iff not_less)
  then have "\<forall>i<4. net ! i AND NOT (mb ! i) = 0" using bytes_eq_bits [of 4 "\<lambda>i. net ! i AND NOT (mb ! i)" "\<lambda>_. 0"] by simp
  then have zero: "list_all (\<lambda>i. net ! i AND NOT (mb ! i) = 0) [0..<4]" by (auto simp: list_all_iff)
  have "alldig ''264''" by (simp add: alldig_iff ctype_defs)
  then show ?thesis using split fam w mb(1) zero assms(2)
    by (simp add: cidr_match_parse_def CIDR_MATCH_ADDR_BIT_COUNT_def CIDR_MATCH_ADDR_BYTE_COUNT_def Let_def del: upt_rec_numeral)
qed

theorem cidr_mask_wraps_witness:
  "returns (cidr_match_parse demo_pton ''10.0.0.0/264'' True) (\<lambda>r. \<exists>e. r = Inr e \<and> cm_mask_shift e = 8)"
proof -
  have "\<forall>p. 8 \<le> p \<and> p < 32 \<longrightarrow> \<not> addr_bit [10, 0, 0, 0] p"
  proof (intro allI impI)
    fix p :: nat assume p: "8 \<le> p \<and> p < 32"
    then have "p div 8 \<in> {1, 2, 3}" by auto
    then show "\<not> addr_bit [10, 0, 0, 0] p" by (auto simp: addr_bit_def)
  qed
  then show ?thesis using cidr_mask_wraps [OF demo_pton_ok, of "''10.0.0.0''" "[10, 0, 0, 0]" True]
    by (auto simp: demo_pton_def returns_def)
qed

end
