(* ===== verification/Ip_match.thy ===== *)
theory Ip_match
  imports Hostname
begin

text \<open>
  Wild-card address patterns (\<open>src/util/ip_match.c\<close>): the tokenizer, the parser that encodes a
  pattern into byte codes on the fly, the engine that matches an address against the byte codes,
  and the printer. Byte codes and addresses are lists of bytes, and reading behind their end is a
  fault; the contents of the \<open>VSTRING\<close> arguments are lists, because the operations used on them are
  list operations by the theorems of \<^verbatim>\<open>Vstring\<close>. The octet variable of the parser is \<open>None\<close> until the
  tokenizer has set it.
\<close>

section \<open>Byte codes and tokens\<close>

definition AF_INET :: char where "AF_INET = CHR 0x02"
definition IP_MATCH_CODE_OPEN :: char where "IP_MATCH_CODE_OPEN = CHR ''[''"
definition IP_MATCH_CODE_CLOSE :: char where "IP_MATCH_CODE_CLOSE = CHR '']''"
definition IP_MATCH_CODE_OVAL :: char where "IP_MATCH_CODE_OVAL = CHR ''N''"
definition IP_MATCH_CODE_RANGE :: char where "IP_MATCH_CODE_RANGE = CHR ''R''"
definition IP_MATCH_CODE_ERR :: nat where "IP_MATCH_CODE_ERR = 256"

lemmas ip_codes = AF_INET_def IP_MATCH_CODE_OPEN_def IP_MATCH_CODE_CLOSE_def IP_MATCH_CODE_OVAL_def IP_MATCH_CODE_RANGE_def IP_MATCH_CODE_ERR_def

text \<open>
  The tokenizer: the token, the rest of the text, and the octet variable. The loop over the digits
  remembers that the value was too large at some point. The value is an \<open>int\<close> in the code, which a number of ten
  digits or more can overflow; it is unbounded here, and not used once it has been too large.
\<close>

fun octet_digits :: "string \<Rightarrow> nat \<Rightarrow> nat \<Rightarrow> nat \<times> nat \<times> string" where
  "octet_digits [] oval ty = (oval, ty, [])"
| "octet_digits (c # cp) oval ty =
     (if ISDIGIT c then
        let oval = oval * 10 + (ord c - 48)
        in octet_digits cp oval (if oval > 255 then IP_MATCH_CODE_ERR else ty)
      else (oval, ty, c # cp))"

definition ip_match_next_token :: "string \<Rightarrow> nat option \<Rightarrow> nat \<times> string \<times> nat option" where
  "ip_match_next_token start oval =
     (case start of
        [] \<Rightarrow> (0, [], oval)
      | c # cp \<Rightarrow>
          if ISDIGIT c then
            let (v, ty, cp) = octet_digits cp (ord c - 48) (ord IP_MATCH_CODE_OVAL) in (ty, cp, Some v)
          else (ord c, cp, oval))"

text \<open>An error text with its context; \<open>here\<close> and \<open>after\<close> are ends of the pattern.\<close>

definition ipmatch_print_parse_error :: "string \<Rightarrow> string \<Rightarrow> string \<Rightarrow> string \<Rightarrow> string" where
  "ipmatch_print_parse_error start here after msg =
     msg @ '' at '' @ [CHR 0x22] @ take (length start - length here) start @ ''>'' @
     take (length here - length after) here @ ''<'' @ after @ [CHR 0x22]"

section \<open>The parser\<close>

text \<open>One member of a sequence, behind its first number: the codes, the next token and the texts before and behind it.\<close>

definition parse_member ::
  "string \<Rightarrow> string \<Rightarrow> nat option \<Rightarrow> char list \<Rightarrow> (string + char list \<times> nat \<times> string \<times> string \<times> nat option) outcome" where
  "parse_member pattern cp oval byte_codes =
     (case oval of
        None \<Rightarrow> Fault
      | Some saved_oval \<Rightarrow>
          let (look_ahead, cp1, oval1) = ip_match_next_token cp oval in
          if look_ahead = ord CHR ''.'' then
            let (t2, cp2, oval2) = ip_match_next_token cp1 oval1 in
            if t2 \<noteq> ord CHR ''.'' then Ok (Inl (ipmatch_print_parse_error pattern cp1 cp2 ''numeric range error''))
            else let (t3, cp3, oval3) = ip_match_next_token cp2 oval2 in
              if t3 \<noteq> ord IP_MATCH_CODE_OVAL \<or> \<not> saved_oval \<le> the oval3
              then Ok (Inl (ipmatch_print_parse_error pattern cp2 cp3 ''numeric range error''))
              else let (t4, cp4, oval4) = ip_match_next_token cp3 oval3 in
                Ok (Inr (byte_codes @ [IP_MATCH_CODE_RANGE, char_of saved_oval, char_of (the oval3)], t4, cp3, cp4, oval4))
          else Ok (Inr (byte_codes @ [IP_MATCH_CODE_OVAL, char_of saved_oval], look_ahead, cp, cp1, oval1)))"

lemma octet_digits_shorter: "length (snd (snd (octet_digits cp v ty))) \<le> length cp"
  by (induction cp v ty rule: octet_digits.induct) (auto simp: Let_def)

lemma next_token_shorter:
  assumes "ip_match_next_token cp oval = (ty, cp', oval')"
  shows "length cp' \<le> length cp" "ty \<noteq> 0 \<Longrightarrow> length cp' < length cp"
proof -
  have "length cp' \<le> length cp \<and> (ty \<noteq> 0 \<longrightarrow> length cp' < length cp)"
  proof (cases cp)
    case Nil
    then show ?thesis using assms by (simp add: ip_match_next_token_def)
  next
    case (Cons c s)
    have "length (snd (snd (octet_digits s (ord c - 48) (ord IP_MATCH_CODE_OVAL)))) \<le> length s" by (rule octet_digits_shorter)
    then show ?thesis using assms Cons by (auto simp: ip_match_next_token_def Let_def split: prod.splits if_splits)
  qed
  then show "length cp' \<le> length cp" "ty \<noteq> 0 \<Longrightarrow> length cp' < length cp" by auto
qed

lemma parse_member_shorter:
  assumes "parse_member pattern cp oval codes = Ok (Inr (codes', ty, here, cp', oval'))"
  shows "length cp' \<le> length cp"
  using assms by (auto simp: parse_member_def Let_def split: option.splits prod.splits if_splits
    dest!: next_token_shorter(1))

text \<open>The loop over the members of a sequence, up to and including its end.\<close>

function parse_sequence :: "string \<Rightarrow> string \<Rightarrow> nat option \<Rightarrow> char list \<Rightarrow> (string + char list \<times> string \<times> nat option) outcome" where
  "parse_sequence pattern cp oval byte_codes =
     (case ip_match_next_token cp oval of (token_type, cp1, oval1) \<Rightarrow>
      if token_type \<noteq> ord IP_MATCH_CODE_OVAL
      then Ok (Inl (ipmatch_print_parse_error pattern cp cp1 ''need decimal number 0..255''))
      else obind (parse_member pattern cp1 oval1 byte_codes) (\<lambda>res.
        case res of
          Inl err \<Rightarrow> Ok (Inl err)
        | Inr (byte_codes, token_type, here, cp2, oval2) \<Rightarrow>
            if token_type = ord CHR '';'' then parse_sequence pattern cp2 oval2 byte_codes
            else if token_type = ord IP_MATCH_CODE_CLOSE then Ok (Inr (byte_codes @ [IP_MATCH_CODE_CLOSE], cp2, oval2))
            else Ok (Inl (ipmatch_print_parse_error pattern here cp2 (''need '' @ [CHR 0x22] @ '';'' @ [CHR 0x22] @ '' or '' @ [CHR 0x22] @ '']'' @ [CHR 0x22])))))"
  by pat_completeness auto
termination
proof (relation "measure (\<lambda>(pattern, cp, oval, codes). length cp)", goal_cases)
  case (2 pattern cp oval codes)
  then show ?case by (auto simp: ip_codes dest!: parse_member_shorter next_token_shorter(2) [OF sym])
qed simp

declare parse_sequence.simps [simp del]

lemma parse_sequence_shorter:
  assumes "parse_sequence pattern cp oval codes = Ok (Inr (codes', cp', oval'))"
  shows "length cp' \<le> length cp"
  using assms
proof (induction pattern cp oval codes rule: parse_sequence.induct)
  case (1 pattern cp oval codes)
  obtain ty cp1 oval1 where tok: "ip_match_next_token cp oval = (ty, cp1, oval1)" by (metis prod_cases3)
  note prems = "1.prems" [unfolded parse_sequence.simps [of pattern cp], unfolded tok]
  have ty: "ty = ord IP_MATCH_CODE_OVAL" using prems by (simp split: if_splits)
  obtain res where res: "parse_member pattern cp1 oval1 codes = Ok res" using prems ty by auto
  then obtain codes1 ty1 here cp2 oval2 where m: "parse_member pattern cp1 oval1 codes = Ok (Inr (codes1, ty1, here, cp2, oval2))"
    using prems ty by (cases res) auto
  have cp2: "length cp2 \<le> length cp" using next_token_shorter(1) [OF tok] parse_member_shorter [OF m] by simp
  show ?case
  proof (cases "ty1 = ord CHR '';''")
    case True
    then have "parse_sequence pattern cp2 oval2 codes1 = Ok (Inr (codes', cp', oval'))" using prems m ty by simp
    from "1.IH" [OF tok [symmetric] refl _ m refl refl refl refl refl _ this] show ?thesis using cp2 ty True by simp
  qed (use prems m ty cp2 in \<open>auto split: if_splits\<close>)
qed

text \<open>The loop over the address fields.\<close>

definition parse_field :: "string \<Rightarrow> string \<Rightarrow> nat option \<Rightarrow> char list \<Rightarrow> (string + char list \<times> string \<times> nat option) outcome" where
  "parse_field pattern cp oval byte_codes =
     (let (token_type, cp1, oval1) = ip_match_next_token cp oval in
      if token_type = ord IP_MATCH_CODE_OVAL then
        (case oval1 of
           None \<Rightarrow> Fault
         | Some v \<Rightarrow> Ok (Inr (byte_codes @ [IP_MATCH_CODE_OVAL, char_of v], cp1, oval1)))
      else if token_type = ord IP_MATCH_CODE_OPEN then parse_sequence pattern cp1 oval1 (byte_codes @ [IP_MATCH_CODE_OPEN])
      else Ok (Inl (ipmatch_print_parse_error pattern cp cp1 (''need decimal number 0..255 or '' @ [CHR 0x22] @ ''['' @ [CHR 0x22]))))"

lemma parse_field_shorter:
  assumes "parse_field pattern cp oval codes = Ok (Inr (codes', cp', oval'))"
  shows "length cp' < length cp"
  using assms by (auto simp: parse_field_def ip_codes split: prod.splits if_splits option.splits
    dest!: next_token_shorter(2) parse_sequence_shorter)

function parse_fields :: "string \<Rightarrow> string \<Rightarrow> nat option \<Rightarrow> char list \<Rightarrow> nat \<Rightarrow> (string + char list) outcome" where
  "parse_fields pattern cp oval byte_codes octet_count =
     obind (parse_field pattern cp oval byte_codes) (\<lambda>res.
     case res of
       Inl err \<Rightarrow> Ok (Inl err)
     | Inr (byte_codes, cp1, oval1) \<Rightarrow>
         (case ip_match_next_token cp1 oval1 of (token_type, cp2, oval2) \<Rightarrow>
          if octet_count + 1 = 4 then
            if cp1 \<noteq> [] then Ok (Inl (ipmatch_print_parse_error pattern cp1 cp2 ''garbage after pattern''))
            else Ok (Inr (byte_codes @ [NUL]))
          else if token_type \<noteq> ord CHR ''.''
          then Ok (Inl (ipmatch_print_parse_error pattern cp1 cp2 (''need '' @ [CHR 0x22] @ ''.'' @ [CHR 0x22])))
          else parse_fields pattern cp2 oval2 byte_codes (octet_count + 1)))"
  by pat_completeness auto
termination
  by (relation "measure (\<lambda>(pattern, cp, oval, codes, n). length cp)")
    (auto dest!: parse_field_shorter next_token_shorter(1) [OF sym])

declare parse_fields.simps [simp del]

text \<open>The text up to the bracket that closes the first one, and the text from it.\<close>

fun FIND_TERMINATOR :: "string \<Rightarrow> int \<Rightarrow> string \<times> string" where
  "FIND_TERMINATOR [] level = ([], [])"
| "FIND_TERMINATOR (c # cp) level =
     (let level = (if c = CHR ''['' then level + 1 else level) in
      if c \<noteq> CHR '']'' then apfst ((#) c) (FIND_TERMINATOR cp level)
      else if level - 1 = 0 then ([], c # cp)
      else apfst ((#) c) (FIND_TERMINATOR cp (level - 1)))"

text \<open>The result is the text of an error, or the byte codes.\<close>

definition ip_match_parse :: "string \<Rightarrow> (string + char list) outcome" where
  "ip_match_parse pattern =
     (let (before, cp) = FIND_TERMINATOR pattern 0 in
      if pattern \<noteq> [] \<and> hd pattern = CHR ''['' \<and> cp = []
      then Ok (Inl (''missing '' @ [CHR 0x22] @ '']'' @ [CHR 0x22] @ '' character''))
      else
        let pattern = (if pattern \<noteq> [] \<and> hd pattern = CHR ''['' \<and> tl cp = [] then tl before else pattern) in
        if pattern = [] then Ok (Inl ''empty address pattern'')
        else parse_fields pattern pattern None [AF_INET] 0)"

section \<open>The matching engine\<close>

definition ip_match_save :: "char list \<Rightarrow> char list" where
  "ip_match_save byte_codes = byte_codes"

definition hex2 :: "nat \<Rightarrow> string" where
  "hex2 n = [''0123456789abcdef'' ! (n div 16), ''0123456789abcdef'' ! (n mod 16)]"

definition ip_match_print_code_prefix :: "char list \<Rightarrow> nat \<Rightarrow> string" where
  "ip_match_print_code_prefix byte_codes len =
     concat (map (\<lambda>b. (if hd byte_codes = AF_INET then dec_text (ord b) else hex2 (ord b)) @ '' '') (take len byte_codes))"

definition bad_code :: "char list \<Rightarrow> char \<Rightarrow> char list \<Rightarrow> 'a outcome" where
  "bad_code byte_codes ch bp =
     Panic (''ip_match_execute: unexpected byte code (decimal '' @ dec_text (ord ch) @ '') after '' @ [CHR 0x22] @
       ip_match_print_code_prefix byte_codes (length byte_codes - length bp - 1) @ [CHR 0x22])"

text \<open>The loop over a sequence: whether a member matched, and the codes behind it.\<close>

fun exec_sequence :: "char list \<Rightarrow> char \<Rightarrow> bool \<Rightarrow> char list \<Rightarrow> (bool \<times> char list) outcome" where
  "exec_sequence byte_codes ap matched [] = Fault"
| "exec_sequence byte_codes ap matched (ch # bp) =
     (if ch = IP_MATCH_CODE_RANGE then
        (case bp of
           lo # hi # bp' \<Rightarrow> exec_sequence byte_codes ap (matched \<or> ord lo \<le> ord ap \<and> ord ap \<le> ord hi) bp'
         | _ \<Rightarrow> Fault)
      else if ch = IP_MATCH_CODE_OVAL then
        (case bp of
           v # bp' \<Rightarrow> exec_sequence byte_codes ap (matched \<or> ap = v) bp'
         | _ \<Rightarrow> Fault)
      else if ch = IP_MATCH_CODE_CLOSE then Ok (matched, bp)
      else bad_code byte_codes ch bp)"

text \<open>The loop over the octets that are left.\<close>

fun exec_fields :: "char list \<Rightarrow> nat \<Rightarrow> char list \<Rightarrow> char list \<Rightarrow> bool outcome" where
  "exec_fields byte_codes 0 ap bp = Ok True"
| "exec_fields byte_codes (Suc n) ap bp =
     (case (bp, ap) of
        (ch # bp1, a # ap1) \<Rightarrow>
          if ch = IP_MATCH_CODE_OVAL then
            (case bp1 of
               v # bp2 \<Rightarrow> if a = v then exec_fields byte_codes n ap1 bp2 else Ok False
             | _ \<Rightarrow> Fault)
          else if ch = IP_MATCH_CODE_OPEN then
            obind (exec_sequence byte_codes a False bp1) (\<lambda>(matched, bp2).
            if \<not> matched then Ok False else exec_fields byte_codes n ap1 bp2)
          else bad_code byte_codes ch bp1
      | _ \<Rightarrow> Fault)"

definition ip_match_execute :: "char list \<Rightarrow> char list \<Rightarrow> bool outcome" where
  "ip_match_execute byte_codes addr_bytes =
     (case byte_codes of
        [] \<Rightarrow> Fault
      | h # bp \<Rightarrow>
          if h \<noteq> AF_INET then Panic (''ip_match_execute: malformed byte-code header (decimal '' @ dec_text (ord h) @ '')'')
          else exec_fields byte_codes 4 addr_bytes bp)"

section \<open>The printer\<close>

definition bad_dump :: "char \<Rightarrow> string \<Rightarrow> 'a outcome" where
  "bad_dump ch out =
     Panic (''ip_match_dump: unexpected byte code (decimal '' @ dec_text (ord ch) @ '') after '' @ [CHR 0x22] @ out @ [CHR 0x22])"

text \<open>The separator between members, unless the sequence ends here.\<close>

definition dump_separator :: "string \<Rightarrow> char list \<Rightarrow> string outcome" where
  "dump_separator out bp =
     (case bp of [] \<Rightarrow> Fault | c # _ \<Rightarrow> Ok (if c \<noteq> IP_MATCH_CODE_CLOSE then out @ '';'' else out))"

fun dump_sequence :: "string \<Rightarrow> char list \<Rightarrow> (string \<times> char list) outcome" where
  "dump_sequence out [] = Fault"
| "dump_sequence out (ch # bp) =
     (if ch = IP_MATCH_CODE_RANGE then
        (case bp of
           lo # hi # bp' \<Rightarrow>
             obind (dump_separator (out @ dec_text (ord lo) @ ''..'' @ dec_text (ord hi)) bp') (\<lambda>out.
             dump_sequence out bp')
         | _ \<Rightarrow> Fault)
      else if ch = IP_MATCH_CODE_OVAL then
        (case bp of
           v # bp' \<Rightarrow>
             obind (dump_separator (out @ dec_text (ord v)) bp') (\<lambda>out. dump_sequence out bp')
         | _ \<Rightarrow> Fault)
      else if ch = IP_MATCH_CODE_CLOSE then Ok (out, bp)
      else bad_dump ch out)"

text \<open>One field; the last character read comes along, because the messages below print it.\<close>

definition dump_field :: "string \<Rightarrow> char list \<Rightarrow> (string \<times> char list \<times> char) outcome" where
  "dump_field out bp =
     (case bp of
        [] \<Rightarrow> Fault
      | ch # bp1 \<Rightarrow>
          if ch = IP_MATCH_CODE_OVAL then
            (case bp1 of [] \<Rightarrow> Fault | v # bp2 \<Rightarrow> Ok (out @ dec_text (ord v), bp2, ch))
          else if ch = IP_MATCH_CODE_OPEN then
            obind (dump_sequence (out @ ''['') bp1) (\<lambda>(out, bp2). Ok (out @ '']'', bp2, IP_MATCH_CODE_CLOSE))
          else bad_dump ch out)"

text \<open>The loop, with the number of fields that are still to come behind this one.\<close>

fun dump_fields :: "nat \<Rightarrow> string \<Rightarrow> char list \<Rightarrow> string outcome" where
  "dump_fields more out bp =
     obind (dump_field out bp) (\<lambda>(out, bp, ch).
     case bp of
       [] \<Rightarrow> Fault
     | c # _ \<Rightarrow>
         (case more of
            0 \<Rightarrow> if c \<noteq> NUL then bad_dump ch out else Ok out
          | Suc n \<Rightarrow>
              if c = NUL then Panic (''ip_match_dump: truncated byte code after '' @ [CHR 0x22] @ out @ [CHR 0x22])
              else dump_fields n (out @ ''.'') bp))"

definition ip_match_dump :: "char list \<Rightarrow> string outcome" where
  "ip_match_dump byte_codes =
     (case byte_codes of
        [] \<Rightarrow> Fault
      | h # bp \<Rightarrow> if h \<noteq> AF_INET then Panic ''ip_match_dump: malformed byte-code header'' else dump_fields 3 [] bp)"

section \<open>Patterns\<close>

text \<open>The abstract syntax of patterns, their text, their byte codes and what they match.\<close>

datatype ip_member = One nat | Span nat nat
datatype ip_field = Octet nat | Members "ip_member list"

fun member_ok :: "ip_member \<Rightarrow> bool" where
  "member_ok (One n) \<longleftrightarrow> n \<le> 255"
| "member_ok (Span a b) \<longleftrightarrow> a \<le> b \<and> b \<le> 255"

fun field_ok :: "ip_field \<Rightarrow> bool" where
  "field_ok (Octet n) \<longleftrightarrow> n \<le> 255"
| "field_ok (Members ms) \<longleftrightarrow> ms \<noteq> [] \<and> list_all member_ok ms"

definition pattern_ok :: "ip_field list \<Rightarrow> bool" where
  "pattern_ok fs \<longleftrightarrow> length fs = 4 \<and> list_all field_ok fs"

fun join_with :: "char \<Rightarrow> string list \<Rightarrow> string" where
  "join_with c [] = []"
| "join_with c [x] = x"
| "join_with c (x # y # ys) = x @ c # join_with c (y # ys)"

fun member_text :: "ip_member \<Rightarrow> string" where
  "member_text (One n) = dec_text n"
| "member_text (Span a b) = dec_text a @ ''..'' @ dec_text b"

fun field_text :: "ip_field \<Rightarrow> string" where
  "field_text (Octet n) = dec_text n"
| "field_text (Members ms) = ''['' @ join_with CHR '';'' (map member_text ms) @ '']''"

definition pattern_text :: "ip_field list \<Rightarrow> string" where
  "pattern_text fs = join_with CHR ''.'' (map field_text fs)"

text \<open>The last number of a field, which stays in the octet variable of the parser.\<close>

fun member_last :: "ip_member \<Rightarrow> nat" where
  "member_last (One n) = n"
| "member_last (Span a b) = b"

fun field_last :: "ip_field \<Rightarrow> nat" where
  "field_last (Octet n) = n"
| "field_last (Members ms) = member_last (last ms)"

fun member_code :: "ip_member \<Rightarrow> char list" where
  "member_code (One n) = [IP_MATCH_CODE_OVAL, char_of n]"
| "member_code (Span a b) = [IP_MATCH_CODE_RANGE, char_of a, char_of b]"

fun field_code :: "ip_field \<Rightarrow> char list" where
  "field_code (Octet n) = [IP_MATCH_CODE_OVAL, char_of n]"
| "field_code (Members ms) = IP_MATCH_CODE_OPEN # concat (map member_code ms) @ [IP_MATCH_CODE_CLOSE]"

definition pattern_code :: "ip_field list \<Rightarrow> char list" where
  "pattern_code fs = AF_INET # concat (map field_code fs) @ [NUL]"

fun member_matches :: "ip_member \<Rightarrow> char \<Rightarrow> bool" where
  "member_matches (One n) a \<longleftrightarrow> ord a = n"
| "member_matches (Span lo hi) a \<longleftrightarrow> lo \<le> ord a \<and> ord a \<le> hi"

fun field_matches :: "ip_field \<Rightarrow> char \<Rightarrow> bool" where
  "field_matches (Octet n) a \<longleftrightarrow> ord a = n"
| "field_matches (Members ms) a \<longleftrightarrow> (\<exists>m \<in> set ms. member_matches m a)"

section \<open>The engine and the printer run compiled patterns\<close>

lemma octet_char: "n \<le> 255 \<Longrightarrow> ord (char_of n :: char) = n"
  by simp

lemma octet_eq: "n \<le> 255 \<Longrightarrow> a = char_of n \<longleftrightarrow> ord a = n"
  by auto

lemma exec_sequence_ok:
  "list_all member_ok ms \<Longrightarrow>
   exec_sequence codes a matched (concat (map member_code ms) @ IP_MATCH_CODE_CLOSE # bp) = Ok (matched \<or> (\<exists>m \<in> set ms. member_matches m a), bp)"
proof (induction ms arbitrary: matched)
  case Nil
  then show ?case by (simp add: ip_codes)
next
  case (Cons m ms)
  show ?case
  proof (cases m)
    case (One n)
    then show ?thesis using Cons octet_eq [of n a] by (simp add: ip_codes)
  next
    case (Span lo hi)
    then show ?thesis using Cons by (simp add: ip_codes)
  qed
qed

lemma exec_fields_ok:
  "list_all field_ok fs \<Longrightarrow> length fs \<le> length addr \<Longrightarrow>
   exec_fields codes (length fs) addr (concat (map field_code fs) @ bp) = Ok (list_all2 field_matches fs (take (length fs) addr))"
proof (induction fs arbitrary: addr)
  case (Cons f fs)
  then obtain a addr' where addr: "addr = a # addr'" by (cases addr) auto
  show ?case
  proof (cases f)
    case (Octet n)
    then show ?thesis using Cons addr octet_eq [of n a] by (simp add: ip_codes)
  next
    case (Members ms)
    have "exec_sequence codes a False (concat (map member_code ms) @ IP_MATCH_CODE_CLOSE # concat (map field_code fs) @ bp) =
      Ok (\<exists>m \<in> set ms. member_matches m a, concat (map field_code fs) @ bp)"
      using exec_sequence_ok [of ms codes a False] Cons.prems(1) Members by simp
    then show ?thesis using Cons addr Members by (simp add: ip_codes)
  qed
qed simp

lemma member_code_start: "ms \<noteq> [] \<Longrightarrow> \<exists>c cs. concat (map member_code ms) = c # cs \<and> c \<noteq> IP_MATCH_CODE_CLOSE"
proof (cases ms)
  case (Cons m ms')
  then show ?thesis by (cases m) (auto simp: ip_codes)
qed simp

lemma dump_sequence_ok:
  "ms \<noteq> [] \<Longrightarrow> list_all member_ok ms \<Longrightarrow>
   dump_sequence out (concat (map member_code ms) @ IP_MATCH_CODE_CLOSE # bp) = Ok (out @ join_with CHR '';'' (map member_text ms), bp)"
proof (induction ms arbitrary: out)
  case (Cons m ms)
  have close: "dump_sequence out (IP_MATCH_CODE_CLOSE # bp) = Ok (out, bp)" for out by (simp add: ip_codes)
  show ?case
  proof (cases "ms = []")
    case True
    have sep: "dump_separator out (IP_MATCH_CODE_CLOSE # bp) = Ok out" for out by (simp add: dump_separator_def)
    show ?thesis using True Cons.prems close sep by (cases m) (simp_all add: ip_codes)
  next
    case False
    then obtain c cs where c: "concat (map member_code ms) = c # cs" "c \<noteq> IP_MATCH_CODE_CLOSE" using member_code_start by blast
    have sep: "dump_separator out (concat (map member_code ms) @ IP_MATCH_CODE_CLOSE # bp) = Ok (out @ '';'')" for out
      using c by (simp add: dump_separator_def)
    have join: "join_with CHR '';'' (map member_text (m # ms)) = member_text m @ '';'' @ join_with CHR '';'' (map member_text ms)"
      using False by (cases ms) simp_all
    show ?thesis unfolding join using False Cons.prems Cons.IH [OF False] sep by (cases m) (simp_all add: ip_codes)
  qed
qed simp

lemma dump_field_ok:
  assumes "field_ok f"
  shows "\<exists>ch. dump_field out (field_code f @ bp) = Ok (out @ field_text f, bp, ch)"
proof (cases f)
  case (Members ms)
  then show ?thesis using assms dump_sequence_ok [of ms "out @ ''[''" bp] by (simp add: dump_field_def ip_codes)
qed (use assms in \<open>simp add: dump_field_def ip_codes\<close>)

lemma field_code_start: "\<exists>c cs. field_code f = c # cs \<and> c \<noteq> NUL"
  by (cases f) (auto simp: ip_codes)

lemma dump_fields_ok:
  "list_all field_ok fs \<Longrightarrow> length fs = Suc n \<Longrightarrow>
   dump_fields n out (concat (map field_code fs) @ [NUL]) = Ok (out @ join_with CHR ''.'' (map field_text fs))"
proof (induction fs arbitrary: n out)
  case (Cons f fs)
  obtain ch where f: "dump_field out (field_code f @ concat (map field_code fs) @ [NUL]) = Ok (out @ field_text f, concat (map field_code fs) @ [NUL], ch)"
    using dump_field_ok Cons.prems(1) by fastforce
  show ?case
  proof (cases n)
    case 0
    then show ?thesis using Cons.prems f by (subst dump_fields.simps) simp
  next
    case (Suc k)
    then obtain g gs where fs: "fs = g # gs" using Cons.prems(2) by (cases fs) auto
    obtain c cs where c: "field_code g = c # cs" "c \<noteq> NUL" using field_code_start by blast
    have "dump_fields k (out @ field_text f @ ''.'') (concat (map field_code fs) @ [NUL]) = Ok (out @ field_text f @ ''.'' @ join_with CHR ''.'' (map field_text fs))"
      using Cons.IH [of k "out @ field_text f @ ''.''"] Cons.prems Suc by simp
    then show ?thesis using Cons.prems f c fs Suc by (subst dump_fields.simps) simp
  qed
qed simp

section \<open>The parser accepts the text of patterns\<close>

lemma octet_digits_run:
  "list_all ISDIGIT ds \<Longrightarrow> rest = [] \<or> \<not> ISDIGIT (hd rest) \<Longrightarrow> digits_value ds v \<le> 255 \<Longrightarrow>
   octet_digits (ds @ rest) v ty = (digits_value ds v, ty, rest)"
proof (induction ds arbitrary: v)
  case Nil
  then show ?case by (cases rest) auto
next
  case (Cons d ds)
  have "10 * v + (ord d - 48) \<le> digits_value ds (10 * v + (ord d - 48))" by (rule digits_value_mono)
  then show ?case using Cons by (simp add: Let_def mult.commute)
qed

lemma next_token_number:
  assumes "n \<le> 255" "rest = [] \<or> \<not> ISDIGIT (hd rest)"
  shows "ip_match_next_token (dec_text n @ rest) oval = (ord IP_MATCH_CODE_OVAL, rest, Some n)"
proof -
  note d = dec_text_digits [of n]
  then obtain c ds where ds: "dec_text n = c # ds" by (cases "dec_text n") auto
  have v: "digits_value ds (ord c - 48) = n" "ISDIGIT c" "list_all ISDIGIT ds" using d unfolding ds by auto
  have "octet_digits (ds @ rest) (ord c - 48) (ord IP_MATCH_CODE_OVAL) = (n, ord IP_MATCH_CODE_OVAL, rest)"
    using octet_digits_run [OF v(3) assms(2), of "ord c - 48"] v(1) assms(1) by simp
  then show ?thesis using v(2) by (simp add: ip_match_next_token_def ds)
qed

lemma next_token_char: "\<not> ISDIGIT c \<Longrightarrow> ip_match_next_token (c # rest) oval = (ord c, rest, oval)"
  by (simp add: ip_match_next_token_def)

lemma not_digits [simp]: "\<not> ISDIGIT CHR ''.''" "\<not> ISDIGIT CHR '';''" "\<not> ISDIGIT CHR '']''" "\<not> ISDIGIT CHR ''[''" "\<not> ISDIGIT CHR ''N''"
  by (simp_all add: ISDIGIT_def)

lemma parse_one:
  assumes "d = CHR '';'' \<or> d = CHR '']''"
  shows "parse_member pattern (d # rest) (Some n) codes = Ok (Inr (codes @ member_code (One n), ord d, d # rest, rest, Some n))"
  using assms by (auto simp: parse_member_def next_token_char)

lemma parse_span:
  assumes "d = CHR '';'' \<or> d = CHR '']''" "a \<le> b" "b \<le> 255"
  shows "parse_member pattern (''..'' @ dec_text b @ d # rest) (Some a) codes =
    Ok (Inr (codes @ member_code (Span a b), ord d, d # rest, rest, Some b))"
proof -
  have "ip_match_next_token (dec_text b @ d # rest) (Some a) = (ord IP_MATCH_CODE_OVAL, d # rest, Some b)"
    using next_token_number assms by auto
  then show ?thesis using assms by (auto simp: parse_member_def next_token_char)
qed

lemma parse_member_text:
  assumes "d = CHR '';'' \<or> d = CHR '']''" "member_ok m"
  shows "\<exists>n cp here. ip_match_next_token (member_text m @ d # rest) oval = (ord IP_MATCH_CODE_OVAL, cp, Some n) \<and>
    parse_member pattern cp (Some n) codes = Ok (Inr (codes @ member_code m, ord d, here, rest, Some (member_last m)))"
proof (cases m)
  case (One n)
  have "ip_match_next_token (dec_text n @ d # rest) oval = (ord IP_MATCH_CODE_OVAL, d # rest, Some n)"
    using next_token_number assms One by auto
  then show ?thesis using parse_one [OF assms(1)] One by auto
next
  case (Span a b)
  have "ip_match_next_token (dec_text a @ ''..'' @ dec_text b @ d # rest) oval = (ord IP_MATCH_CODE_OVAL, ''..'' @ dec_text b @ d # rest, Some a)"
    using next_token_number assms Span by auto
  then show ?thesis using parse_span [OF assms(1), of a b] assms(2) Span by auto
qed

lemma parse_sequence_text:
  "ms \<noteq> [] \<Longrightarrow> list_all member_ok ms \<Longrightarrow>
   parse_sequence pattern (join_with CHR '';'' (map member_text ms) @ '']'' @ rest) oval codes =
     Ok (Inr (codes @ concat (map member_code ms) @ [IP_MATCH_CODE_CLOSE], rest, Some (member_last (last ms))))"
proof (induction ms arbitrary: oval codes)
  case (Cons m ms)
  show ?case
  proof (cases "ms = []")
    case True
    obtain n cp here where t: "ip_match_next_token (member_text m @ CHR '']'' # rest) oval = (ord IP_MATCH_CODE_OVAL, cp, Some n)"
      "parse_member pattern cp (Some n) codes = Ok (Inr (codes @ member_code m, ord CHR '']'', here, rest, Some (member_last m)))"
      using parse_member_text [of "CHR '']''" m rest oval pattern codes] Cons.prems by auto
    show ?thesis using t True by (subst parse_sequence.simps) (simp add: IP_MATCH_CODE_CLOSE_def)
  next
    case False
    let ?rest = "join_with CHR '';'' (map member_text ms) @ '']'' @ rest"
    have join: "join_with CHR '';'' (map member_text (m # ms)) @ '']'' @ rest = member_text m @ CHR '';'' # ?rest"
      using False by (cases ms) simp_all
    obtain n cp here where t: "ip_match_next_token (member_text m @ CHR '';'' # ?rest) oval = (ord IP_MATCH_CODE_OVAL, cp, Some n)"
      "parse_member pattern cp (Some n) codes = Ok (Inr (codes @ member_code m, ord CHR '';'', here, ?rest, Some (member_last m)))"
      using parse_member_text [of "CHR '';''" m ?rest oval pattern codes] Cons.prems by auto
    have "parse_sequence pattern ?rest (Some (member_last m)) (codes @ member_code m) =
      Ok (Inr ((codes @ member_code m) @ concat (map member_code ms) @ [IP_MATCH_CODE_CLOSE], rest, Some (member_last (last ms))))"
      using Cons.IH [OF False, of "Some (member_last m)" "codes @ member_code m"] Cons.prems by auto
    then have "parse_sequence pattern (member_text m @ CHR '';'' # ?rest) oval codes =
      Ok (Inr ((codes @ member_code m) @ concat (map member_code ms) @ [IP_MATCH_CODE_CLOSE], rest, Some (member_last (last ms))))"
      using t by (subst parse_sequence.simps) simp
    then show ?thesis unfolding join using False by simp
  qed
qed simp

lemma parse_field_text:
  assumes "field_ok f" "rest = [] \<or> \<not> ISDIGIT (hd rest)"
  shows "parse_field pattern (field_text f @ rest) oval codes = Ok (Inr (codes @ field_code f, rest, Some (field_last f)))"
proof (cases f)
  case (Octet n)
  then show ?thesis using next_token_number assms by (simp add: parse_field_def)
next
  case (Members ms)
  then show ?thesis using parse_sequence_text [of ms pattern rest oval "codes @ [IP_MATCH_CODE_OPEN]"] assms
    by (simp add: parse_field_def next_token_char IP_MATCH_CODE_OPEN_def IP_MATCH_CODE_OVAL_def)
qed

text \<open>
  Fields of which some are the letter \<open>N\<close> (none), and what the parser takes them for when the octet
  variable holds \<open>v\<close>.
\<close>

definition lettered_text :: "ip_field option list \<Rightarrow> string" where
  "lettered_text gs = join_with CHR ''.'' (map (\<lambda>g. case g of None \<Rightarrow> ''N'' | Some f \<Rightarrow> field_text f) gs)"

fun taken_for :: "nat \<Rightarrow> ip_field option list \<Rightarrow> ip_field list" where
  "taken_for v [] = []"
| "taken_for v (None # gs) = Octet v # taken_for v gs"
| "taken_for v (Some f # gs) = f # taken_for (field_last f) gs"

definition lettered_ok :: "ip_field option list \<Rightarrow> bool" where
  "lettered_ok gs \<longleftrightarrow> list_all (\<lambda>g. case g of None \<Rightarrow> True | Some f \<Rightarrow> field_ok f) gs"

lemma lettered_fields: "lettered_text (map Some fs) = join_with CHR ''.'' (map field_text fs)" "taken_for v (map Some fs) = fs"
  "lettered_ok (map Some fs) \<longleftrightarrow> list_all field_ok fs"
  by (simp_all add: lettered_text_def comp_def lettered_ok_def list_all_iff) (induction fs arbitrary: v, simp_all)

lemma taken_for_length [simp]: "length (taken_for v gs) = length gs"
  by (induction v gs rule: taken_for.induct) auto

lemma lettered_Cons:
  "gs \<noteq> [] \<Longrightarrow> lettered_text (g # gs) = (case g of None \<Rightarrow> ''N'' | Some f \<Rightarrow> field_text f) @ CHR ''.'' # lettered_text gs"
  by (cases gs) (simp_all add: lettered_text_def)

text \<open>One field, the letter included, when the octet variable has a value.\<close>

lemma parse_field_lettered:
  assumes "lettered_ok [g]" "rest = [] \<or> \<not> ISDIGIT (hd rest)" "oval = Some v \<or> g \<noteq> None"
  shows "\<exists>w. parse_field pattern ((case g of None \<Rightarrow> ''N'' | Some f \<Rightarrow> field_text f) @ rest) oval codes =
      Ok (Inr (codes @ concat (map field_code (taken_for v [g])), rest, Some w)) \<and> taken_for v (g # gs) = hd (taken_for v [g]) # taken_for w gs"
proof (cases g)
  case None
  then show ?thesis using assms(3) by (auto simp: parse_field_def next_token_char IP_MATCH_CODE_OVAL_def)
next
  case (Some f)
  then show ?thesis using parse_field_text [OF _ assms(2), of f] assms(1) by (simp add: lettered_ok_def)
qed

lemma parse_fields_lettered:
  "gs \<noteq> [] \<Longrightarrow> lettered_ok gs \<Longrightarrow> oval = Some v \<or> hd gs \<noteq> None \<Longrightarrow> k + length gs = 4 \<Longrightarrow>
   parse_fields pattern (lettered_text gs) oval codes k = Ok (Inr (codes @ concat (map field_code (taken_for v gs)) @ [NUL]))"
proof (induction gs arbitrary: oval v codes k)
  case (Cons g gs)
  have g: "lettered_ok [g]" "oval = Some v \<or> g \<noteq> None" using Cons.prems by (auto simp: lettered_ok_def)
  let ?text = "case g of None \<Rightarrow> ''N'' | Some f \<Rightarrow> field_text f" and ?code = "concat (map field_code (taken_for v [g]))"
  show ?case
  proof (cases "gs = []")
    case True
    obtain w where "parse_field pattern (?text @ []) oval codes = Ok (Inr (codes @ ?code, [], Some w))"
      using parse_field_lettered [OF g(1) _ g(2), of "[]" pattern codes "[]"] by auto
    moreover have "lettered_text [g] = ?text" by (simp add: lettered_text_def)
    ultimately show ?thesis using True Cons.prems(4) by (subst parse_fields.simps) (simp split: prod.split)
  next
    case False
    let ?rest = "lettered_text gs"
    obtain w where w: "parse_field pattern (?text @ CHR ''.'' # ?rest) oval codes = Ok (Inr (codes @ ?code, CHR ''.'' # ?rest, Some w))"
      "taken_for v (g # gs) = hd (taken_for v [g]) # taken_for w gs"
      using parse_field_lettered [OF g(1) _ g(2), of "CHR ''.'' # ?rest" pattern codes gs] by auto
    have code: "field_code (hd (taken_for v [g])) = ?code" by (cases g) simp_all
    have "parse_fields pattern ?rest (Some w) (codes @ ?code) (Suc k) = Ok (Inr ((codes @ ?code) @ concat (map field_code (taken_for w gs)) @ [NUL]))"
      by (rule Cons.IH) (use Cons.prems False in \<open>auto simp: lettered_ok_def\<close>)
    moreover have "Suc k \<noteq> 4" using Cons.prems(4) False by auto
    ultimately show ?thesis unfolding lettered_Cons [OF False] using w code by (subst parse_fields.simps) (simp add: next_token_char)
  qed
qed simp

lemma parse_fields_text:
  "fs \<noteq> [] \<Longrightarrow> list_all field_ok fs \<Longrightarrow> k + length fs = 4 \<Longrightarrow>
   parse_fields pattern (join_with CHR ''.'' (map field_text fs)) oval codes k = Ok (Inr (codes @ concat (map field_code fs) @ [NUL]))"
  using parse_fields_lettered [of "map Some fs" oval _ k pattern codes] by (simp add: lettered_fields list.map_sel)

text \<open>The brackets around a whole pattern.\<close>

lemma terminator_skip:
  "list_all (\<lambda>c. c \<noteq> CHR ''['' \<and> c \<noteq> CHR '']'') xs \<Longrightarrow> FIND_TERMINATOR (xs @ ys) l = apfst ((@) xs) (FIND_TERMINATOR ys l)"
proof (induction xs)
  case Nil
  then show ?case by (cases "FIND_TERMINATOR ys l") simp
next
  case (Cons c xs)
  then show ?case by (cases "FIND_TERMINATOR ys l") simp
qed

lemma dec_text_plain: "list_all (\<lambda>c. c \<noteq> CHR ''['' \<and> c \<noteq> CHR '']'') (dec_text n)"
  using dec_text_digits [of n] by (auto simp: list_all_iff)

lemma members_plain: "list_all (\<lambda>c. c \<noteq> CHR ''['' \<and> c \<noteq> CHR '']'') (join_with CHR '';'' (map member_text ms))"
proof (induction ms rule: induct_list012)
  case (2 m)
  then show ?case using dec_text_plain by (cases m) auto
next
  case (3 m m' ms)
  then show ?case using dec_text_plain by (cases m) auto
qed simp

lemma terminator_field: "l \<ge> 1 \<Longrightarrow> FIND_TERMINATOR (field_text f @ ys) l = apfst ((@) (field_text f)) (FIND_TERMINATOR ys l)"
proof (cases f)
  case (Octet n)
  then show ?thesis using terminator_skip dec_text_plain by simp
next
  case (Members ms)
  assume "l \<ge> 1"
  then show ?thesis using Members terminator_skip [OF members_plain, of ms "CHR '']'' # ys" "l + 1"]
    by (cases "FIND_TERMINATOR ys l") simp
qed

lemma terminator_pattern: "FIND_TERMINATOR (join_with CHR ''.'' (map field_text fs) @ '']'') 1 = (join_with CHR ''.'' (map field_text fs), '']'')"
proof (induction fs rule: induct_list012)
  case (2 f)
  then show ?case using terminator_field [of 1 f "'']''"] by simp
next
  case (3 f g fs)
  then show ?case using terminator_field [of 1 f "CHR ''.'' # join_with CHR ''.'' (map field_text (g # fs)) @ '']''"] by simp
qed simp

lemma pattern_text_nonempty: "fs \<noteq> [] \<Longrightarrow> list_all field_ok fs \<Longrightarrow> pattern_text fs \<noteq> []"
proof (cases fs)
  case (Cons f gs)
  have "field_text f \<noteq> []" using dec_text_digits by (cases f) auto
  then show ?thesis using Cons by (cases gs) (auto simp: pattern_text_def)
qed simp

lemma field_text_start: "field_ok f \<Longrightarrow> field_text f \<noteq> [] \<and> (hd (field_text f) = CHR ''['' \<longrightarrow> (\<exists>ms. f = Members ms))"
proof (cases f)
  case (Octet n)
  then show ?thesis using dec_text_digits [of n] by (cases "dec_text n") auto
qed simp

text \<open>A text that begins with a field and a dot is not a bracketed pattern, and its brackets are closed.\<close>

lemma unbracketed_text:
  assumes "field_ok f"
  shows "ip_match_parse (field_text f @ CHR ''.'' # rest) = parse_fields (field_text f @ CHR ''.'' # rest) (field_text f @ CHR ''.'' # rest) None [AF_INET] 0"
proof (cases "hd (field_text f @ CHR ''.'' # rest) = CHR ''[''")
  case True
  then obtain ms where f: "f = Members ms" using field_text_start [OF assms] by auto
  have "FIND_TERMINATOR (field_text f @ CHR ''.'' # rest) 0 = (CHR ''['' # join_with CHR '';'' (map member_text ms), CHR '']'' # CHR ''.'' # rest)"
    using terminator_skip [OF members_plain, of ms "CHR '']'' # CHR ''.'' # rest" 1] by (simp add: f)
  then show ?thesis using field_text_start [OF assms] by (simp add: ip_match_parse_def Let_def)
next
  case False
  then show ?thesis using field_text_start [OF assms] by (auto simp: ip_match_parse_def Let_def split: prod.split)
qed

lemma parse_text:
  assumes "pattern_ok fs"
  shows "ip_match_parse (pattern_text fs) = Ok (Inr (pattern_code fs))"
    "ip_match_parse (''['' @ pattern_text fs @ '']'') = Ok (Inr (pattern_code fs))"
proof -
  have fs: "fs \<noteq> []" "list_all field_ok fs" "length fs = 4" using assms by (auto simp: pattern_ok_def)
  have ne: "pattern_text fs \<noteq> []" using pattern_text_nonempty fs by blast
  have run: "parse_fields p (pattern_text fs) None [AF_INET] 0 = Ok (Inr (pattern_code fs))" for p
    using parse_fields_text [OF fs(1,2), of 0] fs(3) by (simp add: pattern_text_def pattern_code_def)
  obtain f g gs where "fs = f # g # gs" using fs(3) by (auto simp: length_Suc_conv numeral_eq_Suc)
  then show "ip_match_parse (pattern_text fs) = Ok (Inr (pattern_code fs))"
    using run unbracketed_text [of f "join_with CHR ''.'' (map field_text (g # gs))"] fs(2) by (simp add: pattern_text_def)
  have "FIND_TERMINATOR (''['' @ pattern_text fs @ '']'') 0 = (CHR ''['' # pattern_text fs, '']'')"
    using terminator_pattern [of fs] by (simp add: pattern_text_def)
  then show "ip_match_parse (''['' @ pattern_text fs @ '']'') = Ok (Inr (pattern_code fs))"
    using run ne by (simp add: ip_match_parse_def)
qed

section \<open>What the parser accepts is a pattern\<close>

text \<open>
  The tokenizer returns the code of a number for the letter \<open>N\<close> as well; without that letter the
  token always comes with an octet.
\<close>

lemma octet_digits_range:
  "octet_digits cp v ty = (v', ty', rest) \<Longrightarrow> v \<le> 255 \<or> ty = IP_MATCH_CODE_ERR \<Longrightarrow> v' \<le> 255 \<or> ty' = IP_MATCH_CODE_ERR"
proof (induction cp v ty rule: octet_digits.induct)
  case (2 c cp oval ty)
  show ?case
  proof (cases "ISDIGIT c")
    case True
    let ?v = "oval * 10 + (ord c - 48)"
    show ?thesis by (rule "2.IH" [OF True refl]) (use "2.prems" True in \<open>auto simp: Let_def\<close>)
  qed (use 2 in auto)
qed auto

lemma octet_digits_rest: "octet_digits cp v ty = (v', ty', rest) \<Longrightarrow> set rest \<subseteq> set cp"
  by (induction cp v ty rule: octet_digits.induct) (auto simp: Let_def split: if_splits)

lemma next_token_octet:
  assumes "ip_match_next_token cp oval = (ty, cp', oval')" "CHR ''N'' \<notin> set cp"
  shows "CHR ''N'' \<notin> set cp'" "ty = ord IP_MATCH_CODE_OVAL \<Longrightarrow> \<exists>n \<le> 255. oval' = Some n"
proof -
  have "CHR ''N'' \<notin> set cp' \<and> (ty = ord IP_MATCH_CODE_OVAL \<longrightarrow> (\<exists>n \<le> 255. oval' = Some n))"
  proof (cases cp)
    case Nil
    then show ?thesis using assms by (auto simp: ip_match_next_token_def ip_codes)
  next
    case (Cons c s)
    show ?thesis
    proof (cases "ISDIGIT c")
      case True
      obtain v t r where d: "octet_digits s (ord c - 48) (ord IP_MATCH_CODE_OVAL) = (v, t, r)" by (metis prod_cases3)
      have "ord c - 48 \<le> 255" using ord_bound [of c] by linarith
      then have "v \<le> 255 \<or> t = IP_MATCH_CODE_ERR" using octet_digits_range [OF d] by blast
      then show ?thesis using assms Cons True d octet_digits_rest [OF d] by (auto simp: ip_match_next_token_def ip_codes)
    next
      case False
      have "ord c \<noteq> ord IP_MATCH_CODE_OVAL" using assms(2) Cons unfolding of_char_eq_iff by (auto simp: IP_MATCH_CODE_OVAL_def)
      then show ?thesis using assms Cons False by (auto simp: ip_match_next_token_def)
    qed
  qed
  then show "CHR ''N'' \<notin> set cp'" "ty = ord IP_MATCH_CODE_OVAL \<Longrightarrow> \<exists>n \<le> 255. oval' = Some n" by auto
qed

lemma parse_member_sound:
  assumes "CHR ''N'' \<notin> set cp" "n \<le> 255"
  shows "\<exists>res. parse_member pattern cp (Some n) codes = Ok res \<and>
    (\<forall>codes' ty here cp' oval'. res = Inr (codes', ty, here, cp', oval') \<longrightarrow>
      CHR ''N'' \<notin> set cp' \<and> (\<exists>m. member_ok m \<and> codes' = codes @ member_code m))"
proof -
  obtain t1 cp1 o1 where 1: "ip_match_next_token cp (Some n) = (t1, cp1, o1)" by (metis prod_cases3)
  obtain t2 cp2 o2 where 2: "ip_match_next_token cp1 o1 = (t2, cp2, o2)" by (metis prod_cases3)
  obtain t3 cp3 o3 where 3: "ip_match_next_token cp2 o2 = (t3, cp3, o3)" by (metis prod_cases3)
  obtain t4 cp4 o4 where 4: "ip_match_next_token cp3 o3 = (t4, cp4, o4)" by (metis prod_cases3)
  note n1 = next_token_octet(1) [OF 1 assms(1)]
  note n2 = next_token_octet(1) [OF 2 n1]
  note n3 = next_token_octet(1) [OF 3 n2]
  note n4 = next_token_octet(1) [OF 4 n3]
  have "member_ok (Span n (the o3))" if "t3 = ord IP_MATCH_CODE_OVAL" "n \<le> the o3"
    using next_token_octet(2) [OF 3 n2 that(1)] that(2) by auto
  moreover have "member_ok (One n)" using assms(2) by simp
  moreover have "codes @ [IP_MATCH_CODE_OVAL, char_of n] = codes @ member_code (One n)"
    "codes @ [IP_MATCH_CODE_RANGE, char_of n, char_of (the o3)] = codes @ member_code (Span n (the o3))" by simp_all
  ultimately show ?thesis unfolding parse_member_def using 1 2 3 4 n1 n4
    by (simp add: Let_def del: member_ok.simps member_code.simps) blast
qed

lemma parse_sequence_sound:
  assumes "CHR ''N'' \<notin> set cp"
  shows "\<exists>res. parse_sequence pattern cp oval codes = Ok res \<and>
    (\<forall>codes' cp' oval'. res = Inr (codes', cp', oval') \<longrightarrow>
      CHR ''N'' \<notin> set cp' \<and> (\<exists>ms. ms \<noteq> [] \<and> list_all member_ok ms \<and> codes' = codes @ concat (map member_code ms) @ [IP_MATCH_CODE_CLOSE]))"
  using assms
proof (induction pattern cp oval codes rule: parse_sequence.induct)
  case (1 pattern cp oval codes)
  obtain ty cp1 oval1 where tok: "ip_match_next_token cp oval = (ty, cp1, oval1)" by (metis prod_cases3)
  show ?case
  proof (cases "ty = ord IP_MATCH_CODE_OVAL")
    case False
    then show ?thesis using tok by (subst parse_sequence.simps) auto
  next
    case True
    obtain n where n: "n \<le> 255" "oval1 = Some n" using next_token_octet(2) [OF tok "1.prems" True] by blast
    obtain res where res: "parse_member pattern cp1 oval1 codes = Ok res"
      and ok: "\<And>codes' ty here cp' oval'. res = Inr (codes', ty, here, cp', oval') \<Longrightarrow>
        CHR ''N'' \<notin> set cp' \<and> (\<exists>m. member_ok m \<and> codes' = codes @ member_code m)"
      using parse_member_sound [OF next_token_octet(1) [OF tok "1.prems"] n(1), of pattern codes] n(2) by blast
    show ?thesis
    proof (cases res)
      case (Inl e)
      then show ?thesis using tok True res by (subst parse_sequence.simps) auto
    next
      case (Inr r)
      obtain codes1 ty1 here cp2 oval2 where r: "res = Inr (codes1, ty1, here, cp2, oval2)" using Inr by (cases r) auto
      obtain m where m: "CHR ''N'' \<notin> set cp2" "member_ok m" "codes1 = codes @ member_code m" using ok [OF r] by blast
      show ?thesis
      proof (cases "ty1 = ord CHR '';''")
        case True': True
        have step: "parse_sequence pattern cp oval codes = parse_sequence pattern cp2 oval2 codes1"
          using tok True res r True' by (subst parse_sequence.simps) simp
        have "\<not> ty \<noteq> ord IP_MATCH_CODE_OVAL" using True by simp
        note IH = "1.IH" [OF tok [symmetric] refl this res r refl refl refl refl True' m(1)]
        obtain res' where res': "parse_sequence pattern cp2 oval2 codes1 = Ok res'" "\<And>codes' cp' oval'. res' = Inr (codes', cp', oval') \<Longrightarrow>
          CHR ''N'' \<notin> set cp' \<and> (\<exists>ms. ms \<noteq> [] \<and> list_all member_ok ms \<and> codes' = codes1 @ concat (map member_code ms) @ [IP_MATCH_CODE_CLOSE])"
          using IH by blast
        have "CHR ''N'' \<notin> set cp' \<and> (\<exists>ms. ms \<noteq> [] \<and> list_all member_ok ms \<and> codes' = codes @ concat (map member_code ms) @ [IP_MATCH_CODE_CLOSE])"
          if eq: "res' = Inr (codes', cp', oval')" for codes' cp' oval'
        proof -
          obtain ms where "CHR ''N'' \<notin> set cp'" "ms \<noteq> []" "list_all member_ok ms" "codes' = codes1 @ concat (map member_code ms) @ [IP_MATCH_CODE_CLOSE]"
            using res'(2) [OF eq] by blast
          then show ?thesis using m by (intro conjI exI [of _ "m # ms"]) simp_all
        qed
        then show ?thesis unfolding step using res'(1) by blast
      next
        case False
        then show ?thesis using tok True res r m by (subst parse_sequence.simps) (auto intro!: exI [of _ "[m]"])
      qed
    qed
  qed
qed

lemma parse_field_sound:
  assumes "CHR ''N'' \<notin> set cp"
  shows "\<exists>res. parse_field pattern cp oval codes = Ok res \<and>
    (\<forall>codes' cp' oval'. res = Inr (codes', cp', oval') \<longrightarrow> CHR ''N'' \<notin> set cp' \<and> (\<exists>f. field_ok f \<and> codes' = codes @ field_code f))"
proof -
  obtain ty cp1 oval1 where tok: "ip_match_next_token cp oval = (ty, cp1, oval1)" by (metis prod_cases3)
  note n1 = next_token_octet(1) [OF tok assms]
  consider "ty = ord IP_MATCH_CODE_OVAL" | "ty = ord IP_MATCH_CODE_OPEN" | "ty \<noteq> ord IP_MATCH_CODE_OVAL" "ty \<noteq> ord IP_MATCH_CODE_OPEN" by blast
  then show ?thesis
  proof cases
    case 1
    obtain n where n: "n \<le> 255" "oval1 = Some n" using next_token_octet(2) [OF tok assms 1] by blast
    then show ?thesis using tok 1 n n1 by (auto simp: parse_field_def intro!: exI [of _ "Octet n"])
  next
    case 2
    then have eq: "parse_field pattern cp oval codes = parse_sequence pattern cp1 oval1 (codes @ [IP_MATCH_CODE_OPEN])"
      using tok by (simp add: parse_field_def ip_codes)
    obtain res where res: "parse_sequence pattern cp1 oval1 (codes @ [IP_MATCH_CODE_OPEN]) = Ok res"
      "\<And>codes' cp' oval'. res = Inr (codes', cp', oval') \<Longrightarrow> CHR ''N'' \<notin> set cp' \<and>
        (\<exists>ms. ms \<noteq> [] \<and> list_all member_ok ms \<and> codes' = (codes @ [IP_MATCH_CODE_OPEN]) @ concat (map member_code ms) @ [IP_MATCH_CODE_CLOSE])"
      using parse_sequence_sound [OF n1] by metis
    have "CHR ''N'' \<notin> set cp' \<and> (\<exists>f. field_ok f \<and> codes' = codes @ field_code f)" if r: "res = Inr (codes', cp', oval')" for codes' cp' oval'
    proof -
      obtain ms where "CHR ''N'' \<notin> set cp'" "ms \<noteq> []" "list_all member_ok ms"
        "codes' = (codes @ [IP_MATCH_CODE_OPEN]) @ concat (map member_code ms) @ [IP_MATCH_CODE_CLOSE]" using res(2) [OF r] by blast
      then show ?thesis by (intro conjI exI [of _ "Members ms"]) simp_all
    qed
    then show ?thesis unfolding eq using res(1) by blast
  qed (use tok in \<open>simp add: parse_field_def\<close>)
qed

lemma parse_fields_sound:
  assumes "CHR ''N'' \<notin> set cp" "k < 4"
  shows "\<exists>res. parse_fields pattern cp oval codes k = Ok res \<and>
    (\<forall>codes'. res = Inr codes' \<longrightarrow> (\<exists>fs. list_all field_ok fs \<and> k + length fs = 4 \<and> codes' = codes @ concat (map field_code fs) @ [NUL]))"
  using assms
proof (induction "4 - k" arbitrary: cp oval codes k)
  case (Suc d)
  obtain res where res: "parse_field pattern cp oval codes = Ok res"
    "\<And>codes' cp' oval'. res = Inr (codes', cp', oval') \<Longrightarrow> CHR ''N'' \<notin> set cp' \<and> (\<exists>f. field_ok f \<and> codes' = codes @ field_code f)"
    using parse_field_sound [OF Suc.prems(1)] by metis
  show ?case
  proof (cases res)
    case (Inl e)
    then show ?thesis using res(1) by (subst parse_fields.simps) simp
  next
    case (Inr r)
    obtain codes1 cp1 oval1 where r: "res = Inr (codes1, cp1, oval1)" using Inr by (cases r) auto
    obtain f where f: "CHR ''N'' \<notin> set cp1" "field_ok f" "codes1 = codes @ field_code f" using res(2) [OF r] by blast
    obtain ty cp2 oval2 where tok: "ip_match_next_token cp1 oval1 = (ty, cp2, oval2)" by (metis prod_cases3)
    note step = parse_fields.simps [of pattern cp oval codes k, unfolded res(1) r obind.simps sum.case prod.case tok]
    show ?thesis
    proof (cases "k + 1 = 4")
      case True
      then show ?thesis unfolding step using f by (auto intro!: exI [of _ "[f]"])
    next
      case False
      show ?thesis
      proof (cases "ty = ord CHR ''.''")
        case True
        have eq: "parse_fields pattern cp oval codes k = parse_fields pattern cp2 oval2 codes1 (k + 1)" unfolding step using False True by simp
        have "d = 4 - (k + 1)" "k + 1 < 4" using Suc.hyps(2) Suc.prems(2) False by auto
        from Suc.hyps(1) [OF this(1) next_token_octet(1) [OF tok f(1)] this(2), of oval2 codes1] obtain res' where
          res': "parse_fields pattern cp2 oval2 codes1 (k + 1) = Ok res'"
          "\<And>codes'. res' = Inr codes' \<Longrightarrow> \<exists>fs. list_all field_ok fs \<and> k + 1 + length fs = 4 \<and> codes' = codes1 @ concat (map field_code fs) @ [NUL]" by blast
        have "\<exists>fs. list_all field_ok fs \<and> k + length fs = 4 \<and> codes' = codes @ concat (map field_code fs) @ [NUL]" if c: "res' = Inr codes'" for codes'
        proof -
          obtain fs where "list_all field_ok fs" "k + 1 + length fs = 4" "codes' = codes1 @ concat (map field_code fs) @ [NUL]" using res'(2) [OF c] by blast
          then show ?thesis using f by (intro exI [of _ "f # fs"]) simp
        qed
        then show ?thesis unfolding eq using res'(1) by blast
      qed (use step False in simp)
    qed
  qed
qed simp

lemma terminator_before: "set (fst (FIND_TERMINATOR cp l)) \<subseteq> set cp"
proof (induction cp arbitrary: l)
  case (Cons c cp)
  have "set (fst (FIND_TERMINATOR cp l')) \<subseteq> insert c (set cp)" for l' using Cons.IH [of l'] by blast
  then show ?case by (auto simp: Let_def)
qed simp

lemma parse_sound:
  assumes "CHR ''N'' \<notin> set pattern"
  shows "\<exists>res. ip_match_parse pattern = Ok res \<and> (\<forall>codes. res = Inr codes \<longrightarrow> (\<exists>fs. pattern_ok fs \<and> codes = pattern_code fs))"
proof -
  have run: "\<exists>res. parse_fields p cp None [AF_INET] 0 = Ok res \<and> (\<forall>codes. res = Inr codes \<longrightarrow> (\<exists>fs. pattern_ok fs \<and> codes = pattern_code fs))"
    if "CHR ''N'' \<notin> set cp" for p cp
    using parse_fields_sound [OF that, of 0 p None "[AF_INET]"] by (auto simp: pattern_ok_def pattern_code_def)
  obtain before cp where t: "FIND_TERMINATOR pattern 0 = (before, cp)" by fastforce
  have "set (tl before) \<subseteq> set pattern" using terminator_before [of pattern 0] t by (cases before) auto
  then have "CHR ''N'' \<notin> set (tl before)" using assms by blast
  then show ?thesis using run [of "tl before"] run [of pattern] assms unfolding ip_match_parse_def t by (simp add: Let_def)
qed

section \<open>The properties\<close>

text \<open>
  C4: The text of any address pattern, also in brackets, is compiled to its byte codes; running them
  on an address of at least four bytes says whether every field of the pattern matches its octet; and
  printing them gives the text of the pattern back.
\<close>

theorem ip_match_compiles:
  assumes "pattern_ok fs"
  shows "ip_match_parse (pattern_text fs) = Ok (Inr (pattern_code fs)) \<and>
    ip_match_parse (''['' @ pattern_text fs @ '']'') = Ok (Inr (pattern_code fs)) \<and>
    (4 \<le> length addr \<longrightarrow> ip_match_execute (pattern_code fs) addr = Ok (list_all2 field_matches fs (take 4 addr))) \<and>
    ip_match_dump (pattern_code fs) = Ok (pattern_text fs)"
proof -
  have fs: "list_all field_ok fs" "length fs = 4" using assms by (auto simp: pattern_ok_def)
  have "exec_fields (pattern_code fs) 4 addr (concat (map field_code fs) @ [NUL]) = Ok (list_all2 field_matches fs (take 4 addr))" if "4 \<le> length addr"
    using exec_fields_ok [OF fs(1), of addr "pattern_code fs" "[NUL]"] fs(2) that by simp
  moreover have "dump_fields 3 [] (concat (map field_code fs) @ [NUL]) = Ok (pattern_text fs)"
    using dump_fields_ok [OF fs(1), of 3 "[]"] fs(2) by (simp add: pattern_text_def)
  ultimately show ?thesis using parse_text [OF assms]
    by (simp add: ip_match_execute_def ip_match_dump_def pattern_code_def del: dump_fields.simps)
qed

theorem ip_match_compiles_witness:
  "ip_match_parse (pattern_text [Octet 10, Members [One 1, Span 2 9], Octet 0, Octet 255]) =
     Ok (Inr (pattern_code [Octet 10, Members [One 1, Span 2 9], Octet 0, Octet 255])) \<and>
   ip_match_execute (pattern_code [Octet 10, Members [One 1, Span 2 9], Octet 0, Octet 255]) (map char_of [10, 5, 0, 255 :: nat]) = Ok True"
  using ip_match_compiles [of "[Octet 10, Members [One 1, Span 2 9], Octet 0, Octet 255]" "map char_of [10, 5, 0, 255 :: nat]"]
  by (simp add: pattern_ok_def)

text \<open>
  C11: On any text without the letter \<open>N\<close> the parser returns an error text or byte codes, and byte codes
  it returns are those of a pattern of four well-formed fields, so that the engine and the printer run
  them without a panic and without reading behind their end.
\<close>

theorem ip_match_accepts_patterns:
  assumes "CHR ''N'' \<notin> set pattern"
  shows "returns (ip_match_parse pattern) (\<lambda>res. \<forall>codes. res = Inr codes \<longrightarrow>
    (\<exists>fs. pattern_ok fs \<and> codes = pattern_code fs) \<and>
    (\<forall>addr. 4 \<le> length addr \<longrightarrow> returns (ip_match_execute codes addr) (\<lambda>_. True)) \<and>
    returns (ip_match_dump codes) (\<lambda>out. ip_match_parse out = Ok (Inr codes)))"
proof -
  obtain res where res: "ip_match_parse pattern = Ok res" "\<And>codes. res = Inr codes \<Longrightarrow> \<exists>fs. pattern_ok fs \<and> codes = pattern_code fs"
    using parse_sound [OF assms] by blast
  have "returns (ip_match_execute (pattern_code fs) addr) (\<lambda>_. True)" if "pattern_ok fs" "4 \<le> length addr" for fs addr
    using exec_fields_ok [of fs addr "pattern_code fs" "[NUL]"] that by (simp add: ip_match_execute_def pattern_code_def pattern_ok_def)
  moreover have "returns (ip_match_dump (pattern_code fs)) (\<lambda>out. ip_match_parse out = Ok (Inr (pattern_code fs)))" if "pattern_ok fs" for fs
    using dump_fields_ok [of fs 3 "[]"] parse_text(1) [OF that] that
    by (simp add: ip_match_dump_def pattern_code_def pattern_ok_def pattern_text_def del: dump_fields.simps)
  ultimately show ?thesis using res by (auto simp: returns_def)
qed

theorem ip_match_accepts_patterns_witness:
  "returns (ip_match_parse ''1.2.[3;5..7].4'') (\<lambda>res. \<forall>codes. res = Inr codes \<longrightarrow>
    (\<forall>addr. 4 \<le> length addr \<longrightarrow> returns (ip_match_execute codes addr) (\<lambda>_. True)))"
  by (rule returns_mono [OF ip_match_accepts_patterns]) auto

text \<open>
  C40: The tokenizer uses the letter \<open>N\<close> as the code for a number and returns other characters as they
  are. So the parser accepts the letter in place of any field but the first, in every pattern, and takes it for
  the last number it has read: the second field of \<open>1.N.[3;5..7].N\<close> is 1 and the last one is 7. A text that begins
  with the letter makes the parser use a variable that has no value yet, whatever follows.
\<close>

theorem ip_match_letter_is_number:
  assumes "field_ok f" "lettered_ok gs" "length gs = 3"
  shows "ip_match_parse (lettered_text (Some f # gs)) = Ok (Inr (pattern_code (f # taken_for (field_last f) gs))) \<and>
    ip_match_parse (CHR ''N'' # rest) = Fault"
proof
  have gs: "gs \<noteq> []" "lettered_ok (Some f # gs)" using assms by (auto simp: lettered_ok_def)
  have start: "lettered_text (Some f # gs) = field_text f @ CHR ''.'' # lettered_text gs" using lettered_Cons [OF gs(1), of "Some f"] by simp
  show "ip_match_parse (lettered_text (Some f # gs)) = Ok (Inr (pattern_code (f # taken_for (field_last f) gs)))"
    using parse_fields_lettered [OF _ gs(2), of None 0 0] unbracketed_text [OF assms(1)] assms(3) unfolding start
    by (simp add: pattern_code_def)
  show "ip_match_parse (CHR ''N'' # rest) = Fault"
    by (simp add: ip_match_parse_def parse_fields.simps [of _ "CHR ''N'' # rest"] parse_field_def next_token_char IP_MATCH_CODE_OVAL_def split: prod.split)
qed

theorem ip_match_letter_is_number_witness:
  "ip_match_parse ''1.N.[3;5..7].N'' = Ok (Inr (pattern_code [Octet 1, Octet 1, Members [One 3, Span 5 7], Octet 7])) \<and>
   ip_match_parse ''N.2.3.4'' = Fault"
proof -
  have "lettered_text [Some (Octet 1), None, Some (Members [One 3, Span 5 7]), None] = ''1.N.[3;5..7].N''" by code_simp
  then show ?thesis using ip_match_letter_is_number [of "Octet 1" "[None, Some (Members [One 3, Span 5 7]), None]" "''.2.3.4''"]
    by (simp add: lettered_ok_def)
qed

end
