(* ===== verification/Mac_parse.thy ===== *)
theory Mac_parse
  imports Stringops
begin

text \<open>
  Names for codes (\<open>src/util/name_code.c\<close>) and the macro parser \<open>src/util/mac_parse.c\<close>, which cuts
  a text into literal text and macro references and hands the parts to a call-back.
\<close>

section \<open>Names and codes\<close>

text \<open>A table of names ends with a null name, whose code is the default. The loop reads past a table without one.\<close>

type_synonym name_code_table = "(string option \<times> nat) list"

definition NAME_CODE_FLAG_STRICT_CASE :: nat where
  "NAME_CODE_FLAG_STRICT_CASE = 1"

fun name_code_from :: "(string \<Rightarrow> string \<Rightarrow> int) \<Rightarrow> name_code_table \<Rightarrow> string \<Rightarrow> nat outcome" where
  "name_code_from lookup [] name = Fault"
| "name_code_from lookup ((None, code) # np) name = Ok code"
| "name_code_from lookup ((Some n, code) # np) name =
     (if lookup name n = 0 then Ok code else name_code_from lookup np name)"

definition name_code :: "name_code_table \<Rightarrow> nat \<Rightarrow> string \<Rightarrow> nat outcome" where
  "name_code table flags name =
     name_code_from (if flags AND NAME_CODE_FLAG_STRICT_CASE \<noteq> 0 then strcmp else strcasecmp) table name"

fun str_name_code :: "name_code_table \<Rightarrow> nat \<Rightarrow> string option outcome" where
  "str_name_code [] code = Fault"
| "str_name_code ((None, c) # np) code = Ok None"
| "str_name_code ((Some n, c) # np) code = (if code = c then Ok (Some n) else str_name_code np code)"

section \<open>The parser\<close>

datatype mac_type = MAC_PARSE_LITERAL | MAC_PARSE_EXPR

definition MAC_PARSE_ERROR :: nat where "MAC_PARSE_ERROR = 1"
definition MAC_PARSE_UNDEF :: nat where "MAC_PARSE_UNDEF = 2"

text \<open>The call-back works on a state of its own and returns a status, a set of bits.\<close>

type_synonym 's mac_action = "mac_type \<Rightarrow> string \<Rightarrow> 's \<Rightarrow> (nat \<times> 's) outcome"

definition MAC_PARSE_ACTION :: "'s mac_action \<Rightarrow> nat \<Rightarrow> mac_type \<Rightarrow> string \<Rightarrow> 's \<Rightarrow> (nat \<times> 's) outcome" where
  "MAC_PARSE_ACTION action status type buf s = obind (action type buf s) (\<lambda>(r, s). Ok (status OR r, s))"

definition flush_literal :: "'s mac_action \<Rightarrow> nat \<Rightarrow> string \<Rightarrow> 's \<Rightarrow> (nat \<times> 's) outcome" where
  "flush_literal action status buf s =
     (if buf \<noteq> [] then MAC_PARSE_ACTION action status MAC_PARSE_LITERAL buf s else Ok (status, s))"

text \<open>The text up to the parenthesis that closes the reference, and what follows; none if it is truncated.\<close>

fun close_scan :: "char \<Rightarrow> char \<Rightarrow> nat \<Rightarrow> string \<Rightarrow> (string \<times> string) option" where
  "close_scan p q level [] = None"
| "close_scan p q level (c # ep) =
     (let level = (if c = p then level + 1 else level);
          level = (if c = q then level - 1 else level)
      in if level = 0 then Some ([], ep)
         else map_option (\<lambda>(name, vp). (c # name, vp)) (close_scan p q level ep))"

definition attr_char :: "char \<Rightarrow> bool" where
  "attr_char c \<longleftrightarrow> ISALNUM c \<or> c = CHR ''_''"

text \<open>The reference behind a dollar sign: whether it is in parentheses, its text, and the rest.\<close>

definition mac_reference :: "string \<Rightarrow> (bool \<times> string \<times> string) option" where
  "mac_reference vp =
     (if vp \<noteq> [] \<and> hd vp = CHR ''('' then map_option (Pair True) (close_scan CHR ''('' CHR '')'' 1 (tl vp))
      else if vp \<noteq> [] \<and> hd vp = CHR ''{'' then map_option (Pair True) (close_scan CHR ''{'' CHR ''}'' 1 (tl vp))
      else Some (False, takeWhile attr_char vp, dropWhile attr_char vp))"

lemma close_scan_length: "close_scan p q level s = Some (name, vp) \<Longrightarrow> length name + length vp + 1 = length s"
  by (induction p q level s arbitrary: name vp rule: close_scan.induct) (auto simp: Let_def split: if_splits)

lemma mac_reference_length: "mac_reference vp = Some (paren, name, rest) \<Longrightarrow> length name + length rest \<le> length vp"
proof -
  assume r: "mac_reference vp = Some (paren, name, rest)"
  have "length vp = length (takeWhile attr_char vp) + length (dropWhile attr_char vp)"
    by (metis length_append takeWhile_dropWhile_id)
  with r show ?thesis
    by (auto simp: mac_reference_def dest!: close_scan_length split: if_splits)
qed

function mac_parse_loop :: "'s mac_action \<Rightarrow> string \<Rightarrow> string \<Rightarrow> nat \<Rightarrow> 's \<Rightarrow> (nat \<times> string \<times> 's) outcome" where
  "mac_parse_loop action [] buf status s = Ok (status, buf, s)"
| "mac_parse_loop action (c # vp) buf status s =
     (if c \<noteq> CHR ''$'' then mac_parse_loop action vp (buf @ [c]) status s
      else if vp \<noteq> [] \<and> hd vp = CHR ''$'' then mac_parse_loop action (tl vp) (buf @ [c]) status s
      else obind (flush_literal action status buf s) (\<lambda>(status, s).
        case mac_reference vp of
          None \<Rightarrow> Ok (status OR MAC_PARSE_ERROR, [], s)
        | Some (paren, name, rest) \<Rightarrow>
            if paren \<and> status AND MAC_PARSE_ERROR \<noteq> 0 then Ok (status, [], s)
            else if name = [] then Ok (status OR MAC_PARSE_ERROR, [], s)
            else obind (MAC_PARSE_ACTION action status MAC_PARSE_EXPR name s) (\<lambda>(status, s).
              mac_parse_loop action rest [] status s)))"
  by pat_completeness auto
termination
  by (relation "measure (\<lambda>(_, vp, _). length vp)") (auto dest: mac_reference_length)

definition mac_parse :: "'s mac_action \<Rightarrow> string \<Rightarrow> 's \<Rightarrow> (nat \<times> 's) outcome" where
  "mac_parse action val s =
     obind (mac_parse_loop action val [] 0 s) (\<lambda>(status, buf, s).
       if buf \<noteq> [] \<and> status AND MAC_PARSE_ERROR = 0
       then MAC_PARSE_ACTION action status MAC_PARSE_LITERAL buf s
       else Ok (status, s))"

section \<open>Rules for call-backs\<close>

lemma error_bit [simp]: "status AND MAC_PARSE_ERROR = 0 \<longleftrightarrow> even status"
  by (simp add: MAC_PARSE_ERROR_def and_one_eq parity_cases) (metis mod_0_imp_dvd even_iff_mod_2_eq_zero)

lemma even_or [simp]: "even (a OR (b::nat)) \<longleftrightarrow> even a \<and> even b"
  by (simp add: even_or_iff)

lemma odd_ERROR [simp]: "odd MAC_PARSE_ERROR" and even_UNDEF [simp]: "even MAC_PARSE_UNDEF"
  by (simp_all add: MAC_PARSE_ERROR_def MAC_PARSE_UNDEF_def)

text \<open>
  A call-back that keeps an invariant of its state, and returns or ends the program on every part it can
  be given, makes the parser return or end the program and keep the invariant.
\<close>

lemma close_scan_split: "0 < level \<Longrightarrow> close_scan p q level s = Some (name, vp) \<Longrightarrow> s = name @ q # vp"
  by (induction p q level s arbitrary: name vp rule: close_scan.induct) (auto simp: Let_def split: if_splits)

lemma mac_reference_set: "mac_reference vp = Some (paren, name, rest) \<Longrightarrow> set name \<subseteq> set vp \<and> set rest \<subseteq> set vp"
  by (cases vp) (auto simp: mac_reference_def dest!: close_scan_split [rotated] dest: set_takeWhileD set_dropWhileD split: if_splits)

lemma mac_parse_stops:
  assumes "I s"
    and part: "\<And>type t s. I s \<Longrightarrow> t \<noteq> [] \<Longrightarrow> set t \<subseteq> set val \<Longrightarrow>
      (if type = MAC_PARSE_EXPR then length t < length val else length t \<le> length val) \<Longrightarrow>
      stops (action type t s) (\<lambda>(r, s). I s)"
  shows "stops (mac_parse action val s) (\<lambda>(r, s). I s)"
proof -
  have act: "stops (MAC_PARSE_ACTION action status type t s) (\<lambda>(r, s). I s)"
    if "I s" "t \<noteq> []" "set t \<subseteq> set val" "if type = MAC_PARSE_EXPR then length t < length val else length t \<le> length val"
    for status type t s
    using part [OF that] by (auto simp: MAC_PARSE_ACTION_def intro: stops_bind)
  have loop: "stops (mac_parse_loop action vp buf status s)
      (\<lambda>(_, buf, s). I s \<and> set buf \<subseteq> set val \<and> length buf \<le> length val)"
    if "I s" "set buf \<union> set vp \<subseteq> set val" "length buf + length vp \<le> length val" for vp buf status s
    using that
  proof (induction "length vp" arbitrary: vp buf status s rule: less_induct)
    case (less vp)
    show ?case
    proof (cases vp)
      case (Cons c v)
      have next_char: "stops (mac_parse_loop action w (buf @ [c]) status s)
          (\<lambda>(_, buf, s). I s \<and> set buf \<subseteq> set val \<and> length buf \<le> length val)"
        if "w = v \<or> v \<noteq> [] \<and> w = tl v" for w
        using less.hyps [of w s "buf @ [c]" status] less.prems that Cons by (cases v) auto
      have lit: "stops (flush_literal action status buf s) (\<lambda>(r, s). I s)"
        using act [of s buf MAC_PARSE_LITERAL status] less.prems by (simp add: flush_literal_def)
      have ref: "stops (case mac_reference v of
          None \<Rightarrow> Ok (st OR MAC_PARSE_ERROR, [], s1)
        | Some (paren, name, rest) \<Rightarrow>
            if paren \<and> st AND MAC_PARSE_ERROR \<noteq> 0 then Ok (st, [], s1)
            else if name = [] then Ok (st OR MAC_PARSE_ERROR, [], s1)
            else obind (MAC_PARSE_ACTION action st MAC_PARSE_EXPR name s1) (\<lambda>(st, s1).
              mac_parse_loop action rest [] st s1)) (\<lambda>(_, buf, s). I s \<and> set buf \<subseteq> set val \<and> length buf \<le> length val)"
        if "I s1" for st s1
      proof (cases "mac_reference v")
        case (Some r)
        then obtain paren name rest where r: "mac_reference v = Some (paren, name, rest)" by (cases r) auto
        have "name \<noteq> [] \<Longrightarrow> stops (obind (MAC_PARSE_ACTION action st MAC_PARSE_EXPR name s1) (\<lambda>(st, s1).
              mac_parse_loop action rest [] st s1)) (\<lambda>(_, buf, s). I s \<and> set buf \<subseteq> set val \<and> length buf \<le> length val)"
          using mac_reference_length [OF r] mac_reference_set [OF r] less.prems Cons that
          by (intro stops_bind [OF act]) (auto intro!: less.hyps)
        with r that show ?thesis by simp
      qed (use that in simp)
      show ?thesis
      proof (cases "c \<noteq> CHR ''$'' \<or> v \<noteq> [] \<and> hd v = CHR ''$''")
        case False
        then show ?thesis
          unfolding Cons by (auto simp: ref mac_reference_def [of "[]"] intro!: stops_bind [OF lit])
      qed (use Cons next_char in auto)
    qed (use less.prems in auto)
  qed
  show ?thesis
    unfolding mac_parse_def
    by (rule stops_bind [OF loop]) (use assms(1) act in auto)
qed

text \<open>A call-back that is replaced by one that agrees wherever the first returns leaves the result of the parser as it is.\<close>

lemma mac_parse_extends:
  assumes "\<And>type t s. extends (a type t s) (b type t s)"
  shows "extends (mac_parse a val s) (mac_parse b val s)"
proof -
  have act: "extends (MAC_PARSE_ACTION a st type t s) (MAC_PARSE_ACTION b st type t s)" for st type t s
    unfolding MAC_PARSE_ACTION_def by (rule extends_bind [OF assms]) simp
  have "extends (mac_parse_loop a vp buf status s) (mac_parse_loop b vp buf status s)" for vp buf status s
  proof (induction "length vp" arbitrary: vp buf status s rule: less_induct)
    case (less vp)
    show ?case
    proof (cases vp)
      case (Cons c v)
      show ?thesis
        unfolding Cons mac_parse_loop.simps
        using Cons
        by (fastforce simp: flush_literal_def intro!: extends_bind act less.hyps split: option.split dest: mac_reference_length)
    qed simp
  qed
  then show ?thesis
    unfolding mac_parse_def by (rule extends_bind) (auto intro: act)
qed

section \<open>Texts and their parts\<close>

text \<open>What a text consists of: plain text, in which a dollar sign is doubled, and the three forms of references.\<close>

datatype piece = Plain string | Named string | Paren string | Brace string

definition dollars :: "string \<Rightarrow> string" where
  "dollars s = concat (map (\<lambda>c. if c = CHR ''$'' then ''$$'' else [c]) s)"

fun piece_text :: "piece \<Rightarrow> string" where
  "piece_text (Plain s) = dollars s"
| "piece_text (Named n) = ''$'' @ n"
| "piece_text (Paren r) = ''$('' @ r @ '')''"
| "piece_text (Brace r) = ''${'' @ r @ ''}''"

fun piece_part :: "piece \<Rightarrow> mac_type \<times> string" where
  "piece_part (Plain s) = (MAC_PARSE_LITERAL, s)"
| "piece_part (Named n) = (MAC_PARSE_EXPR, n)"
| "piece_part (Paren r) = (MAC_PARSE_EXPR, r)"
| "piece_part (Brace r) = (MAC_PARSE_EXPR, r)"

text \<open>Every closing parenthesis matches one opened before, beyond the \<open>level\<close> open ones, which are all closed.\<close>

fun nested :: "char \<Rightarrow> char \<Rightarrow> nat \<Rightarrow> string \<Rightarrow> bool" where
  "nested p q level [] \<longleftrightarrow> level = 0"
| "nested p q level (c # s) \<longleftrightarrow>
     (if c = p then nested p q (level + 1) s else if c = q then level > 0 \<and> nested p q (level - 1) s else nested p q level s)"

text \<open>
  Plain texts are not empty and not adjacent, a name ends where its piece ends, and the text of a
  reference in parentheses has them in pairs.
\<close>

fun pieces_ok :: "piece list \<Rightarrow> bool" where
  "pieces_ok [] \<longleftrightarrow> True"
| "pieces_ok (Plain s # ps) \<longleftrightarrow> s \<noteq> [] \<and> (case ps of Plain _ # _ \<Rightarrow> False | _ \<Rightarrow> True) \<and> pieces_ok ps"
| "pieces_ok (Named n # ps) \<longleftrightarrow>
     n \<noteq> [] \<and> list_all attr_char n \<and> (case ps of Plain s # _ \<Rightarrow> \<not> attr_char (hd s) | _ \<Rightarrow> True) \<and> pieces_ok ps"
| "pieces_ok (Paren r # ps) \<longleftrightarrow> r \<noteq> [] \<and> nested CHR ''('' CHR '')'' 0 r \<and> pieces_ok ps"
| "pieces_ok (Brace r # ps) \<longleftrightarrow> r \<noteq> [] \<and> nested CHR ''{'' CHR ''}'' 0 r \<and> pieces_ok ps"

definition pieces_text :: "piece list \<Rightarrow> string" where
  "pieces_text ps = concat (map piece_text ps)"

fun run_parts :: "'s mac_action \<Rightarrow> (mac_type \<times> string) list \<Rightarrow> nat \<Rightarrow> 's \<Rightarrow> (nat \<times> 's) outcome" where
  "run_parts action [] status s = Ok (status, s)"
| "run_parts action ((type, t) # ps) status s =
     obind (MAC_PARSE_ACTION action status type t s) (\<lambda>(status, s). run_parts action ps status s)"

lemma dollars_simps [simp]: "dollars [] = []" "dollars (c # s) = (if c = CHR ''$'' then ''$$'' else [c]) @ dollars s"
  "dollars (s @ t) = dollars s @ dollars t"
  by (simp_all add: dollars_def)

lemma pieces_text_simps [simp]: "pieces_text [] = []" "pieces_text (p # ps) = piece_text p @ pieces_text ps"
  by (simp_all add: pieces_text_def)

lemma attr_char_special [simp]:
  "\<not> attr_char CHR ''$''" "\<not> attr_char CHR ''(''" "\<not> attr_char CHR ''{''" "\<not> attr_char CHR ''}''"
  "\<not> attr_char CHR ''?''" "\<not> attr_char CHR '':''"
  by (simp_all add: attr_char_def ctype_defs)

lemma close_scan_nested: "p \<noteq> q \<Longrightarrow> nested p q level r \<Longrightarrow> close_scan p q (Suc level) (r @ q # rest) = Some (r, rest)"
  by (induction p q level r rule: nested.induct) (auto simp: Let_def split: if_splits)

lemma nested_close_scan: "p \<noteq> q \<Longrightarrow> close_scan p q (Suc level) s = Some (r, rest) \<Longrightarrow> nested p q level r"
proof (induction s arbitrary: level r)
  case (Cons c s)
  show ?case
  proof (cases "c = q")
    case True
    with Cons show ?thesis by (cases level) (auto split: if_splits)
  qed (use Cons in \<open>auto simp: Let_def split: if_splits\<close>)
qed simp

lemma name_ends:
  assumes "pieces_ok (Named n # ps)"
  shows "takeWhile attr_char (n @ pieces_text ps) = n" "dropWhile attr_char (n @ pieces_text ps) = pieces_text ps"
proof -
  have "pieces_text ps = [] \<or> \<not> attr_char (hd (pieces_text ps))"
  proof (cases ps)
    case (Cons p ps')
    with assms show ?thesis by (cases p; cases "case p of Plain s \<Rightarrow> s | _ \<Rightarrow> []") auto
  qed simp
  then show "takeWhile attr_char (n @ pieces_text ps) = n" "dropWhile attr_char (n @ pieces_text ps) = pieces_text ps"
    using assms by (simp_all add: takeWhile_app dropWhile_app)
qed

text \<open>A reference at the head of the pieces is what the parser reads behind the dollar sign.\<close>

lemma mac_reference_piece:
  assumes "pieces_ok (p # ps)" "\<And>s. p \<noteq> Plain s"
  obtains paren v where "piece_text p @ pieces_text ps = CHR ''$'' # v" "v \<noteq> []" "hd v \<noteq> CHR ''$''"
    "mac_reference v = Some (paren, snd (piece_part p), pieces_text ps)" "fst (piece_part p) = MAC_PARSE_EXPR" "snd (piece_part p) \<noteq> []"
proof -
  have "\<exists>paren v. piece_text p @ pieces_text ps = CHR ''$'' # v \<and> v \<noteq> [] \<and> hd v \<noteq> CHR ''$'' \<and>
    mac_reference v = Some (paren, snd (piece_part p), pieces_text ps) \<and> fst (piece_part p) = MAC_PARSE_EXPR \<and> snd (piece_part p) \<noteq> []"
  proof (cases p)
    case (Named n)
    then obtain c cs where n: "n = c # cs" "attr_char c" using assms by (cases n) auto
    then have "c \<noteq> CHR ''$''" "c \<noteq> CHR ''(''" "c \<noteq> CHR ''{''" by auto
    with n Named name_ends [of n ps] assms(1) show ?thesis by (auto simp: mac_reference_def)
  next
    case (Paren r)
    then show ?thesis using assms(1) close_scan_nested [of "CHR ''(''" "CHR '')''" 0 r "pieces_text ps"]
      by (auto simp: mac_reference_def)
  next
    case (Brace r)
    then show ?thesis using assms(1) close_scan_nested [of "CHR ''{''" "CHR ''}''" 0 r "pieces_text ps"]
      by (auto simp: mac_reference_def)
  qed (use assms in simp)
  then show thesis using that by blast
qed

lemma loop_plain: "mac_parse_loop action (dollars t @ rest) buf status s = mac_parse_loop action rest (buf @ t) status s"
  by (induction t arbitrary: buf) auto

definition finish :: "'s mac_action \<Rightarrow> nat \<times> string \<times> 's \<Rightarrow> (nat \<times> 's) outcome" where
  "finish action = (\<lambda>(status, buf, s). if even status then flush_literal action status buf s else Ok (status, s))"

lemma mac_parse_finish: "mac_parse action val s = obind (mac_parse_loop action val [] 0 s) (finish action)"
  unfolding mac_parse_def finish_def flush_literal_def by (rule arg_cong [where f = "obind _"]) auto

lemma loop_flush:
  assumes "pieces_ok (p # ps)" "\<And>s. p \<noteq> Plain s"
  shows "mac_parse_loop action (pieces_text (p # ps)) buf status s =
    obind (flush_literal action status buf s) (\<lambda>(status, s). mac_parse_loop action (pieces_text (p # ps)) [] status s)"
proof -
  obtain v where v: "pieces_text (p # ps) = CHR ''$'' # v" "v \<noteq> []" "hd v \<noteq> CHR ''$''"
    using mac_reference_piece [OF assms] by (metis pieces_text_simps(2))
  show ?thesis unfolding v(1) using v(2,3) by (simp add: flush_literal_def [of _ _ "[]"])
qed

lemma loop_reference:
  assumes "pieces_ok (p # ps)" "\<And>s. p \<noteq> Plain s" "even status"
  shows "mac_parse_loop action (pieces_text (p # ps)) [] status s =
    obind (MAC_PARSE_ACTION action status MAC_PARSE_EXPR (snd (piece_part p)) s) (\<lambda>(status, s).
      mac_parse_loop action (pieces_text ps) [] status s)"
proof -
  obtain paren v where v: "piece_text p @ pieces_text ps = CHR ''$'' # v" "v \<noteq> []" "hd v \<noteq> CHR ''$''"
    "mac_reference v = Some (paren, snd (piece_part p), pieces_text ps)" "snd (piece_part p) \<noteq> []"
    by (rule mac_reference_piece [OF assms(1,2)]) blast
  then show ?thesis using assms(3) by (simp add: flush_literal_def)
qed

text \<open>
  The parser hands out the parts of a text in order, if the call-back reports no error: a status with
  the error bit makes it stop early.
\<close>

lemma mac_parse_pieces:
  assumes "pieces_ok ps" "I s"
    and part: "\<And>type t s r s'. I s \<Longrightarrow> (type, t) \<in> set (map piece_part ps) \<Longrightarrow> action type t s = Ok (r, s') \<Longrightarrow> even r \<and> I s'"
  shows "mac_parse action (pieces_text ps) s = run_parts action (map piece_part ps) 0 s"
proof -
  have act: "even st' \<and> I s'" if "MAC_PARSE_ACTION action st type t s = Ok (st', s')" "I s" "even st" "(type, t) \<in> set (map piece_part ps)"
    for st st' type t s s'
    using that part [of s type t] by (auto simp: MAC_PARSE_ACTION_def)
  have "obind (mac_parse_loop action (pieces_text qs) [] status s) (finish action) = run_parts action (map piece_part qs) status s"
    if "pieces_ok qs" "set qs \<subseteq> set ps" "even status" "I s" for qs status s
    using that
  proof (induction qs arbitrary: status s)
    case (Cons p qs)
    have in_ps: "piece_part p \<in> set (map piece_part ps)" and sub: "set qs \<subseteq> set ps" using Cons.prems(2) by simp_all
    have ok: "pieces_ok qs" using Cons.prems(1) by (cases p) simp_all
    have rest: "obind (MAC_PARSE_ACTION action status type t s) (\<lambda>(status, s). obind (mac_parse_loop action (pieces_text qs) [] status s) (finish action))
        = obind (MAC_PARSE_ACTION action status type t s) (\<lambda>(status, s). run_parts action (map piece_part qs) status s)"
      if "piece_part p = (type, t)" for type t
    proof (rule obind_cong [OF refl], clarify)
      fix status' s' assume "MAC_PARSE_ACTION action status type t s = Ok (status', s')"
      from act [OF this Cons.prems(4,3)] in_ps that have "even status'" "I s'" by simp_all
      then show "obind (mac_parse_loop action (pieces_text qs) [] status' s') (finish action) = run_parts action (map piece_part qs) status' s'"
        by (rule Cons.IH [OF ok sub])
    qed
    show ?case
    proof (cases "\<exists>t. p = Plain t")
      case True
      then obtain t where t: "p = Plain t" by blast
      have "t \<noteq> []" using Cons.prems(1) t by simp
      have "obind (mac_parse_loop action (pieces_text qs) t status s) (finish action) =
          obind (flush_literal action status t s) (\<lambda>(status, s). obind (mac_parse_loop action (pieces_text qs) [] status s) (finish action))"
      proof (cases qs)
        case Nil
        have "finish action (status, t, s) = flush_literal action status t s" "finish action (status', [], s') = Ok (status', s')" for status' s'
          using Cons.prems(3) by (simp_all add: finish_def flush_literal_def)
        with Nil show ?thesis by (simp add: case_prod_eta)
      next
        case (Cons q qs')
        moreover have "q \<noteq> Plain u" for u using \<open>pieces_ok (p # qs)\<close> t Cons by (cases q) simp_all
        ultimately show ?thesis using loop_flush [of q qs' action t status s] ok by (simp add: outcome_simps split_def)
      qed
      with rest [of MAC_PARSE_LITERAL t] t \<open>t \<noteq> []\<close> show ?thesis
        using loop_plain [of action t "pieces_text qs" "[]" status s] by (simp add: flush_literal_def)
    next
      case False
      then obtain n where e: "piece_part p = (MAC_PARSE_EXPR, n)" by (cases p) simp_all
      with False rest [OF e] Cons.prems(1,3) loop_reference [of p qs status action s] show ?thesis
        by (simp add: outcome_simps split_def)
    qed
  qed (simp add: finish_def flush_literal_def)
  then show ?thesis using assms by (simp add: mac_parse_finish)
qed

text \<open>Recording the parts, as the test program of \<open>mac_parse.c\<close> prints them.\<close>

definition record_part :: "(mac_type \<times> string) list mac_action" where
  "record_part type buf parts = Ok (0, parts @ [(type, buf)])"

lemma run_parts_record: "run_parts record_part ps status acc = Ok (status, acc @ ps)"
  by (induction ps arbitrary: acc) (auto simp: MAC_PARSE_ACTION_def record_part_def)

lemma flush_record [simp]: "flush_literal record_part status buf acc = Ok (status, acc @ (if buf = [] then [] else [(MAC_PARSE_LITERAL, buf)]))"
  by (simp add: flush_literal_def MAC_PARSE_ACTION_def record_part_def)

lemma expr_record [simp]: "MAC_PARSE_ACTION record_part status type t acc = Ok (status, acc @ [(type, t)])"
  by (simp add: MAC_PARSE_ACTION_def record_part_def)

text \<open>Behind a reference that the parser read stands the text of well-formed pieces again.\<close>

lemma reference_piece:
  assumes "mac_reference v = Some (paren, name, pieces_text ps)" "name \<noteq> []" "pieces_ok ps"
  obtains p where "pieces_ok (p # ps)" "pieces_text (p # ps) = CHR ''$'' # v" "piece_part p = (MAC_PARSE_EXPR, name)" "\<And>s. p \<noteq> Plain s"
proof -
  consider (paren) w where "v = CHR ''('' # w" "close_scan CHR ''('' CHR '')'' (Suc 0) w = Some (name, pieces_text ps)"
    | (brace) w where "v = CHR ''{'' # w" "close_scan CHR ''{'' CHR ''}'' (Suc 0) w = Some (name, pieces_text ps)"
    | (named) "name = takeWhile attr_char v" "pieces_text ps = dropWhile attr_char v"
    using assms(1) by (cases v) (auto simp: mac_reference_def split: if_splits)
  then show thesis
  proof cases
    case paren
    with nested_close_scan [OF _ paren(2)] close_scan_split [OF _ paren(2)] assms that [of "Paren name"] show thesis by simp
  next
    case brace
    with nested_close_scan [OF _ brace(2)] close_scan_split [OF _ brace(2)] assms that [of "Brace name"] show thesis by simp
  next
    case named
    have "\<not> attr_char (hd s)" if "ps = Plain s # qs" for s qs
    proof -
      from that assms(3) obtain c s' where "s = c # s'" by (cases s) auto
      with that have "dropWhile attr_char v \<noteq> [] \<and> hd (dropWhile attr_char v) = c" by (simp flip: named(2))
      then have "\<not> attr_char c" using hd_dropWhile [of attr_char v] by (metis dropWhile_eq_Nil_conv)
      with \<open>s = c # s'\<close> show ?thesis by simp
    qed
    then have "pieces_ok (Named name # ps)"
      using named(1) assms(2,3) by (auto simp: list_all_iff dest: set_takeWhileD split: list.split piece.split)
    moreover have "pieces_text (Named name # ps) = CHR ''$'' # v" using named by (simp add: takeWhile_dropWhile_id)
    ultimately show thesis using that [of "Named name"] by simp
  qed
qed

lemma loop_parts:
  assumes "mac_parse_loop record_part vp buf 0 acc = Ok (0, buf', acc')"
  shows "\<exists>ps. pieces_ok ps \<and> dollars buf @ vp = pieces_text ps \<and>
    acc' @ (if buf' = [] then [] else [(MAC_PARSE_LITERAL, buf')]) = acc @ map piece_part ps"
  using assms
proof (induction "length vp" arbitrary: vp buf acc rule: less_induct)
  case (less vp)
  show ?case
  proof (cases vp)
    case Nil
    with less.prems show ?thesis by (intro exI [of _ "if buf = [] then [] else [Plain buf]"]) auto
  next
    case (Cons c v)
    show ?thesis
    proof (cases "c \<noteq> CHR ''$'' \<or> v \<noteq> [] \<and> hd v = CHR ''$''")
      case True
      then consider (plain) "c \<noteq> CHR ''$''" | (dollar) w where "c = CHR ''$''" "v = CHR ''$'' # w" by (cases v) auto
      then show ?thesis
      proof cases
        case plain
        with less.hyps [of v "buf @ [c]" acc] less.prems Cons show ?thesis by simp
      next
        case dollar
        with less.hyps [of w "buf @ [c]" acc] less.prems Cons show ?thesis by simp
      qed
    next
      case False
      let ?acc = "acc @ (if buf = [] then [] else [(MAC_PARSE_LITERAL, buf)])"
      obtain paren name rest where r: "mac_reference v = Some (paren, name, rest)" "name \<noteq> []"
        "mac_parse_loop record_part rest [] 0 (?acc @ [(MAC_PARSE_EXPR, name)]) = Ok (0, buf', acc')"
        using less.prems Cons False by (auto simp: MAC_PARSE_ERROR_def split: option.splits if_splits)
      have "length rest < length vp" using mac_reference_length [OF r(1)] r(2) Cons by simp
      from less.hyps [OF this r(3)] obtain ps where ps: "pieces_ok ps" "rest = pieces_text ps"
        "acc' @ (if buf' = [] then [] else [(MAC_PARSE_LITERAL, buf')]) = ?acc @ (MAC_PARSE_EXPR, name) # map piece_part ps" by auto
      obtain p where p: "pieces_ok (p # ps)" "pieces_text (p # ps) = CHR ''$'' # v" "piece_part p = (MAC_PARSE_EXPR, name)" "\<And>s. p \<noteq> Plain s"
        using reference_piece r(1,2) ps(1,2) by blast
      have "pieces_ok ((if buf = [] then [] else [Plain buf]) @ p # ps)" using p(1,4) by (auto split: piece.split)
      with p ps(3) False Cons show ?thesis
        by (intro exI [of _ "(if buf = [] then [] else [Plain buf]) @ p # ps"]) auto
    qed
  qed
qed

text \<open>
  C9: Called with a call-back that records the parts, \<open>mac_parse\<close> succeeds on exactly the texts that
  are put together from plain text, names and references in balanced parentheses, and the parts are
  those pieces, in order, with doubled dollar signs undone.
\<close>

theorem mac_parse_parts:
  "mac_parse record_part val [] = Ok (0, parts) \<longleftrightarrow>
     (\<exists>ps. pieces_ok ps \<and> val = pieces_text ps \<and> parts = map piece_part ps)"
proof
  assume "mac_parse record_part val [] = Ok (0, parts)"
  then obtain status buf acc where l: "mac_parse_loop record_part val [] 0 [] = Ok (status, buf, acc)"
    "finish record_part (status, buf, acc) = Ok (0, parts)" by (auto simp: mac_parse_finish)
  then have "status = 0" "parts = acc @ (if buf = [] then [] else [(MAC_PARSE_LITERAL, buf)])"
    by (auto simp: finish_def split: if_splits)
  with loop_parts [of val "[]" "[]" buf acc] l show "\<exists>ps. pieces_ok ps \<and> val = pieces_text ps \<and> parts = map piece_part ps" by auto
next
  assume "\<exists>ps. pieces_ok ps \<and> val = pieces_text ps \<and> parts = map piece_part ps"
  then show "mac_parse record_part val [] = Ok (0, parts)"
    using mac_parse_pieces [of _ "\<lambda>_. True" "[]" record_part] by (auto simp: run_parts_record record_part_def)
qed

end
