(* ===== verification/Mac_expand.thy ===== *)
theory Mac_expand
  imports Mac_parse Hostname
begin

text \<open>
  Attribute expansion, \<open>src/util/mac_expand.c\<close>: the call-back that \<open>mac_parse\<close> calls for every part of a
  pattern, with conditional results and relational expressions.

  The result buffer and the pattern are texts. The lookup routine is the caller's: an argument that maps
  a name, a mode and the caller's state to a value, if the attribute is defined, and a new state. Whether
  \<open>errno\<close> is \<open>ERANGE\<close> is read off that state too. The call-back and the parser call each other and may do so
  for ever; the first argument of \<open>mac_expand_callback\<close> bounds the depth of the C stack, counted in calls of
  the call-back, and beyond it a call does not return.
\<close>

section \<open>Context\<close>

definition MAC_EXP_FLAG_RECURSE :: nat where "MAC_EXP_FLAG_RECURSE = 1"
definition MAC_EXP_FLAG_APPEND :: nat where "MAC_EXP_FLAG_APPEND = 2"
definition MAC_EXP_FLAG_SCAN :: nat where "MAC_EXP_FLAG_SCAN = 4"
definition MAC_EXP_FLAG_PRINTABLE :: nat where "MAC_EXP_FLAG_PRINTABLE = 8"

datatype mac_exp_mode = MAC_EXP_MODE_TEST | MAC_EXP_MODE_USE

type_synonym 'c mac_exp_lookup_fn = "string \<Rightarrow> mac_exp_mode \<Rightarrow> 'c \<Rightarrow> string option \<times> 'c"

record 'c mac_exp_context =
  mc_result :: string
  mc_flags :: nat
  mc_filter :: "string option"
  mc_lookup :: "'c mac_exp_lookup_fn"
  mc_context :: 'c
  mc_status :: nat
  mc_level :: nat

text \<open>What the code reads of the process: the global \<open>util_utf8_enable\<close>, and \<open>errno\<close>.\<close>

record 'c globals =
  util_utf8_enable :: bool
  errno_ERANGE :: "'c \<Rightarrow> bool"

definition MAC_EXP_BVAL_TRUE :: string where "MAC_EXP_BVAL_TRUE = ''true''"
definition MAC_EXP_BVAL_FALSE :: string where "MAC_EXP_BVAL_FALSE = ''''"

definition MAC_EXP_WHITESPACE :: string where
  "MAC_EXP_WHITESPACE = [CHR '' '', CHR 0x09, CHR 0x0D, CHR 0x0A]"

section \<open>Relational operators\<close>

definition MAC_EXP_OP_TOK_NONE :: nat where "MAC_EXP_OP_TOK_NONE = 0"
definition MAC_EXP_OP_TOK_EQ :: nat where "MAC_EXP_OP_TOK_EQ = 1"
definition MAC_EXP_OP_TOK_NE :: nat where "MAC_EXP_OP_TOK_NE = 2"
definition MAC_EXP_OP_TOK_LT :: nat where "MAC_EXP_OP_TOK_LT = 3"
definition MAC_EXP_OP_TOK_LE :: nat where "MAC_EXP_OP_TOK_LE = 4"
definition MAC_EXP_OP_TOK_GE :: nat where "MAC_EXP_OP_TOK_GE = 5"
definition MAC_EXP_OP_TOK_GT :: nat where "MAC_EXP_OP_TOK_GT = 6"

lemmas op_tok_defs =
  MAC_EXP_OP_TOK_NONE_def MAC_EXP_OP_TOK_EQ_def MAC_EXP_OP_TOK_NE_def MAC_EXP_OP_TOK_LT_def
  MAC_EXP_OP_TOK_LE_def MAC_EXP_OP_TOK_GE_def MAC_EXP_OP_TOK_GT_def

definition mac_exp_op_table :: name_code_table where
  "mac_exp_op_table =
    [(Some ''=='', MAC_EXP_OP_TOK_EQ), (Some ''!='', MAC_EXP_OP_TOK_NE),
     (Some ''<'', MAC_EXP_OP_TOK_LT), (Some ''<='', MAC_EXP_OP_TOK_LE),
     (Some ''>='', MAC_EXP_OP_TOK_GE), (Some ''>'', MAC_EXP_OP_TOK_GT),
     (None, MAC_EXP_OP_TOK_NONE)]"

definition LONG_MAX :: int where "LONG_MAX = 2 ^ 63 - 1"

text \<open>\<open>strtol\<close> with base ten on a text that starts with a digit: the value, the rest, and whether it is out of range.\<close>

definition strtol_digits :: "string \<Rightarrow> int \<times> string \<times> bool" where
  "strtol_digits s =
     (let v = int (digits_value (takeWhile ISDIGIT s) 0)
      in (min v LONG_MAX, dropWhile ISDIGIT s, v > LONG_MAX))"

definition atol_or_die :: "bool \<Rightarrow> string \<Rightarrow> int outcome" where
  "atol_or_die erange strval =
     (let (result, remainder, range) = strtol_digits strval in
      if strval = [] \<or> remainder \<noteq> [] \<or> erange \<or> range
      then Fatal (''mac_exp_eval: bad conversion: '' @ strval)
      else Ok result)"

definition mac_exp_eval :: "bool \<Rightarrow> string \<Rightarrow> nat \<Rightarrow> string \<Rightarrow> bool outcome" where
  "mac_exp_eval erange left tok_val rite =
     obind (if alldig left \<and> alldig rite
            then obind (atol_or_die erange left) (\<lambda>l. obind (atol_or_die erange rite) (\<lambda>r. Ok (l - r)))
            else Ok (strcmp left rite)) (\<lambda>delta.
       if tok_val = MAC_EXP_OP_TOK_EQ then Ok (delta = 0)
       else if tok_val = MAC_EXP_OP_TOK_NE then Ok (delta \<noteq> 0)
       else if tok_val = MAC_EXP_OP_TOK_LT then Ok (delta < 0)
       else if tok_val = MAC_EXP_OP_TOK_LE then Ok (delta \<le> 0)
       else if tok_val = MAC_EXP_OP_TOK_GE then Ok (delta \<ge> 0)
       else if tok_val = MAC_EXP_OP_TOK_GT then Ok (delta > 0)
       else Panic ''mac_exp_eval: unknown operator'')"

section \<open>Operands\<close>

text \<open>Warnings are log output; what remains of \<open>mac_exp_parse_error\<close> is the status.\<close>

definition mac_exp_parse_error :: "'c mac_exp_context \<Rightarrow> 'c mac_exp_context" where
  "mac_exp_parse_error mc = mc\<lparr>mc_status := mc_status mc OR MAC_PARSE_ERROR\<rparr>"

definition MAC_EXP_FIND_LEFT_CURLY :: "string \<Rightarrow> string option" where
  "MAC_EXP_FIND_LEFT_CURLY cp =
     (let r = drop (strspn cp MAC_EXP_WHITESPACE) cp in if r \<noteq> [] \<and> hd r = CHR ''{'' then Some r else None)"

text \<open>The text up to the matching brace, and what follows it.\<close>

fun curly_scan :: "nat \<Rightarrow> string \<Rightarrow> (string \<times> string) option" where
  "curly_scan level [] = None"
| "curly_scan level (ch # cp) =
     (if ch = CHR ''{'' then map_option (\<lambda>(p, r). (ch # p, r)) (curly_scan (level + 1) cp)
      else if ch = CHR ''}'' then
        (if level - 1 = 0 then Some ([], cp) else map_option (\<lambda>(p, r). (ch # p, r)) (curly_scan (level - 1) cp))
      else map_option (\<lambda>(p, r). (ch # p, r)) (curly_scan level cp))"

text \<open>Called with a text that starts with a brace: the payload and the rest behind blanks.\<close>

definition mac_exp_extract_curly_payload :: "string \<Rightarrow> (string \<times> string) option" where
  "mac_exp_extract_curly_payload bp =
     map_option (\<lambda>(payload, cp). (payload, drop (strspn cp MAC_EXP_WHITESPACE) cp)) (curly_scan 1 (tl bp))"

text \<open>A result operand: a text in braces, or all that is left. None is an unbalanced brace.\<close>

definition result_operand :: "string \<Rightarrow> (string \<times> string) option" where
  "result_operand cp =
     (case MAC_EXP_FIND_LEFT_CURLY cp of
        Some cp \<Rightarrow> mac_exp_extract_curly_payload cp
      | None \<Rightarrow> Some (cp, []))"

text \<open>The bytes an operator may be made of, and what the code does to expand an operand.\<close>

definition op_chars :: string where
  "op_chars = ''<>!=?+-*/~&|%''"

definition mac_expand_with ::
  "'c mac_exp_context mac_action \<Rightarrow> string \<Rightarrow> string \<Rightarrow> nat \<Rightarrow> string option \<Rightarrow> 'c mac_exp_lookup_fn \<Rightarrow> 'c \<Rightarrow>
   (nat \<times> string \<times> 'c) outcome" where
  "mac_expand_with action result pattern flags filt lookup context =
     (let result = (if flags AND (MAC_EXP_FLAG_APPEND OR MAC_EXP_FLAG_SCAN) = 0 then [] else result);
          mc = \<lparr>mc_result = result, mc_flags = flags, mc_filter = filt, mc_lookup = lookup,
                mc_context = context, mc_status = 0, mc_level = 0\<rparr>
      in obind (mac_parse action pattern mc) (\<lambda>(status, mc). Ok (status, mc_result mc, mc_context mc)))"

definition expand_operand :: "'c mac_exp_context mac_action \<Rightarrow> 'c mac_exp_context \<Rightarrow> string \<Rightarrow> ('c mac_exp_context \<times> string) outcome" where
  "expand_operand action mc operand =
     obind (mac_expand_with action [] operand (mc_flags mc) (mc_filter mc) (mc_lookup mc) (mc_context mc)) (\<lambda>(status, buf, context).
       Ok (mc\<lparr>mc_status := mc_status mc OR status, mc_context := context\<rparr>, buf))"

text \<open>The value of the expression and the rest of the text, or none when the code returns a status.\<close>

definition mac_exp_parse_relational ::
  "'c globals \<Rightarrow> 'c mac_exp_context mac_action \<Rightarrow> 'c mac_exp_context \<Rightarrow> string \<Rightarrow>
   ('c mac_exp_context \<times> (string \<times> string) option) outcome" where
  "mac_exp_parse_relational g action mc bp =
     (case mac_exp_extract_curly_payload bp of
        None \<Rightarrow> Ok (mac_exp_parse_error mc, None)
      | Some (left_op_strval, cp) \<Rightarrow>
          let op_len = strspn cp op_chars in
          obind (name_code mac_exp_op_table 0 (take op_len cp)) (\<lambda>op_tokval.
            if op_tokval = MAC_EXP_OP_TOK_NONE then Ok (mac_exp_parse_error mc, None)
            else case MAC_EXP_FIND_LEFT_CURLY (drop op_len cp) of
              None \<Rightarrow> Ok (mac_exp_parse_error mc, None)
            | Some cp \<Rightarrow>
                (case mac_exp_extract_curly_payload cp of
                   None \<Rightarrow> Ok (mac_exp_parse_error mc, None)
                 | Some (rite_op_strval, cp) \<Rightarrow>
                     obind (expand_operand action mc left_op_strval) (\<lambda>(mc, left_op_buf).
                     obind (expand_operand action mc rite_op_strval) (\<lambda>(mc, rite_op_buf).
                     obind (mac_exp_eval (errno_ERANGE g (mc_context mc)) left_op_buf op_tokval rite_op_buf) (\<lambda>op_result.
                       if mc_status mc AND MAC_PARSE_ERROR \<noteq> 0 then Ok (mc, None)
                       else Ok (mc, Some (if op_result then MAC_EXP_BVAL_TRUE else MAC_EXP_BVAL_FALSE, cp))))))))"

section \<open>The call-back\<close>

text \<open>The loop over the name: the name, the operator or a null byte, and the rest; none for a syntax error.\<close>

fun name_scan :: "string \<Rightarrow> (string \<times> char \<times> string) option" where
  "name_scan [] = Some ([], NUL, [])"
| "name_scan (ch # cp) =
     (if ch = CHR ''?'' \<or> ch = CHR '':'' then Some ([], ch, cp)
      else if \<not> ISALNUM ch \<and> ch \<noteq> CHR ''_'' then None
      else map_option (\<lambda>(name, ch', cp). (ch # name, ch', cp)) (name_scan cp))"

text \<open>The value to test or to insert, the operator and the text behind it; none when the call-back returns.\<close>

definition expr_head ::
  "'c globals \<Rightarrow> 'c mac_exp_context mac_action \<Rightarrow> 'c mac_exp_context \<Rightarrow> string \<Rightarrow>
   ('c mac_exp_context \<times> (string option \<times> char \<times> string) option) outcome" where
  "expr_head g action mc buf =
     (case MAC_EXP_FIND_LEFT_CURLY buf of
        Some cp \<Rightarrow>
          obind (mac_exp_parse_relational g action mc cp) (\<lambda>(mc, r).
            case r of
              None \<Rightarrow> Ok (mc, None)
            | Some (lookup, []) \<Rightarrow> Ok (mc, Some (Some lookup, NUL, []))
            | Some (lookup, ch # cp) \<Rightarrow>
                if ch \<noteq> CHR ''?'' \<and> ch \<noteq> CHR '':'' then Ok (mac_exp_parse_error mc, None)
                else Ok (mc, Some (Some lookup, ch, cp)))
      | None \<Rightarrow>
          (case name_scan buf of
             None \<Rightarrow> Ok (mac_exp_parse_error mc, None)
           | Some (name, ch, cp) \<Rightarrow>
               let (lookup, context) =
                 mc_lookup mc name (if ch = NUL then MAC_EXP_MODE_USE else MAC_EXP_MODE_TEST) (mc_context mc)
               in Ok (mc\<lparr>mc_context := context\<rparr>, Some (lookup, ch, cp))))"

definition parse_into :: "'c mac_exp_context mac_action \<Rightarrow> string \<Rightarrow> 'c mac_exp_context \<Rightarrow> 'c mac_exp_context outcome" where
  "parse_into action text mc =
     obind (mac_parse action text mc) (\<lambda>(status, mc). Ok (mc\<lparr>mc_status := mc_status mc OR status\<rparr>))"

definition nonempty :: "string option \<Rightarrow> bool" where
  "nonempty lookup \<longleftrightarrow> lookup \<noteq> None \<and> lookup \<noteq> Some []"

definition flag_set :: "'c mac_exp_context \<Rightarrow> nat \<Rightarrow> bool" where
  "flag_set mc flag \<longleftrightarrow> mc_flags mc AND flag \<noteq> 0"

text \<open>The branches of the switch; the flag tells whether control leaves it, rather than the function.\<close>

definition case_colon :: "'c mac_exp_context mac_action \<Rightarrow> string option \<Rightarrow> string \<Rightarrow> 'c mac_exp_context \<Rightarrow> (bool \<times> 'c mac_exp_context) outcome" where
  "case_colon action lookup cp mc =
     (case result_operand cp of
        None \<Rightarrow> Ok (False, mac_exp_parse_error mc)
      | Some (res_iffalse, cp) \<Rightarrow>
          obind (if \<not> nonempty lookup \<or> flag_set mc MAC_EXP_FLAG_SCAN then parse_into action res_iffalse mc else Ok mc) (\<lambda>mc.
            if cp \<noteq> [] then Ok (False, mac_exp_parse_error mc) else Ok (True, mc)))"

definition case_question :: "'c mac_exp_context mac_action \<Rightarrow> string option \<Rightarrow> string \<Rightarrow> 'c mac_exp_context \<Rightarrow> (bool \<times> 'c mac_exp_context) outcome" where
  "case_question action lookup cp mc =
     (case result_operand cp of
        None \<Rightarrow> Ok (False, mac_exp_parse_error mc)
      | Some (res_iftrue, cp) \<Rightarrow>
          obind (if nonempty lookup \<or> flag_set mc MAC_EXP_FLAG_SCAN then parse_into action res_iftrue mc else Ok mc) (\<lambda>mc.
            if cp = [] then Ok (True, mc)
            else if hd cp \<noteq> CHR '':'' then Ok (False, mac_exp_parse_error mc)
            else case_colon action lookup (tl cp) mc))"

text \<open>The text that replaces a plain reference, with every byte outside the filter replaced.\<close>

definition filtered :: "'c globals \<Rightarrow> nat \<Rightarrow> string option \<Rightarrow> string \<Rightarrow> string" where
  "filtered g flags filt text =
     (if flags AND MAC_EXP_FLAG_PRINTABLE \<noteq> 0 then printable (util_utf8_enable g) text CHR ''_''
      else case filt of
        None \<Rightarrow> text
      | Some filt \<Rightarrow> map (\<lambda>c. if c \<in> set filt then c else CHR ''_'') text)"

definition case_end :: "'c globals \<Rightarrow> 'c mac_exp_context mac_action \<Rightarrow> string option \<Rightarrow> 'c mac_exp_context \<Rightarrow> (bool \<times> 'c mac_exp_context) outcome" where
  "case_end g action lookup mc =
     (case lookup of
        None \<Rightarrow> Ok (True, mc\<lparr>mc_status := mc_status mc OR MAC_PARSE_UNDEF\<rparr>)
      | Some text \<Rightarrow>
          if text = [] \<or> flag_set mc MAC_EXP_FLAG_SCAN then Ok (True, mc)
          else if flag_set mc MAC_EXP_FLAG_RECURSE then obind (parse_into action text mc) (\<lambda>mc. Ok (True, mc))
          else Ok (True, mc\<lparr>mc_result := mc_result mc @ filtered g (mc_flags mc) (mc_filter mc) text\<rparr>))"

definition expr_case :: "'c globals \<Rightarrow> 'c mac_exp_context mac_action \<Rightarrow> string \<Rightarrow> 'c mac_exp_context \<Rightarrow> (bool \<times> 'c mac_exp_context) outcome" where
  "expr_case g action buf mc =
     obind (expr_head g action mc buf) (\<lambda>(mc, h).
       case h of
         None \<Rightarrow> Ok (False, mc)
       | Some (lookup, ch, cp) \<Rightarrow>
           if ch = CHR ''?'' then case_question action lookup cp mc
           else if ch = CHR '':'' then case_colon action lookup cp mc
           else if ch = NUL then case_end g action lookup mc
           else Panic ''mac_expand_callback: unknown operator code'')"

definition literal_case :: "string \<Rightarrow> 'c mac_exp_context \<Rightarrow> 'c mac_exp_context" where
  "literal_case buf mc = (if flag_set mc MAC_EXP_FLAG_SCAN then mc else mc\<lparr>mc_result := mc_result mc @ buf\<rparr>)"

definition callback_body :: "'c globals \<Rightarrow> 'c mac_exp_context mac_action \<Rightarrow> 'c mac_exp_context mac_action" where
  "callback_body g action type buf mc =
     (let level = mc_level mc;
          mc = mc\<lparr>mc_level := level + 1\<rparr>;
          mc = (if level > 100 then mac_exp_parse_error mc else mc)
      in if mc_status mc AND MAC_PARSE_ERROR \<noteq> 0 then Ok (mc_status mc, mc)
         else obind (if type = MAC_PARSE_EXPR then expr_case g action buf mc
                     else Ok (True, literal_case buf mc)) (\<lambda>(leave, mc).
           let mc = (if leave then mc\<lparr>mc_level := mc_level mc - 1\<rparr> else mc) in Ok (mc_status mc, mc)))"

fun mac_expand_callback :: "nat \<Rightarrow> 'c globals \<Rightarrow> 'c mac_exp_context mac_action" where
  "mac_expand_callback 0 g type buf mc = Diverge"
| "mac_expand_callback (Suc stack) g type buf mc = callback_body g (mac_expand_callback stack g) type buf mc"

definition mac_expand ::
  "nat \<Rightarrow> 'c globals \<Rightarrow> string \<Rightarrow> string \<Rightarrow> nat \<Rightarrow> string option \<Rightarrow> 'c mac_exp_lookup_fn \<Rightarrow> 'c \<Rightarrow> (nat \<times> string \<times> 'c) outcome" where
  "mac_expand stack g = mac_expand_with (mac_expand_callback stack g)"

section \<open>More stack gives the same result\<close>

locale deeper =
  fixes a b :: "'c mac_exp_context mac_action"
  assumes ab: "\<And>type t mc. extends (a type t mc) (b type t mc)"
begin

lemma expand_operand_extends: "extends (expand_operand a mc t) (expand_operand b mc t)"
  unfolding expand_operand_def mac_expand_with_def Let_def
  by (intro extends_bind mac_parse_extends ab) simp_all

lemma relational_extends: "extends (mac_exp_parse_relational g a mc bp) (mac_exp_parse_relational g b mc bp)"
  unfolding mac_exp_parse_relational_def Let_def
  by (auto intro!: extends_bind expand_operand_extends split: option.split)

lemma expr_head_extends: "extends (expr_head g a mc buf) (expr_head g b mc buf)"
  unfolding expr_head_def Let_def
  by (auto intro!: extends_bind relational_extends split: option.split list.split)

lemma parse_into_extends: "extends (parse_into a t mc) (parse_into b t mc)"
  unfolding parse_into_def by (auto intro!: extends_bind mac_parse_extends ab)

lemma case_colon_extends: "extends (case_colon a v cp mc) (case_colon b v cp mc)"
  unfolding case_colon_def by (auto intro!: extends_bind parse_into_extends split: option.split)

lemma case_question_extends: "extends (case_question a v cp mc) (case_question b v cp mc)"
  unfolding case_question_def by (auto intro!: extends_bind parse_into_extends case_colon_extends split: option.split)

lemma case_end_extends: "extends (case_end g a v mc) (case_end g b v mc)"
  unfolding case_end_def by (auto intro!: extends_bind parse_into_extends split: option.split)

lemma expr_case_extends: "extends (expr_case g a buf mc) (expr_case g b buf mc)"
  unfolding expr_case_def
  by (auto intro!: extends_bind expr_head_extends case_question_extends case_colon_extends case_end_extends split: option.split)

lemma callback_body_extends: "extends (callback_body g a type t mc) (callback_body g b type t mc)"
  unfolding callback_body_def Let_def by (auto intro!: extends_bind expr_case_extends)

end

interpretation stack: deeper "mac_expand_callback n g" "mac_expand_callback (Suc n) g"
proof
  show "extends (mac_expand_callback n g type t mc) (mac_expand_callback (Suc n) g type t mc)" for type t mc
  proof (induction n arbitrary: type t mc)
    case (Suc n)
    then show ?case unfolding mac_expand_callback.simps(2) [of "Suc n"] mac_expand_callback.simps(2) [of n]
      by (intro deeper.callback_body_extends deeper.intro)
  qed simp
qed

lemma callback_more_stack:
  assumes "n \<le> m"
  shows "extends (mac_expand_callback n g type t mc) (mac_expand_callback m g type t mc)"
  using assms
proof (induction rule: dec_induct)
  case (step m)
  with stack.ab [of m g type t mc] show ?case by (auto simp: extends_def)
qed simp

lemma mac_expand_more_stack:
  assumes "n \<le> m" "mac_expand n g result pattern flags filt lookup ctx \<noteq> Diverge"
  shows "mac_expand m g result pattern flags filt lookup ctx = mac_expand n g result pattern flags filt lookup ctx"
proof -
  have "extends (mac_expand n g result pattern flags filt lookup ctx) (mac_expand m g result pattern flags filt lookup ctx)"
    unfolding mac_expand_def mac_expand_with_def Let_def
    by (intro extends_bind mac_parse_extends callback_more_stack assms(1)) simp
  then show ?thesis using assms(2) by (auto simp: extends_def)
qed

section \<open>Expansion ends\<close>

text \<open>What the call-back keeps of the context: the caller's arguments, the nesting level, and in a scan the result.\<close>

definition keeps :: "nat \<Rightarrow> 'c mac_exp_lookup_fn \<Rightarrow> string \<Rightarrow> nat \<Rightarrow> 'c mac_exp_context \<Rightarrow> bool" where
  "keeps f k res level mc \<longleftrightarrow>
     mc_flags mc = f \<and> mc_lookup mc = k \<and> level \<le> mc_level mc \<and> (f AND MAC_EXP_FLAG_SCAN \<noteq> 0 \<longrightarrow> mc_result mc = res)"

lemma keeps_error [simp]: "keeps f k res level (mac_exp_parse_error mc) \<longleftrightarrow> keeps f k res level mc"
  by (simp add: keeps_def mac_exp_parse_error_def)

lemma keeps_update [simp]:
  "keeps f k res level (mc\<lparr>mc_status := st\<rparr>) \<longleftrightarrow> keeps f k res level mc"
  "keeps f k res level (mc\<lparr>mc_context := c\<rparr>) \<longleftrightarrow> keeps f k res level mc"
  by (simp_all add: keeps_def)

text \<open>Operators and operands.\<close>

lemma op_code: "\<exists>code. name_code mac_exp_op_table 0 s = Ok code \<and> code \<le> 6"
  by (simp add: name_code_def mac_exp_op_table_def op_tok_defs)

lemma atol_or_die_stops: "stops (atol_or_die e s) (\<lambda>_. True)"
  by (simp add: atol_or_die_def split: prod.split)

lemma mac_exp_eval_stops: "tok \<noteq> MAC_EXP_OP_TOK_NONE \<Longrightarrow> tok \<le> 6 \<Longrightarrow> stops (mac_exp_eval e left tok rite) (\<lambda>_. True)"
  unfolding mac_exp_eval_def
  by (rule stops_bind [where P = "\<lambda>_. True"])
    (auto simp: op_tok_defs intro!: stops_bind [OF atol_or_die_stops])

lemma curly_scan_split: "0 < level \<Longrightarrow> curly_scan level s = Some (p, r) \<Longrightarrow> s = p @ CHR ''}'' # r"
  by (induction level s arbitrary: p r rule: curly_scan.induct) (auto split: if_splits)

definition within :: "string \<Rightarrow> string \<Rightarrow> bool" where
  "within t s \<longleftrightarrow> length t \<le> length s \<and> set t \<subseteq> set s"

definition inside :: "string \<Rightarrow> string \<Rightarrow> bool" where
  "inside t s \<longleftrightarrow> length t < length s \<and> set t \<subseteq> set s"

lemma within_refl [simp]: "within s s" and within_Nil [simp]: "within [] s"
  by (simp_all add: within_def)

lemma within_trans: "within t s \<Longrightarrow> within s r \<Longrightarrow> within t r" "within t s \<Longrightarrow> inside s r \<Longrightarrow> inside t r" "inside t s \<Longrightarrow> within s r \<Longrightarrow> inside t r"
  by (auto simp: within_def inside_def)

lemma within_dropWhile [simp]: "within (dropWhile P s) s"
  by (auto simp: within_def length_dropWhile_le dest: set_dropWhileD)

lemma inside_tl: "s \<noteq> [] \<Longrightarrow> inside (tl s) s"
  by (cases s) (auto simp: inside_def)

lemma find_curly:
  assumes "MAC_EXP_FIND_LEFT_CURLY s = Some t"
  shows "within t s" "t \<noteq> []" "hd t = CHR ''{''" "CHR ''{'' \<in> set s"
proof -
  have t: "t = dropWhile (\<lambda>c. c \<in> set MAC_EXP_WHITESPACE) s" "t \<noteq> []" "hd t = CHR ''{''"
    using assms by (auto simp: MAC_EXP_FIND_LEFT_CURLY_def Let_def split: if_splits)
  then show "within t s" "t \<noteq> []" "hd t = CHR ''{''" by simp_all
  show "CHR ''{'' \<in> set s" using t by (metis hd_in_set set_dropWhileD)
qed

lemma payload_inside:
  assumes "mac_exp_extract_curly_payload s = Some (p, r)" "s \<noteq> []"
  shows "inside p s" "inside r s"
proof -
  obtain c where c: "curly_scan 1 (tl s) = Some (p, c)" "r = dropWhile (\<lambda>x. x \<in> set MAC_EXP_WHITESPACE) c"
    using assms(1) by (auto simp: mac_exp_extract_curly_payload_def)
  have "tl s = p @ CHR ''}'' # c" using curly_scan_split [OF _ c(1)] by simp
  then have "inside p s" "inside c s" using assms(2) by (cases s; auto simp: inside_def)+
  then show "inside p s" "inside r s" using c(2) within_trans(2) within_dropWhile by blast+
qed

lemma result_operand_within: "result_operand s = Some (p, r) \<Longrightarrow> within p s \<and> within r s"
  using find_curly payload_inside
  by (fastforce simp: result_operand_def within_def inside_def split: option.splits)

lemma name_scan_inside: "name_scan s = Some (name, ch, cp) \<Longrightarrow> ch \<in> {CHR ''?'', CHR '':'', NUL} \<and> (ch \<noteq> NUL \<longrightarrow> inside cp s)"
  by (induction s arbitrary: name cp) (fastforce simp: inside_def split: if_splits)+

text \<open>Parsing a text with the call-back ends and keeps the context.\<close>

definition parses :: "'c mac_exp_context mac_action \<Rightarrow> nat \<Rightarrow> 'c mac_exp_lookup_fn \<Rightarrow> string \<Rightarrow> nat \<Rightarrow> string \<Rightarrow> bool" where
  "parses action f k res level u \<longleftrightarrow>
     (\<forall>mc. keeps f k res level mc \<longrightarrow> stops (mac_parse action u mc) (\<lambda>(r, mc). keeps f k res level mc))"

lemma parses_bind:
  assumes "parses a f k res level u" "keeps f k res level mc" "\<And>r mc. keeps f k res level mc \<Longrightarrow> stops (h r mc) Q"
  shows "stops (obind (mac_parse a u mc) (\<lambda>(r, mc). h r mc)) Q"
  by (rule stops_bind [where P = "\<lambda>(r, mc). keeps f k res level mc"]) (use assms in \<open>auto simp: parses_def\<close>)

lemma parse_into_stops:
  "parses a f k res level u \<Longrightarrow> keeps f k res level mc \<Longrightarrow> stops (parse_into a u mc) (keeps f k res level)"
  unfolding parse_into_def by (erule (1) parses_bind) simp

lemma expand_operand_stops:
  assumes "parses a f k [] 0 u" "keeps f k res level mc"
  shows "stops (expand_operand a mc u) (\<lambda>(mc, buf). keeps f k res level mc)"
proof -
  have "keeps f k [] 0 \<lparr>mc_result = [], mc_flags = mc_flags mc, mc_filter = mc_filter mc, mc_lookup = mc_lookup mc,
      mc_context = mc_context mc, mc_status = 0, mc_level = 0\<rparr>" using assms(2) by (simp add: keeps_def)
  with assms(1) have "stops (mac_expand_with a [] u (mc_flags mc) (mc_filter mc) (mc_lookup mc) (mc_context mc)) (\<lambda>_. True)"
    unfolding mac_expand_with_def Let_def if_cancel by (elim parses_bind) simp_all
  then show ?thesis unfolding expand_operand_def by (rule stops_bind) (use assms(2) in auto)
qed

lemma relational_stops:
  assumes sub: "\<And>u. inside u bp \<Longrightarrow> parses a f k [] 0 u" and "bp \<noteq> []" and k: "keeps f k res level mc"
  shows "stops (mac_exp_parse_relational g a mc bp) (\<lambda>(mc, r). keeps f k res level mc \<and>
    (case r of None \<Rightarrow> True | Some (v, cp) \<Rightarrow> v \<in> {[], MAC_EXP_BVAL_TRUE} \<and> inside cp bp))"
proof (cases "mac_exp_extract_curly_payload bp")
  case None
  then show ?thesis using k by (simp add: mac_exp_parse_relational_def)
next
  case (Some lc)
  then obtain left cp where lc: "mac_exp_extract_curly_payload bp = Some (left, cp)" by (cases lc) auto
  note left = payload_inside [OF lc assms(2)]
  obtain code where code: "name_code mac_exp_op_table 0 (take (strspn cp op_chars) cp) = Ok code" "code \<le> 6" using op_code by blast
  show ?thesis
  proof (cases "MAC_EXP_FIND_LEFT_CURLY (drop (strspn cp op_chars) cp)")
    case None
    then show ?thesis using k lc code by (simp add: mac_exp_parse_relational_def Let_def)
  next
    case (Some rp)
    note rp = find_curly [OF Some]
    have rp_in: "inside rp bp" using rp(1) left(2) within_trans(1,2) within_dropWhile by (metis drop_strspn)
    show ?thesis
    proof (cases "mac_exp_extract_curly_payload rp")
      case None
      then show ?thesis using k lc code Some by (simp add: mac_exp_parse_relational_def Let_def)
    next
      case (Some rr)
      then obtain rite cp' where rr: "mac_exp_extract_curly_payload rp = Some (rite, cp')" by (cases rr) auto
      note rite = payload_inside [OF rr rp(2)]
      have inn: "inside rite bp" "inside cp' bp" using rite rp_in by (auto simp: inside_def)
      have "stops (obind (expand_operand a mc left) (\<lambda>(mc, left_op_buf).
          obind (expand_operand a mc rite) (\<lambda>(mc, rite_op_buf).
          obind (mac_exp_eval (errno_ERANGE g (mc_context mc)) left_op_buf code rite_op_buf) (\<lambda>op_result.
            if mc_status mc AND MAC_PARSE_ERROR \<noteq> 0 then Ok (mc, None)
            else Ok (mc, Some (if op_result then MAC_EXP_BVAL_TRUE else MAC_EXP_BVAL_FALSE, cp'))))))
          (\<lambda>(mc, r). keeps f k res level mc \<and>
            (case r of None \<Rightarrow> True | Some (v, cp) \<Rightarrow> v \<in> {[], MAC_EXP_BVAL_TRUE} \<and> inside cp bp))"
        if "code \<noteq> MAC_EXP_OP_TOK_NONE"
        using that code(2) inn(2)
        by (auto intro!: stops_bind [OF expand_operand_stops [OF sub [OF left(1)] k]]
            stops_bind [OF expand_operand_stops [OF sub [OF inn(1)]]] stops_bind [OF mac_exp_eval_stops] simp: MAC_EXP_BVAL_FALSE_def)
      then show ?thesis using k lc code rr \<open>MAC_EXP_FIND_LEFT_CURLY _ = Some rp\<close>
        by (simp add: mac_exp_parse_relational_def Let_def)
    qed
  qed
qed

text \<open>The branches of the call-back, given that the texts they parse end.\<close>

definition looked_up :: "'c mac_exp_lookup_fn \<Rightarrow> string \<Rightarrow> bool" where
  "looked_up k v \<longleftrightarrow> v = MAC_EXP_BVAL_TRUE \<or> (\<exists>name mode c. fst (k name mode c) = Some v)"

lemma expr_head_stops:
  assumes sub: "\<And>u. CHR ''{'' \<in> set buf \<Longrightarrow> inside u buf \<Longrightarrow> parses a f k [] 0 u" and k: "keeps f k res level mc"
  shows "stops (expr_head g a mc buf) (\<lambda>(mc, h). keeps f k res level mc \<and>
    (case h of None \<Rightarrow> True | Some (v, ch, cp) \<Rightarrow>
      ch \<in> {CHR ''?'', CHR '':'', NUL} \<and> (ch \<noteq> NUL \<longrightarrow> inside cp buf) \<and> (\<forall>t. v = Some t \<longrightarrow> t = [] \<or> looked_up k t)))"
proof (cases "MAC_EXP_FIND_LEFT_CURLY buf")
  case None
  have "looked_up k t" if "mc_lookup mc name mode (mc_context mc) = (Some t, c)" for name mode t c
    using that k unfolding looked_up_def keeps_def by (metis fst_conv)
  with None k name_scan_inside show ?thesis
    by (fastforce simp: expr_head_def Let_def split: option.split prod.split)
next
  case (Some cp)
  note cp = find_curly [OF Some]
  have "parses a f k [] 0 u" if "inside u cp" for u using sub [OF cp(4)] that cp(1) within_trans(3) by blast
  note rel = relational_stops [OF this cp(2) k]
  have "inside r buf" if "inside (c # r) cp" for c r
    using that cp(1) by (auto simp: inside_def within_def)
  then show ?thesis
    unfolding expr_head_def Some option.case
    by (intro stops_bind [OF rel]) (auto simp: looked_up_def split: option.split list.split)
qed


lemma case_colon_stops:
  assumes "\<And>u. within u cp \<Longrightarrow> parses a f k res level u" "keeps f k res level mc"
  shows "stops (case_colon a v cp mc) (\<lambda>(_, mc). keeps f k res level mc)"
proof (cases "result_operand cp")
  case (Some pr)
  then obtain p r where pr: "result_operand cp = Some (p, r)" by (cases pr) auto
  have "stops (if \<not> nonempty v \<or> flag_set mc MAC_EXP_FLAG_SCAN then parse_into a p mc else Ok mc) (keeps f k res level)"
    using assms result_operand_within [OF pr] by (auto intro!: parse_into_stops)
  then show ?thesis
    unfolding case_colon_def pr option.case prod.case by (rule stops_bind) simp
qed (use assms(2) in \<open>simp add: case_colon_def\<close>)

lemma case_question_stops:
  assumes sub: "\<And>u. within u cp \<Longrightarrow> parses a f k res level u" and "keeps f k res level mc"
  shows "stops (case_question a v cp mc) (\<lambda>(_, mc). keeps f k res level mc)"
proof (cases "result_operand cp")
  case (Some pr)
  then obtain p r where pr: "result_operand cp = Some (p, r)" by (cases pr) auto
  have "stops (if nonempty v \<or> flag_set mc MAC_EXP_FLAG_SCAN then parse_into a p mc else Ok mc) (keeps f k res level)"
    using assms result_operand_within [OF pr] by (auto intro!: parse_into_stops)
  moreover have "parses a f k res level u" if "r \<noteq> []" "within u (tl r)" for u
    using sub that result_operand_within [OF pr] inside_tl [of r] by (meson within_trans(1) within_def inside_def less_imp_le)
  ultimately show ?thesis
    unfolding case_question_def pr option.case prod.case by (elim stops_bind) (auto intro!: case_colon_stops)
qed (use assms(2) in \<open>simp add: case_question_def\<close>)

lemma case_end_stops:
  assumes "\<And>t. f AND MAC_EXP_FLAG_RECURSE \<noteq> 0 \<Longrightarrow> v = Some t \<Longrightarrow> t \<noteq> [] \<Longrightarrow> parses a f k res level t" "keeps f k res level mc"
  shows "stops (case_end g a v mc) (\<lambda>(_, mc). keeps f k res level mc)"
proof (cases v)
  case (Some t)
  have "stops (obind (parse_into a t mc) (\<lambda>mc. Ok (True, mc))) (\<lambda>(_, mc). keeps f k res level mc)"
    if "flag_set mc MAC_EXP_FLAG_RECURSE" "t \<noteq> []"
    using assms Some that by (intro stops_bind [OF parse_into_stops]) (auto simp: flag_set_def keeps_def)
  with Some assms(2) show ?thesis by (auto simp: case_end_def keeps_def flag_set_def)
qed (use assms(2) in \<open>simp add: case_end_def\<close>)

lemma callback_body_stops:
  assumes "keeps f k res level mc"
    and parts: "\<And>u. type = MAC_PARSE_EXPR \<Longrightarrow> mc_level mc \<le> 100 \<Longrightarrow> inside u buf \<Longrightarrow> parses a f k res (Suc level) u"
    and operands: "\<And>u. type = MAC_PARSE_EXPR \<Longrightarrow> mc_level mc \<le> 100 \<Longrightarrow> CHR ''{'' \<in> set buf \<Longrightarrow> inside u buf \<Longrightarrow> parses a f k [] 0 u"
    and results: "\<And>t. type = MAC_PARSE_EXPR \<Longrightarrow> mc_level mc \<le> 100 \<Longrightarrow> f AND MAC_EXP_FLAG_RECURSE \<noteq> 0 \<Longrightarrow> looked_up k t \<Longrightarrow> parses a f k res (Suc level) t"
  shows "stops (callback_body g a type buf mc) (\<lambda>(_, mc). keeps f k res level mc)"
proof -
  let ?mc = "mc\<lparr>mc_level := mc_level mc + 1\<rparr>"
  have k: "keeps f k res (Suc level) ?mc" "keeps f k res level ?mc" using assms(1) by (auto simp: keeps_def)
  have sub: "parses a f k res (Suc level) u" if "type = MAC_PARSE_EXPR" "mc_level mc \<le> 100" "inside cp buf" "within u cp" for cp u
    using parts that within_trans(2) by blast
  have expr: "stops (expr_case g a buf ?mc) (\<lambda>(_, mc). keeps f k res (Suc level) mc)" if "type = MAC_PARSE_EXPR" "mc_level mc \<le> 100"
    unfolding expr_case_def
    by (rule stops_bind [OF expr_head_stops [OF operands [OF that] k(1)]])
      (use sub [OF that] results [OF that] in
        \<open>auto intro!: case_question_stops case_colon_stops case_end_stops split: option.split\<close>)
  have body: "stops (obind (if type = MAC_PARSE_EXPR then expr_case g a buf ?mc else Ok (True, literal_case buf ?mc)) (\<lambda>(leave, mc).
      let mc = (if leave then mc\<lparr>mc_level := mc_level mc - 1\<rparr> else mc) in Ok (mc_status mc, mc))) (\<lambda>(_, mc). keeps f k res level mc)"
    if "mc_level mc \<le> 100"
  proof (rule stops_bind [where P = "\<lambda>(_, mc). keeps f k res (Suc level) mc"], goal_cases)
    case 1
    then show ?case using expr [OF _ that] k(1) by (simp add: literal_case_def keeps_def flag_set_def)
  qed (auto simp: Let_def keeps_def)
  show ?thesis
    unfolding callback_body_def Let_def using body k(2) by (auto simp: Let_def mac_exp_parse_error_def keeps_def)
qed

text \<open>
  The depth that is enough. Without recursion into values every nested call has a shorter text. With it,
  values without braces have no relational expressions, so that every call inside them is one level
  deeper, and beyond level 100 the call-back returns at once.
\<close>

lemma parses_callback:
  assumes "\<And>type t mc. keeps f k res level mc \<Longrightarrow> t \<noteq> [] \<Longrightarrow> set t \<subseteq> set u \<Longrightarrow>
    (if type = MAC_PARSE_EXPR then length t < length u else length t \<le> length u) \<Longrightarrow>
    stops (a type t mc) (\<lambda>(_, mc). keeps f k res level mc)"
  shows "parses a f k res level u"
  using assms unfolding parses_def by (intro allI impI mac_parse_stops) (auto simp: split_def)

lemma plain_stops:
  assumes "f AND MAC_EXP_FLAG_RECURSE = 0" "keeps f k res level mc"
    and "if type = MAC_PARSE_EXPR then length t < n else 0 < n"
  shows "stops (mac_expand_callback n g type t mc) (\<lambda>(_, mc). keeps f k res level mc)"
  using assms(2,3)
proof (induction n arbitrary: type t mc res level)
  case (Suc n)
  have "parses (mac_expand_callback n g) f k res level u" if "type = MAC_PARSE_EXPR" "inside u t" for u res level
    by (rule parses_callback, rule Suc.IH) (use Suc.prems that in \<open>auto simp: inside_def split: if_splits\<close>)
  then show ?case
    unfolding mac_expand_callback.simps using assms(1) Suc.prems(1) by (intro callback_body_stops) auto
qed (simp split: if_splits)

lemma brace_free_stops:
  assumes values_ok: "\<And>v. looked_up k v \<Longrightarrow> CHR ''{'' \<notin> set v" and "keeps f k res level mc" "CHR ''{'' \<notin> set t"
    and "0 < n" "102 \<le> n + level"
  shows "stops (mac_expand_callback n g type t mc) (\<lambda>(_, mc). keeps f k res level mc)"
  using assms(2-)
proof (induction n arbitrary: type t mc level)
  case (Suc n)
  have "parses (mac_expand_callback n g) f k res (Suc level) u" if "mc_level mc \<le> 100" "CHR ''{'' \<notin> set u" for u
    by (rule parses_callback, rule Suc.IH) (use Suc.prems that in \<open>auto simp: keeps_def\<close>)
  with values_ok Suc.prems show ?case
    unfolding mac_expand_callback.simps by (intro callback_body_stops) (auto simp: inside_def)
qed simp

lemma recursive_stops:
  assumes values_ok: "\<And>v. looked_up k v \<Longrightarrow> CHR ''{'' \<notin> set v" and "keeps f k res level mc"
    and "if type = MAC_PARSE_EXPR then length t + 103 \<le> n else 0 < n"
  shows "stops (mac_expand_callback n g type t mc) (\<lambda>(_, mc). keeps f k res level mc)"
  using assms(2-)
proof (induction n arbitrary: type t mc res level)
  case (Suc n)
  have parts: "parses (mac_expand_callback n g) f k res level u" if "type = MAC_PARSE_EXPR" "inside u t" for u res level
    by (rule parses_callback, rule Suc.IH) (use Suc.prems that in \<open>auto simp: inside_def split: if_splits\<close>)
  have results: "parses (mac_expand_callback n g) f k res level v" if "type = MAC_PARSE_EXPR" "looked_up k v" for v level
    by (rule parses_callback, rule brace_free_stops [OF values_ok]) (use Suc.prems that values_ok in \<open>auto split: if_splits\<close>)
  show ?case
    unfolding mac_expand_callback.simps using Suc.prems(1) parts results by (intro callback_body_stops) auto
qed (simp split: if_splits)


lemma and_or_eq_0: "a AND (b OR c) = 0 \<longleftrightarrow> a AND b = 0 \<and> a AND (c::nat) = 0"
  by (auto simp: bit_eq_iff bit_simps)

text \<open>
  C8: Expansion always comes to an end when values are not expanded again (without
  \<open>MAC_EXP_FLAG_RECURSE\<close>), whatever the pattern and the lookup routine are, and also when they are, as
  long as no value contains a brace: the nesting is at most the length of the pattern, plus 102 for the
  values. It ends with a result, or with the fatal error for a number out of range, never in the panics
  for unknown operators; the result does not depend on the depth of the stack, and a scan leaves
  the result buffer alone.
\<close>

theorem mac_expand_ends:
  assumes "flags AND MAC_EXP_FLAG_RECURSE = 0 \<and> length pattern \<le> n \<or>
    (\<forall>name mode c v. fst (lookup name mode c) = Some v \<longrightarrow> CHR ''{'' \<notin> set v) \<and> length pattern + 102 \<le> n"
  shows "stops (mac_expand n g result pattern flags filt lookup ctx)
      (\<lambda>(status, res, ctx'). flags AND MAC_EXP_FLAG_SCAN \<noteq> 0 \<longrightarrow> res = result) \<and>
    (\<forall>m\<ge>n. mac_expand m g result pattern flags filt lookup ctx = mac_expand n g result pattern flags filt lookup ctx)"
proof -
  have "parses (mac_expand_callback n g) flags lookup result 0 pattern"
    using assms
  proof (elim disjE conjE)
    assume "flags AND MAC_EXP_FLAG_RECURSE = 0" "length pattern \<le> n"
    then show ?thesis by (intro parses_callback plain_stops) (auto simp flip: length_greater_0_conv split: if_splits)
  next
    assume v: "\<forall>name mode c v. fst (lookup name mode c) = Some v \<longrightarrow> CHR ''{'' \<notin> set v" "length pattern + 102 \<le> n"
    then have "CHR ''{'' \<notin> set v" if "looked_up lookup v" for v
      using that by (auto simp: looked_up_def MAC_EXP_BVAL_TRUE_def)
    with v(2) show ?thesis by (intro parses_callback recursive_stops) (auto split: if_splits)
  qed
  then have *: "stops (mac_expand n g result pattern flags filt lookup ctx)
      (\<lambda>(status, res, ctx'). flags AND MAC_EXP_FLAG_SCAN \<noteq> 0 \<longrightarrow> res = result)"
    unfolding mac_expand_def mac_expand_with_def Let_def
    by (elim parses_bind) (auto simp: keeps_def and_or_eq_0)
  then show ?thesis by (auto intro: mac_expand_more_stack)
qed

text \<open>The attribute \<open>n\<close> refers to the attribute \<open>v\<close>; all others are not defined.\<close>

definition two_names :: "unit mac_exp_lookup_fn" where
  "two_names name mode c = (if name = ''n'' then Some ''$v!'' else if name = ''v'' then Some ''12'' else None, c)"

definition quiet :: "unit globals" where
  "quiet = \<lparr>util_utf8_enable = False, errno_ERANGE = (\<lambda>_. False)\<rparr>"

theorem mac_expand_ends_witness:
  "stops (mac_expand 120 quiet ''old'' ''${n?<$n>}'' 5 None two_names ()) (\<lambda>(status, res, ctx'). res = ''old'') \<and>
   mac_expand 500 quiet ''old'' ''${n?<$n>}'' 5 None two_names () = mac_expand 120 quiet ''old'' ''${n?<$n>}'' 5 None two_names ()"
proof -
  have "\<forall>name mode c v. fst (two_names name mode c) = Some v \<longrightarrow> CHR ''{'' \<notin> set v" by (simp add: two_names_def)
  then have ends: "stops (mac_expand 120 quiet ''old'' ''${n?<$n>}'' 5 None two_names ()) (\<lambda>(status, res, ctx'). 5 AND MAC_EXP_FLAG_SCAN \<noteq> 0 \<longrightarrow> res = ''old'') \<and>
      (\<forall>m\<ge>120. mac_expand m quiet ''old'' ''${n?<$n>}'' 5 None two_names () = mac_expand 120 quiet ''old'' ''${n?<$n>}'' 5 None two_names ())"
    by (intro mac_expand_ends) simp
  have scan: "(5::nat) AND MAC_EXP_FLAG_SCAN \<noteq> 0" by (simp add: MAC_EXP_FLAG_SCAN_def)
  show ?thesis
    using ends [THEN conjunct1] ends [THEN conjunct2, rule_format, of 500] unfolding eqTrueI [OF scan] by simp
qed

section \<open>Expansion that never ends\<close>

definition self_reference :: "unit mac_exp_lookup_fn" where
  "self_reference name mode c = (if name = ''a'' then Some ''${{$a} == {}}'' else None, c)"

lemma self_reference_a: "self_reference ''a'' mode c = (Some ''${{$a} == {}}'', c)"
  by (simp add: self_reference_def)

lemma parse_self_reference:
  "mac_parse action ''$a'' mc = MAC_PARSE_ACTION action 0 MAC_PARSE_EXPR ''a'' mc"
  "mac_parse action ''${{$a} == {}}'' mc = MAC_PARSE_ACTION action 0 MAC_PARSE_EXPR ''{$a} == {}'' mc"
  by (simp_all add: mac_parse_def flush_literal_def mac_reference_def attr_char_def ctype_defs outcome_simps split_def)

lemma relational_diverges:
  assumes "\<And>mc. mc_flags mc = MAC_EXP_FLAG_RECURSE \<Longrightarrow> mc_lookup mc = self_reference \<Longrightarrow> mc_status mc = 0 \<Longrightarrow> mc_level mc = 0 \<Longrightarrow>
    action MAC_PARSE_EXPR ''a'' mc = Diverge"
    and "mc_flags mc = MAC_EXP_FLAG_RECURSE" "mc_lookup mc = self_reference" "mc_status mc = 0" "mc_level mc = 1"
  shows "callback_body g action MAC_PARSE_EXPR ''{$a} == {}'' mc = Diverge"
proof -
  have "expand_operand action mc' ''$a'' = Diverge" if "mc_flags mc' = MAC_EXP_FLAG_RECURSE" "mc_lookup mc' = self_reference" for mc'
    using assms(1) that by (simp add: expand_operand_def mac_expand_with_def parse_self_reference MAC_PARSE_ACTION_def)
  then show ?thesis
    using assms(2-)
    by (simp add: callback_body_def expr_case_def expr_head_def MAC_EXP_FIND_LEFT_CURLY_def MAC_EXP_WHITESPACE_def
        mac_exp_parse_relational_def mac_exp_extract_curly_payload_def op_chars_def strspn_def name_code_def mac_exp_op_table_def op_tok_defs
        strcasecmp_def TOLOWER_def ctype_defs)
qed

lemma self_reference_diverges:
  assumes "mc_flags mc = MAC_EXP_FLAG_RECURSE" "mc_lookup mc = self_reference" "mc_status mc = 0" "mc_level mc = 0"
  shows "mac_expand_callback n g MAC_PARSE_EXPR ''a'' mc = Diverge"
  using assms
proof (induction n arbitrary: mc rule: less_induct)
  case (less n)
  have "mac_expand_callback m g MAC_PARSE_EXPR ''{$a} == {}'' mc' = Diverge"
    if "m < n" "mc_flags mc' = MAC_EXP_FLAG_RECURSE" "mc_lookup mc' = self_reference" "mc_status mc' = 0" "mc_level mc' = 1" for m mc'
    using that less.IH by (cases m) (auto intro: relational_diverges)
  with less.prems show ?case
    by (cases n) (auto simp: callback_body_def expr_case_def expr_head_def MAC_EXP_FIND_LEFT_CURLY_def MAC_EXP_WHITESPACE_def strspn_def
        self_reference_a ctype_defs case_end_def flag_set_def MAC_EXP_FLAG_SCAN_def MAC_EXP_FLAG_RECURSE_def parse_into_def
        parse_self_reference MAC_PARSE_ACTION_def)
qed

text \<open>
  C37: The nesting limit does not count relational expressions, whose operands are expanded with a fresh
  context: an attribute that refers to itself inside one is expanded for ever, at any depth of the stack.
\<close>

theorem mac_expand_diverges:
  "mac_expand n g result ''$a'' MAC_EXP_FLAG_RECURSE filt self_reference () = Diverge"
  by (simp add: mac_expand_def mac_expand_with_def parse_self_reference MAC_PARSE_ACTION_def self_reference_diverges)

end
