(* ===== verification/Mac_meaning.thy ===== *)
theory Mac_meaning
  imports Mac_expand
begin

text \<open>
  The language of \<open>mac_expand\<close>, as described at the head of \<open>src/util/mac_expand.c\<close>: an abstract syntax,
  the texts that express it, and its meaning. Expanding the text of an expression gives its meaning.
\<close>

section \<open>Abstract syntax\<close>

datatype relop = Op_EQ | Op_NE | Op_LT | Op_LE | Op_GE | Op_GT

text \<open>
  A pattern is a list of macros: text, a reference \<open>$name\<close> or \<open>${name}\<close>, or a conditional, which tests a name
  or a relational expression and has up to two result texts, in braces or, as the last one, without.
\<close>

datatype macro =
    Text string
  | Attr bool string
  | Cond guard branch branch
and guard =
    Defined string
  | Rel "macro list" relop "macro list"
and branch =
    Absent
  | Curly "macro list"
  | Rest "macro list"

section \<open>Texts\<close>

primrec op_text :: "relop \<Rightarrow> string" where
  "op_text Op_EQ = ''==''"
| "op_text Op_NE = ''!=''"
| "op_text Op_LT = ''<''"
| "op_text Op_LE = ''<=''"
| "op_text Op_GE = ''>=''"
| "op_text Op_GT = ''>''"

text \<open>The text of a pattern, with the blanks \<open>sp\<close> wherever blanks are ignored.\<close>

primrec macro_piece :: "string \<Rightarrow> macro \<Rightarrow> piece"
  and guard_text :: "string \<Rightarrow> guard \<Rightarrow> string"
  and branch_text :: "string \<Rightarrow> branch \<Rightarrow> char \<Rightarrow> string" where
  "macro_piece sp (Text t) = Plain t"
| "macro_piece sp (Attr braced n) = (if braced then Brace n else Named n)"
| "macro_piece sp (Cond g t e) = Brace (guard_text sp g @ branch_text sp t CHR ''?'' @ branch_text sp e CHR '':'')"
| "guard_text sp (Defined n) = n"
| "guard_text sp (Rel l op r) =
     sp @ ''{'' @ pieces_text (map (macro_piece sp) l) @ ''}'' @ sp @ op_text op @ sp @
     ''{'' @ pieces_text (map (macro_piece sp) r) @ ''}'' @ sp"
| "branch_text sp Absent = (\<lambda>c. [])"
| "branch_text sp (Curly ms) = (\<lambda>c. c # sp @ ''{'' @ pieces_text (map (macro_piece sp) ms) @ ''}'' @ sp)"
| "branch_text sp (Rest ms) = (\<lambda>c. c # pieces_text (map (macro_piece sp) ms))"

abbreviation macros_text :: "string \<Rightarrow> macro list \<Rightarrow> string" where
  "macros_text sp ms \<equiv> pieces_text (map (macro_piece sp) ms)"

section \<open>Meaning\<close>

primrec rel_holds :: "relop \<Rightarrow> int \<Rightarrow> int \<Rightarrow> bool" where
  "rel_holds Op_EQ x y \<longleftrightarrow> x = y"
| "rel_holds Op_NE x y \<longleftrightarrow> x \<noteq> y"
| "rel_holds Op_LT x y \<longleftrightarrow> x < y"
| "rel_holds Op_LE x y \<longleftrightarrow> x \<le> y"
| "rel_holds Op_GE x y \<longleftrightarrow> x \<ge> y"
| "rel_holds Op_GT x y \<longleftrightarrow> x > y"

text \<open>Numbers are compared by value, other texts in lexicographic order; a number out of range is fatal.\<close>

definition number :: "bool \<Rightarrow> string \<Rightarrow> int outcome" where
  "number erange s =
     (if erange \<or> int (digits_value s 0) > LONG_MAX then Fatal (''mac_exp_eval: bad conversion: '' @ s)
      else Ok (int (digits_value s 0)))"

definition compare_texts :: "bool \<Rightarrow> relop \<Rightarrow> string \<Rightarrow> string \<Rightarrow> bool outcome" where
  "compare_texts erange op l r =
     (if alldig l \<and> alldig r
      then obind (number erange l) (\<lambda>x. obind (number erange r) (\<lambda>y. Ok (rel_holds op x y)))
      else Ok (rel_holds op (strcmp l r) 0))"

text \<open>The state that an expansion changes: the result, the status and the state of the lookup routine.\<close>

type_synonym 'c mstate = "string \<times> nat \<times> 'c"

fun in_order :: "('s \<Rightarrow> 's outcome) list \<Rightarrow> 's \<Rightarrow> 's outcome" where
  "in_order [] s = Ok s"
| "in_order (m # ms) s = obind (m s) (in_order ms)"

definition show_value :: "(string \<Rightarrow> string) \<Rightarrow> string option \<Rightarrow> 'c mstate \<Rightarrow> 'c mstate" where
  "show_value fl v = (\<lambda>(res, st, c). case v of None \<Rightarrow> (res, st OR MAC_PARSE_UNDEF, c) | Some v \<Rightarrow> (res @ fl v, st, c))"

primrec mean :: "('c \<Rightarrow> bool) \<Rightarrow> 'c mac_exp_lookup_fn \<Rightarrow> (string \<Rightarrow> string) \<Rightarrow> macro \<Rightarrow> 'c mstate \<Rightarrow> 'c mstate outcome"
  and mean_guard :: "('c \<Rightarrow> bool) \<Rightarrow> 'c mac_exp_lookup_fn \<Rightarrow> (string \<Rightarrow> string) \<Rightarrow> guard \<Rightarrow> 'c mstate \<Rightarrow> (string option \<times> 'c mstate) outcome"
  and mean_branch :: "('c \<Rightarrow> bool) \<Rightarrow> 'c mac_exp_lookup_fn \<Rightarrow> (string \<Rightarrow> string) \<Rightarrow> branch \<Rightarrow> 'c mstate \<Rightarrow> 'c mstate outcome" where
  "mean er k fl (Text t) = (\<lambda>(res, st, c). Ok (res @ t, st, c))"
| "mean er k fl (Attr braced n) = (\<lambda>(res, st, c). let (v, c) = k n MAC_EXP_MODE_USE c in Ok (show_value fl v (res, st, c)))"
| "mean er k fl (Cond g t e) = (\<lambda>s.
     obind (mean_guard er k fl g s) (\<lambda>(v, s).
       if t = Absent \<and> e = Absent then Ok (show_value fl v s)
       else if nonempty v then mean_branch er k fl t s else mean_branch er k fl e s))"
| "mean_guard er k fl (Defined n) = (\<lambda>(res, st, c). let (v, c) = k n MAC_EXP_MODE_TEST c in Ok (v, res, st, c))"
| "mean_guard er k fl (Rel l op r) = (\<lambda>(res, st, c).
     obind (in_order (map (mean er k fl) l) ([], 0, c)) (\<lambda>(lb, ls, c).
     obind (in_order (map (mean er k fl) r) ([], 0, c)) (\<lambda>(rb, rs, c).
     obind (compare_texts (er c) op lb rb) (\<lambda>b.
       Ok (Some (if b then ''true'' else []), res, st OR ls OR rs, c)))))"
| "mean_branch er k fl Absent = Ok"
| "mean_branch er k fl (Curly ms) = in_order (map (mean er k fl) ms)"
| "mean_branch er k fl (Rest ms) = in_order (map (mean er k fl) ms)"

section \<open>Well-formed patterns\<close>

text \<open>
  Names are made of letters, digits and underscores; braces come in pairs; only the last result may stand
  without braces, and then it does not look like one in braces; conditionals nest at most 100 deep,
  counted anew in the operands of a relational expression.
\<close>

definition blanks :: "string \<Rightarrow> bool" where
  "blanks sp \<longleftrightarrow> set sp \<subseteq> set MAC_EXP_WHITESPACE"

abbreviation in_pairs :: "string \<Rightarrow> bool" where
  "in_pairs \<equiv> nested CHR ''{'' CHR ''}'' 0"

primrec macro_ok :: "string \<Rightarrow> macro \<Rightarrow> nat \<Rightarrow> bool"
  and guard_ok :: "string \<Rightarrow> guard \<Rightarrow> bool"
  and branch_ok :: "string \<Rightarrow> branch \<Rightarrow> nat \<Rightarrow> bool" where
  "macro_ok sp (Text t) = (\<lambda>level. level \<le> 100)"
| "macro_ok sp (Attr braced n) = (\<lambda>level. level \<le> 100 \<and> n \<noteq> [] \<and> list_all attr_char n)"
| "macro_ok sp (Cond g t e) = (\<lambda>level. level \<le> 100 \<and> guard_ok sp g \<and> branch_ok sp t (level + 1) \<and> branch_ok sp e (level + 1) \<and>
     (case g of Defined n \<Rightarrow> t \<noteq> Absent \<or> e \<noteq> Absent | _ \<Rightarrow> True) \<and> (case t of Rest _ \<Rightarrow> e = Absent | _ \<Rightarrow> True))"
| "guard_ok sp (Defined n) \<longleftrightarrow> n \<noteq> [] \<and> list_all attr_char n"
| "guard_ok sp (Rel l op r) \<longleftrightarrow>
     list_all (\<lambda>ok. ok 0) (map (macro_ok sp) l) \<and> pieces_ok (map (macro_piece sp) l) \<and> in_pairs (macros_text sp l) \<and>
     list_all (\<lambda>ok. ok 0) (map (macro_ok sp) r) \<and> pieces_ok (map (macro_piece sp) r) \<and> in_pairs (macros_text sp r)"
| "branch_ok sp Absent = (\<lambda>level. True)"
| "branch_ok sp (Curly ms) = (\<lambda>level.
     list_all (\<lambda>ok. ok level) (map (macro_ok sp) ms) \<and> pieces_ok (map (macro_piece sp) ms) \<and> in_pairs (macros_text sp ms))"
| "branch_ok sp (Rest ms) = (\<lambda>level.
     list_all (\<lambda>ok. ok level) (map (macro_ok sp) ms) \<and> pieces_ok (map (macro_piece sp) ms) \<and>
     MAC_EXP_FIND_LEFT_CURLY (macros_text sp ms) = None)"

definition macros_ok :: "string \<Rightarrow> macro list \<Rightarrow> nat \<Rightarrow> bool" where
  "macros_ok sp ms level \<longleftrightarrow> list_all (\<lambda>ok. ok level) (map (macro_ok sp) ms) \<and> pieces_ok (map (macro_piece sp) ms)"

section \<open>Reading the texts\<close>

lemma curly_scan_nested: "nested CHR ''{'' CHR ''}'' level r \<Longrightarrow> curly_scan (Suc level) (r @ CHR ''}'' # rest) = Some (r, rest)"
proof (induction r arbitrary: level)
  case (Cons c r)
  then show ?case by (cases level) (auto split: if_splits)
qed simp

definition solid :: "string \<Rightarrow> bool" where
  "solid s \<longleftrightarrow> s = [] \<or> hd s \<notin> set MAC_EXP_WHITESPACE"

lemma skip_blanks: "blanks sp \<Longrightarrow> solid rest \<Longrightarrow> dropWhile (\<lambda>c. c \<in> set MAC_EXP_WHITESPACE) (sp @ rest) = rest"
  by (rule dropWhile_app) (auto simp: blanks_def solid_def list_all_iff)

lemma solid_special [simp]: "solid []" "solid (CHR ''{'' # s)" "solid (CHR ''?'' # s)" "solid (CHR '':'' # s)" "solid (op_text op @ s)"
  by (cases op; simp add: solid_def MAC_EXP_WHITESPACE_def)+

lemma find_curly_text: "blanks sp \<Longrightarrow> MAC_EXP_FIND_LEFT_CURLY (sp @ CHR ''{'' # s) = Some (CHR ''{'' # s)"
  unfolding MAC_EXP_FIND_LEFT_CURLY_def drop_strspn by (simp add: skip_blanks)

lemma payload_text: "blanks sp \<Longrightarrow> in_pairs r \<Longrightarrow> solid rest \<Longrightarrow>
    mac_exp_extract_curly_payload (CHR ''{'' # r @ CHR ''}'' # sp @ rest) = Some (r, rest)"
  using curly_scan_nested [of 0 r "sp @ rest"] unfolding mac_exp_extract_curly_payload_def drop_strspn by (simp add: skip_blanks)

lemma operand_text: "blanks sp \<Longrightarrow> in_pairs r \<Longrightarrow> solid rest \<Longrightarrow>
    result_operand (sp @ CHR ''{'' # r @ CHR ''}'' # sp @ rest) = Some (r, rest)"
  by (simp add: result_operand_def find_curly_text payload_text)

lemma attr_char_other: "attr_char c \<Longrightarrow> c \<notin> {CHR ''?'', CHR '':'', CHR ''{''} \<and> c \<notin> set MAC_EXP_WHITESPACE"
  by (auto simp: attr_char_def MAC_EXP_WHITESPACE_def ctype_defs)

lemma name_scan_text:
  "list_all attr_char n \<Longrightarrow> name_scan n = Some (n, NUL, [])"
  "list_all attr_char n \<Longrightarrow> c \<in> {CHR ''?'', CHR '':''} \<Longrightarrow> name_scan (n @ c # rest) = Some (n, c, rest)"
  by (induction n) (use attr_char_other in \<open>auto simp: attr_char_def\<close>)

lemma no_curly_name: "n \<noteq> [] \<Longrightarrow> list_all attr_char n \<Longrightarrow> MAC_EXP_FIND_LEFT_CURLY (n @ rest) = None"
  by (cases n) (auto simp: MAC_EXP_FIND_LEFT_CURLY_def dest: attr_char_other)

primrec op_tok :: "relop \<Rightarrow> nat" where
  "op_tok Op_EQ = 1"
| "op_tok Op_NE = 2"
| "op_tok Op_LT = 3"
| "op_tok Op_LE = 4"
| "op_tok Op_GE = 5"
| "op_tok Op_GT = 6"

lemma op_span:
  assumes "blanks sp"
  shows "strspn (op_text op @ sp @ CHR ''{'' # s) op_chars = length (op_text op)"
proof -
  have "takeWhile (\<lambda>c. c \<in> set op_chars) (op_text op @ sp @ CHR ''{'' # s) = op_text op"
  proof (rule takeWhile_app)
    show "list_all (\<lambda>c. c \<in> set op_chars) (op_text op)" by (cases op) (simp_all add: op_chars_def)
    show "sp @ CHR ''{'' # s = [] \<or> hd (sp @ CHR ''{'' # s) \<notin> set op_chars"
      using assms by (cases sp) (auto simp: blanks_def MAC_EXP_WHITESPACE_def op_chars_def)
  qed
  then show ?thesis by (simp add: strspn_def)
qed

lemma op_name: "name_code mac_exp_op_table 0 (op_text op) = Ok (op_tok op)" "op_tok op \<noteq> MAC_EXP_OP_TOK_NONE"
  by (cases op; simp add: name_code_def mac_exp_op_table_def op_tok_defs strcasecmp_def TOLOWER_def ctype_defs)+

lemma atol_number: "alldig s \<Longrightarrow> atol_or_die e s = number e s"
proof -
  assume "alldig s"
  then have "takeWhile ISDIGIT s = s" "dropWhile ISDIGIT s = []" "s \<noteq> []" by (simp_all add: alldig_iff list_all_iff takeWhile_eq_all_conv)
  then show ?thesis by (simp only: atol_or_die_def strtol_digits_def number_def Let_def) auto
qed

lemma eval_compare: "mac_exp_eval e l (op_tok op) r = compare_texts e op l r"
proof -
  have test: "(if op_tok op = MAC_EXP_OP_TOK_EQ then Ok (d = 0)
       else if op_tok op = MAC_EXP_OP_TOK_NE then Ok (d \<noteq> 0)
       else if op_tok op = MAC_EXP_OP_TOK_LT then Ok (d < 0)
       else if op_tok op = MAC_EXP_OP_TOK_LE then Ok (d \<le> 0)
       else if op_tok op = MAC_EXP_OP_TOK_GE then Ok (d \<ge> 0)
       else if op_tok op = MAC_EXP_OP_TOK_GT then Ok (d > 0)
       else Panic ''mac_exp_eval: unknown operator'') = Ok (rel_holds op d 0)" for d
    by (cases op) (simp_all add: op_tok_defs)
  have diff: "rel_holds op (x - y) 0 = rel_holds op x y" for x y by (cases op) auto
  show ?thesis unfolding mac_exp_eval_def compare_texts_def test by (simp add: atol_number outcome_simps diff)
qed

lemma relational_text:
  assumes "blanks sp" "in_pairs l" "in_pairs r" "solid rest"
  shows "mac_exp_parse_relational g a mc (CHR ''{'' # l @ CHR ''}'' # sp @ op_text op @ sp @ CHR ''{'' # r @ CHR ''}'' # sp @ rest) =
    obind (expand_operand a mc l) (\<lambda>(mc, lb).
    obind (expand_operand a mc r) (\<lambda>(mc, rb).
    obind (compare_texts (errno_ERANGE g (mc_context mc)) op lb rb) (\<lambda>b.
      if odd (mc_status mc) then Ok (mc, None) else Ok (mc, Some (if b then ''true'' else [], rest)))))"
  using assms
  unfolding mac_exp_parse_relational_def MAC_EXP_BVAL_TRUE_def MAC_EXP_BVAL_FALSE_def
  by (simp add: payload_text op_span op_name find_curly_text eval_compare Let_def)

section \<open>The status\<close>

text \<open>Expansion only adds bits to the status, and never the error bit.\<close>

definition grows :: "nat \<Rightarrow> nat \<Rightarrow> bool" where
  "grows st st' \<longleftrightarrow> st OR st' = st' \<and> (even st \<longrightarrow> even st')"

lemma grows_refl [simp]: "grows st st" and grows_or [simp]: "even u \<Longrightarrow> grows st (st OR u)"
  by (simp_all add: grows_def flip: or.assoc)

lemma grows_trans: "grows a b \<Longrightarrow> grows b c \<Longrightarrow> grows a c"
  unfolding grows_def by (metis or.assoc)

definition growing :: "('c mstate \<Rightarrow> 'c mstate outcome) \<Rightarrow> bool" where
  "growing m \<longleftrightarrow> (\<forall>s s'. m s = Ok s' \<longrightarrow> grows (fst (snd s)) (fst (snd s')))"

lemma growingD: "growing m \<Longrightarrow> m s = Ok s' \<Longrightarrow> grows (fst (snd s)) (fst (snd s'))"
  unfolding growing_def by blast

lemma in_order_growing: "list_all growing ms \<Longrightarrow> growing (in_order ms)"
proof (induction ms)
  case (Cons m ms)
  show ?case
    unfolding growing_def
  proof (intro allI impI)
    fix s s' assume "in_order (m # ms) s = Ok s'"
    then obtain s1 where "m s = Ok s1" "in_order ms s1 = Ok s'" by auto
    with Cons growingD show "grows (fst (snd s)) (fst (snd s'))" by (metis grows_trans list.pred_inject(2))
  qed
qed (simp add: growing_def)

lemma growing_from_0: "growing m \<Longrightarrow> m (res, 0, c) = Ok (res', st, c') \<Longrightarrow> even st"
  by (auto dest!: growingD simp: grows_def)

lemma show_value_grows: "grows (fst (snd s)) (fst (snd (show_value fl v s)))"
  by (simp add: show_value_def split: prod.split option.split)

lemma mean_growing:
  "growing (mean er k fl m)"
  "mean_guard er k fl g s = Ok (v, s') \<Longrightarrow> grows (fst (snd s)) (fst (snd s'))"
  "growing (mean_branch er k fl b)"
proof (induction m and g and b arbitrary: and v s s' and)
  case (Attr braced n)
  have "grows st st'" if "show_value fl v (res, st, c) = (res', st', c')" for v res st c res' st' c'
    using show_value_grows [of "(res, st, c)" fl v] that by simp
  then show ?case by (auto simp: growing_def Let_def split: prod.splits)
next
  case (Cond g t e)
  show ?case
    unfolding growing_def
  proof (intro allI impI)
    fix s s' assume "mean er k fl (Cond g t e) s = Ok s'"
    then obtain v s1 where 1: "mean_guard er k fl g s = Ok (v, s1)"
      "s' = show_value fl v s1 \<or> mean_branch er k fl t s1 = Ok s' \<or> mean_branch er k fl e s1 = Ok s'"
      by (auto split: if_splits)
    have "grows (fst (snd s1)) (fst (snd s'))" using 1(2) Cond.IH(2,3) [THEN growingD] show_value_grows by blast
    then show "grows (fst (snd s)) (fst (snd s'))" by (rule grows_trans [OF Cond.IH(1) [OF 1(1)]])
  qed
next
  case (Rel l op r)
  have "growing (in_order (map (mean er k fl) l))" "growing (in_order (map (mean er k fl) r))"
    using Rel.IH by (auto intro!: in_order_growing simp: list_all_iff)
  then show ?case using Rel.prems by (auto dest!: growing_from_0 split: prod.splits)
next
  case (Curly ms)
  then show ?case by (auto intro!: in_order_growing simp: list_all_iff)
next
  case (Rest ms)
  then show ?case by (auto intro!: in_order_growing simp: list_all_iff)
qed (auto simp: growing_def Let_def split: prod.splits)

section \<open>The call-back computes the meaning\<close>

definition view :: "'c mac_exp_context \<Rightarrow> 'c mstate" where
  "view mc = (mc_result mc, mc_status mc, mc_context mc)"

definition put :: "'c mac_exp_context \<Rightarrow> 'c mstate \<Rightarrow> 'c mac_exp_context" where
  "put mc s = mc\<lparr>mc_result := fst s, mc_status := fst (snd s), mc_context := snd (snd s)\<rparr>"

lemma put_simps [simp]:
  "view (put mc s) = s" "put (put mc s) s' = put mc s'" "put mc (view mc) = mc"
  "mc_flags (put mc s) = mc_flags mc" "mc_filter (put mc s) = mc_filter mc" "mc_lookup (put mc s) = mc_lookup mc"
  "mc_level (put mc s) = mc_level mc" "mc_status (put mc s) = fst (snd s)" "mc_result (put mc s) = fst s" "mc_context (put mc s) = snd (snd s)"
  by (simp_all add: view_def put_def)

text \<open>The contexts of an expansion with the given arguments, before an error.\<close>

definition plain_ctx :: "nat \<Rightarrow> string option \<Rightarrow> 'c mac_exp_lookup_fn \<Rightarrow> nat \<Rightarrow> 'c mac_exp_context \<Rightarrow> bool" where
  "plain_ctx f ft k level mc \<longleftrightarrow> mc_flags mc = f \<and> mc_filter mc = ft \<and> mc_lookup mc = k \<and> mc_level mc = level \<and> even (mc_status mc)"

text \<open>The call-back \<open>a\<close> computes the meaning of a part, and the parser with it that of a list.\<close>

definition computes_part :: "nat \<Rightarrow> string option \<Rightarrow> 'c mac_exp_lookup_fn \<Rightarrow> nat \<Rightarrow> 'c mac_exp_context mac_action \<Rightarrow>
    mac_type \<times> string \<Rightarrow> ('c mstate \<Rightarrow> 'c mstate outcome) \<Rightarrow> bool" where
  "computes_part f ft k level a part m \<longleftrightarrow>
     (\<forall>mc. plain_ctx f ft k level mc \<longrightarrow> a (fst part) (snd part) mc = obind (m (view mc)) (\<lambda>s. Ok (fst (snd s), put mc s)))"

definition computes :: "nat \<Rightarrow> string option \<Rightarrow> 'c mac_exp_lookup_fn \<Rightarrow> nat \<Rightarrow> 'c mac_exp_context mac_action \<Rightarrow>
    string \<Rightarrow> ('c mstate \<Rightarrow> 'c mstate outcome) \<Rightarrow> bool" where
  "computes f ft k level a t m \<longleftrightarrow>
     (\<forall>mc. plain_ctx f ft k level mc \<longrightarrow>
       mac_parse a t mc = obind (m (view mc)) (\<lambda>s. Ok (if t = [] then 0 else fst (snd s), put mc s)) \<and>
       (t = [] \<longrightarrow> m (view mc) = Ok (view mc)))"

lemma parts_compute:
  assumes "list_all2 (\<lambda>p m. computes_part f ft k level a p m \<and> growing m) parts ms" "plain_ctx f ft k level mc" "grows status (mc_status mc)"
  shows "run_parts a parts status mc = obind (in_order ms (view mc)) (\<lambda>s. Ok (if parts = [] then status else fst (snd s), put mc s))"
  using assms
proof (induction parts ms arbitrary: status mc rule: list_all2_induct)
  case (Cons p parts m ms)
  obtain type t where p: "p = (type, t)" by (cases p)
  have a: "a type t mc = obind (m (view mc)) (\<lambda>s. Ok (fst (snd s), put mc s))"
    using Cons.hyps(1) Cons.prems(1) p by (simp add: computes_part_def)
  show ?case
  proof (cases "m (view mc)")
    case (Ok s)
    have g: "grows (mc_status mc) (fst (snd s))" using growingD [of m "view mc" s] Ok Cons.hyps(1) by (simp add: view_def)
    then have st: "status OR fst (snd s) = fst (snd s)" using grows_trans [OF Cons.prems(2)] by (simp add: grows_def)
    have "plain_ctx f ft k level (put mc s)" using Cons.prems(1) g by (simp add: plain_ctx_def grows_def)
    moreover have "ms = []" if "parts = []" using Cons.hyps(2) that by simp
    ultimately show ?thesis using Cons.IH [of "put mc s" "fst (snd s)"] a Ok p st
      by (cases "parts = []") (simp_all add: MAC_PARSE_ACTION_def)
  qed (use a p in \<open>simp_all add: MAC_PARSE_ACTION_def\<close>)
qed simp

lemma pieces_text_Nil: "pieces_ok ps \<Longrightarrow> pieces_text ps = [] \<longleftrightarrow> ps = []"
  by (induction ps rule: pieces_ok.induct) (auto simp: neq_Nil_conv)

lemma list_computes:
  assumes "pieces_ok (map (macro_piece sp) ms)"
    and part: "\<And>m. m \<in> set ms \<Longrightarrow> computes_part f ft k level a (piece_part (macro_piece sp m)) (mean er k fl m)"
  shows "computes f ft k level a (macros_text sp ms) (in_order (map (mean er k fl) ms))"
  unfolding computes_def
proof (intro allI impI)
  fix mc assume mc: "plain_ctx f ft k level mc"
  let ?parts = "map piece_part (map (macro_piece sp) ms)"
  have "mac_parse a (macros_text sp ms) mc = run_parts a ?parts 0 mc"
  proof (rule mac_parse_pieces [OF assms(1), where I = "plain_ctx f ft k level"])
    fix type t mc r mc'
    assume mc: "plain_ctx f ft k level mc" "(type, t) \<in> set ?parts" "a type t mc = Ok (r, mc')"
    from mc(2) obtain m where m1: "m \<in> set ms" "piece_part (macro_piece sp m) = (type, t)" by auto
    with part [OF m1(1)] mc(1,3) obtain s where m: "mean er k fl m (view mc) = Ok s" "r = fst (snd s)" "mc' = put mc s"
      by (auto simp: computes_part_def)
    then have "grows (mc_status mc) r" using growingD [OF mean_growing(1) m(1)] by (simp add: view_def)
    with mc(1) m show "even r \<and> plain_ctx f ft k level mc'" by (simp add: plain_ctx_def grows_def)
  qed (rule mc)
  also have "\<dots> = obind (in_order (map (mean er k fl) ms) (view mc)) (\<lambda>s. Ok (if ?parts = [] then 0 else fst (snd s), put mc s))"
    using part mean_growing(1) by (intro parts_compute [OF _ mc]) (auto simp: list_all2_map1 list_all2_map2 list_all2_same grows_def mc [unfolded plain_ctx_def])
  finally show "mac_parse a (macros_text sp ms) mc =
      obind (in_order (map (mean er k fl) ms) (view mc)) (\<lambda>s. Ok (if macros_text sp ms = [] then 0 else fst (snd s), put mc s)) \<and>
      (macros_text sp ms = [] \<longrightarrow> in_order (map (mean er k fl) ms) (view mc) = Ok (view mc))"
    using pieces_text_Nil [OF assms(1)] by simp
qed

lemma computes_into:
  assumes "computes f ft k level a t m" "plain_ctx f ft k level mc"
  shows "parse_into a t mc = obind (m (view mc)) (\<lambda>s. Ok (put mc s))"
proof -
  have "(put mc s)\<lparr>mc_status := fst (snd s)\<rparr> = put mc s" for s by (simp add: put_def)
  then show ?thesis
    using assms by (cases "m (view mc)") (simp_all add: parse_into_def computes_def)
qed

lemma computes_expand:
  assumes "computes f ft k 0 a t m"
  shows "mac_expand_with a result t f ft k c =
    obind (m (if f AND (MAC_EXP_FLAG_APPEND OR MAC_EXP_FLAG_SCAN) = 0 then [] else result, 0, c)) (\<lambda>(res, st, c). Ok (st, res, c))"
proof -
  let ?res = "if f AND (MAC_EXP_FLAG_APPEND OR MAC_EXP_FLAG_SCAN) = 0 then [] else result"
  let ?mc = "\<lparr>mc_result = ?res, mc_flags = f, mc_filter = ft, mc_lookup = k, mc_context = c, mc_status = 0, mc_level = 0\<rparr>"
  have v: "view ?mc = (?res, 0, c)" by (simp only: view_def mac_exp_context.simps)
  have "plain_ctx f ft k 0 ?mc" by (simp only: plain_ctx_def mac_exp_context.simps even_zero simp_thms)
  from assms [unfolded computes_def, rule_format, OF this, unfolded v]
  show ?thesis
    unfolding mac_expand_with_def Let_def by (cases "m (?res, 0, c)") (simp_all add: split_def)
qed

lemma computes_operand:
  assumes "computes f ft k 0 a t m" "plain_ctx f ft k level mc"
  shows "expand_operand a mc t = obind (m ([], 0, mc_context mc)) (\<lambda>(res, st, c). Ok (put mc (mc_result mc, mc_status mc OR st, c), res))"
proof -
  have "mac_expand_with a [] t (mc_flags mc) (mc_filter mc) (mc_lookup mc) (mc_context mc) =
      obind (m ([], 0, mc_context mc)) (\<lambda>(res, st, c). Ok (st, res, c))"
    using computes_expand [OF assms(1), of "[]" "mc_context mc"] assms(2) by (simp add: plain_ctx_def)
  then show ?thesis
    by (cases "m ([], 0, mc_context mc)") (simp_all add: expand_operand_def put_def split_def)
qed

text \<open>The result texts of a conditional.\<close>

primrec branch_computes :: "nat \<Rightarrow> string option \<Rightarrow> 'c mac_exp_lookup_fn \<Rightarrow> nat \<Rightarrow> 'c mac_exp_context mac_action \<Rightarrow>
    ('c \<Rightarrow> bool) \<Rightarrow> (string \<Rightarrow> string) \<Rightarrow> string \<Rightarrow> branch \<Rightarrow> bool" where
  "branch_computes f ft k level a er fl sp Absent \<longleftrightarrow> True"
| "branch_computes f ft k level a er fl sp (Curly ms) \<longleftrightarrow> computes f ft k level a (macros_text sp ms) (in_order (map (mean er k fl) ms))"
| "branch_computes f ft k level a er fl sp (Rest ms) \<longleftrightarrow> computes f ft k level a (macros_text sp ms) (in_order (map (mean er k fl) ms))"

lemma branch_operand:
  assumes "blanks sp" "b \<noteq> Absent" "branch_ok sp b level" "solid rest" "case b of Rest _ \<Rightarrow> rest = [] | _ \<Rightarrow> True"
  obtains u where "result_operand (tl (branch_text sp b c @ rest)) = Some (u, rest)"
    "branch_computes f ft k level a er fl sp b \<longleftrightarrow> computes f ft k level a u (mean_branch er k fl b)"
proof (cases b)
  case (Curly ms)
  then show thesis using assms operand_text [of sp "macros_text sp ms" rest] that [of "macros_text sp ms"] by simp
next
  case (Rest ms)
  then show thesis using assms that [of "macros_text sp ms"] by (simp add: result_operand_def)
qed (use assms in simp)

lemma colon_branch:
  assumes "blanks sp" "f AND MAC_EXP_FLAG_SCAN = 0" "plain_ctx f ft k level mc" "e \<noteq> Absent" "branch_ok sp e level"
    "branch_computes f ft k level a er fl sp e"
  shows "case_colon a v (tl (branch_text sp e c)) mc =
    obind (if nonempty v then Ok (view mc) else mean_branch er k fl e (view mc)) (\<lambda>s. Ok (True, put mc s))"
proof -
  have "case e of Rest _ \<Rightarrow> ([]::string) = [] | _ \<Rightarrow> True" by (simp split: branch.split)
  then obtain u where u: "result_operand (tl (branch_text sp e c)) = Some (u, [])" "computes f ft k level a u (mean_branch er k fl e)"
    using branch_operand [OF assms(1,4,5) solid_special(1), of c f ft k a er fl] assms(6) by (auto simp: append_Nil2)
  with computes_into [OF u(2) assms(3)] assms(2,3) show ?thesis
    by (simp add: case_colon_def flag_set_def plain_ctx_def outcome_simps)
qed

lemma question_branch:
  assumes "blanks sp" "f AND MAC_EXP_FLAG_SCAN = 0" "plain_ctx f ft k level mc" "t \<noteq> Absent" "branch_ok sp t level" "branch_ok sp e level"
    "case t of Rest _ \<Rightarrow> e = Absent | _ \<Rightarrow> True"
    "branch_computes f ft k level a er fl sp t" "branch_computes f ft k level a er fl sp e"
  shows "case_question a v (tl (branch_text sp t CHR ''?'' @ branch_text sp e CHR '':'')) mc =
    obind (if nonempty v then mean_branch er k fl t (view mc) else mean_branch er k fl e (view mc)) (\<lambda>s. Ok (True, put mc s))"
proof -
  have rest: "solid (branch_text sp e CHR '':'')" "case t of Rest _ \<Rightarrow> branch_text sp e CHR '':'' = [] | _ \<Rightarrow> True"
    using assms(7) by (cases e; simp split: branch.splits)+
  obtain u where u: "result_operand (tl (branch_text sp t CHR ''?'' @ branch_text sp e CHR '':'')) = Some (u, branch_text sp e CHR '':'')"
    "computes f ft k level a u (mean_branch er k fl t)"
    using branch_operand [OF assms(1,4,5) rest, of "CHR ''?''" f ft k a er fl] assms(8) by auto
  have ctx: "plain_ctx f ft k level (put mc s)" if "mean_branch er k fl t (view mc) = Ok s" for s
    using growingD [OF mean_growing(3) that] assms(3) by (simp add: plain_ctx_def view_def grows_def)
  have hd_e: "branch_text sp e CHR '':'' = [] \<longleftrightarrow> e = Absent" "e \<noteq> Absent \<Longrightarrow> hd (branch_text sp e CHR '':'') = CHR '':''"
    by (cases e; simp)+
  show ?thesis
  proof (cases "e = Absent")
    case True
    with u computes_into [OF u(2) assms(3)] assms(2,3) show ?thesis
      by (simp add: case_question_def flag_set_def plain_ctx_def outcome_simps)
  next
    case False
    note colon = colon_branch [OF assms(1,2) _ False assms(6,9), of _ v "CHR '':''"]
    from u hd_e False computes_into [OF u(2) assms(3)] assms(2,3) colon [OF assms(3)] colon [OF ctx] show ?thesis
      by (cases "mean_branch er k fl t (view mc)") (simp_all add: case_question_def flag_set_def plain_ctx_def outcome_simps)
  qed
qed

text \<open>The guard of a conditional.\<close>

primrec guard_computes :: "nat \<Rightarrow> string option \<Rightarrow> 'c mac_exp_lookup_fn \<Rightarrow> 'c mac_exp_context mac_action \<Rightarrow>
    ('c \<Rightarrow> bool) \<Rightarrow> (string \<Rightarrow> string) \<Rightarrow> string \<Rightarrow> guard \<Rightarrow> bool" where
  "guard_computes f ft k a er fl sp (Defined n) \<longleftrightarrow> True"
| "guard_computes f ft k a er fl sp (Rel l op r) \<longleftrightarrow>
     computes f ft k 0 a (macros_text sp l) (in_order (map (mean er k fl) l)) \<and>
     computes f ft k 0 a (macros_text sp r) (in_order (map (mean er k fl) r))"

lemma guard_head:
  assumes "blanks sp" "plain_ctx f ft k level mc" "guard_ok sp gd" "guard_computes f ft k a (errno_ERANGE g) fl sp gd"
    and tail: "tail = [] \<and> (\<exists>l op r. gd = Rel l op r) \<or> (\<exists>c rest. tail = c # rest \<and> c \<in> {CHR ''?'', CHR '':''})"
  shows "expr_head g a mc (guard_text sp gd @ tail) =
    obind (mean_guard (errno_ERANGE g) k fl gd (view mc)) (\<lambda>(v, s). Ok (put mc s, Some (v, if tail = [] then NUL else hd tail, tl tail)))"
proof (cases gd)
  case (Defined n)
  with tail obtain c rest where c: "tail = c # rest" "c \<in> {CHR ''?'', CHR '':''}" by auto
  have "mc\<lparr>mc_context := c\<rparr> = put mc (mc_result mc, mc_status mc, c)" for c by (simp add: put_def)
  with Defined c assms(2,3) no_curly_name [of n tail] name_scan_text(2) [of n c rest] show ?thesis
    by (auto simp: expr_head_def view_def plain_ctx_def Let_def split: prod.split)
next
  case (Rel l op r)
  have solid: "solid tail" using tail by auto
  note ops = computes_operand [of f ft k a "macros_text sp l" "in_order (map (mean (errno_ERANGE g) k fl) l)" level mc]
    computes_operand [of f ft k a "macros_text sp r" "in_order (map (mean (errno_ERANGE g) k fl) r)" level]
  have ctx: "plain_ctx f ft k level (put mc (mc_result mc, mc_status mc OR st, c))" if "even st" for st c
    using assms(2) that by (simp add: plain_ctx_def)
  have even0: "even st" if "in_order (map (mean (errno_ERANGE g) k fl) ms) ([], 0, c) = Ok (res, st, c')" for ms res st c c'
    by (rule growing_from_0 [OF in_order_growing that]) (simp add: list_all_iff mean_growing(1))
  let ?L = "in_order (map (mean (errno_ERANGE g) k fl) l) ([], 0, mc_context mc)"
  let ?R = "\<lambda>c. in_order (map (mean (errno_ERANGE g) k fl) r) ([], 0, c)"
  have rel: "mac_exp_parse_relational g a mc (CHR ''{'' # macros_text sp l @ CHR ''}'' # sp @ op_text op @ sp @ CHR ''{'' # macros_text sp r @ CHR ''}'' # sp @ tail) =
    obind (mean_guard (errno_ERANGE g) k fl gd (view mc)) (\<lambda>(v, s). Ok (put mc s, Some (the v, tail)))"
  proof (cases ?L)
    case (Ok lr)
    then obtain lb ls c1 where L: "?L = Ok (lb, ls, c1)" by (cases lr) auto
    let ?mc = "put mc (mc_result mc, mc_status mc OR ls, c1)"
    have mc1: "plain_ctx f ft k level ?mc" using ctx even0 [OF L] by blast
    show ?thesis
    proof (cases "?R c1")
      case (Ok rr)
      then obtain rb rs c2 where R: "?R c1 = Ok (rb, rs, c2)" by (cases rr) auto
      show ?thesis
        using relational_text [OF assms(1) _ _ solid, of "macros_text sp l" "macros_text sp r" g a mc op] assms(3,4) Rel ops(1) [OF _ assms(2)] ops(2) [OF _ mc1]
          L R even0 [OF L] even0 [OF R] assms(2)
        by (cases "compare_texts (errno_ERANGE g c2) op lb rb") (simp_all add: plain_ctx_def view_def or.assoc)
    qed (use relational_text [OF assms(1) _ _ solid, of "macros_text sp l" "macros_text sp r" g a mc op] assms(3,4) Rel ops(1) [OF _ assms(2)] ops(2) [OF _ mc1] L
        in \<open>simp_all add: view_def\<close>)
  qed (use relational_text [OF assms(1) _ _ solid, of "macros_text sp l" "macros_text sp r" g a mc op] assms(3,4) Rel ops(1) [OF _ assms(2)]
      in \<open>simp_all add: view_def\<close>)
  have some: "\<exists>b. v = Some b" if "mean_guard (errno_ERANGE g) k fl gd (view mc) = Ok (v, s)" for v s
    using that Rel by (auto split: prod.splits)
  show ?thesis
    using rel find_curly_text [OF assms(1)] Rel some tail
    by (cases "mean_guard (errno_ERANGE g) k fl gd (view mc)"; cases tail) (auto simp: expr_head_def)
qed

text \<open>A plain reference, and the value of a relational expression without result texts.\<close>

lemma end_value:
  assumes "f AND MAC_EXP_FLAG_SCAN = 0" "f AND MAC_EXP_FLAG_RECURSE = 0" "plain_ctx f ft k level mc"
  shows "case_end g a v (put mc s) = Ok (True, put mc (show_value (filtered g f ft) v s))"
proof -
  have "filtered g f ft [] = []" by (simp add: filtered_def split: option.split)
  with assms show ?thesis
    by (cases s) (auto simp: case_end_def flag_set_def plain_ctx_def show_value_def put_def split: option.split)
qed

lemma cond_case:
  assumes "blanks sp" "f AND MAC_EXP_FLAG_SCAN = 0" "f AND MAC_EXP_FLAG_RECURSE = 0" "plain_ctx f ft k (Suc level) mc"
    and ok: "macro_ok sp (Cond gd t e) level"
    and sub: "guard_computes f ft k a (errno_ERANGE g) (filtered g f ft) sp gd"
      "branch_computes f ft k (Suc level) a (errno_ERANGE g) (filtered g f ft) sp t"
      "branch_computes f ft k (Suc level) a (errno_ERANGE g) (filtered g f ft) sp e"
  shows "expr_case g a (snd (piece_part (macro_piece sp (Cond gd t e)))) mc =
    obind (mean (errno_ERANGE g) k (filtered g f ft) (Cond gd t e) (view mc)) (\<lambda>s. Ok (True, put mc s))"
proof -
  let ?tail = "branch_text sp t CHR ''?'' @ branch_text sp e CHR '':''"
  let ?fl = "filtered g f ft"
  have "?tail = [] \<and> (\<exists>l op r. gd = Rel l op r) \<or> (\<exists>c rest. ?tail = c # rest \<and> c \<in> {CHR ''?'', CHR '':''})"
    using ok by (cases t; cases e; cases gd) auto
  note head = guard_head [OF assms(1,4) _ sub(1) this]
  have next_ctx: "plain_ctx f ft k (Suc level) (put mc s)" if "mean_guard (errno_ERANGE g) k ?fl gd (view mc) = Ok (v, s)" for v s
    using mean_growing(2) [OF that] assms(4) by (simp add: plain_ctx_def view_def grows_def)
  show ?thesis
  proof (cases "mean_guard (errno_ERANGE g) k ?fl gd (view mc)")
    case (Ok vs)
    then obtain v s where vs: "mean_guard (errno_ERANGE g) k ?fl gd (view mc) = Ok (v, s)" by (cases vs) auto
    note ctx = next_ctx [OF vs]
    consider (no_branch) "t = Absent" "e = Absent" | (colon) "t = Absent" "e \<noteq> Absent" | (question) "t \<noteq> Absent" by blast
    then show ?thesis
    proof cases
      case no_branch
      with head ok vs end_value [OF assms(2,3,4)] show ?thesis by (simp add: expr_case_def)
    next
      case colon
      then have "hd ?tail = CHR '':''" "branch_text sp e CHR '':'' \<noteq> []" by (cases e; simp)+
      with colon head ok vs colon_branch [OF assms(1,2) ctx colon(2) _ sub(3), of v "CHR '':''"] show ?thesis
        by (simp add: expr_case_def)
    next
      case question
      then have "hd ?tail = CHR ''?''" "branch_text sp t CHR ''?'' \<noteq> []" by (cases t; simp)+
      with question head ok vs question_branch [OF assms(1,2) ctx question _ _ _ sub(2,3), of v] show ?thesis
        by (simp add: expr_case_def)
    qed
  qed (use head ok in \<open>simp_all add: expr_case_def\<close>)
qed

lemma body_computes:
  assumes "level \<le> 100"
    and "\<And>mc. plain_ctx f ft k (Suc level) mc \<Longrightarrow>
      (if type = MAC_PARSE_EXPR then expr_case g a t mc else Ok (True, literal_case t mc)) = obind (m (view mc)) (\<lambda>s. Ok (True, put mc s))"
  shows "computes_part f ft k level (callback_body g a) (type, t) m"
  unfolding computes_part_def
proof (intro allI impI)
  fix mc assume mc: "plain_ctx f ft k level mc"
  let ?mc = "mc\<lparr>mc_level := mc_level mc + 1\<rparr>"
  have ctx: "plain_ctx f ft k (Suc level) ?mc" and v: "view ?mc = view mc" using mc by (simp_all add: plain_ctx_def view_def)
  have lvl: "(put (mc\<lparr>mc_level := Suc (mc_level mc)\<rparr>) s)\<lparr>mc_level := mc_level mc\<rparr> = put mc s" for s by (simp add: put_def)
  have "callback_body g a type t mc =
    obind (if type = MAC_PARSE_EXPR then expr_case g a t ?mc else Ok (True, literal_case t ?mc)) (\<lambda>(leave, mc).
      let mc = (if leave then mc\<lparr>mc_level := mc_level mc - 1\<rparr> else mc) in Ok (mc_status mc, mc))"
    using mc assms(1) by (simp add: callback_body_def plain_ctx_def Let_def)
  also have "\<dots> = obind (m (view mc)) (\<lambda>s. Ok (fst (snd s), put mc s))"
    unfolding assms(2) [OF ctx] v by (simp add: outcome_simps lvl Let_def)
  finally show "callback_body g a (fst (type, t)) (snd (type, t)) mc = obind (m (view mc)) (\<lambda>s. Ok (fst (snd s), put mc s))" by simp
qed

text \<open>A part of the text of a pattern needs less stack than the pattern is long.\<close>

definition enough :: "nat \<Rightarrow> mac_type \<times> string \<Rightarrow> bool" where
  "enough n part \<longleftrightarrow> (if fst part = MAC_PARSE_EXPR then length (snd part) < n else 0 < n)"

lemma part_enough: "pieces_ok ps \<Longrightarrow> p \<in> set ps \<Longrightarrow> length (pieces_text ps) \<le> n \<Longrightarrow> enough n (piece_part p)"
proof (induction ps rule: pieces_ok.induct)
  case (2 s ps)
  then show ?case by (cases s) (auto simp: enough_def split: if_splits)
qed (auto simp: enough_def)

lemma callback_part:
  assumes "enough n part" "\<And>n'. n = Suc n' \<Longrightarrow> computes_part f ft k level (callback_body g (mac_expand_callback n' g)) part m"
  shows "computes_part f ft k level (mac_expand_callback n g) part m"
proof -
  obtain n' where n: "n = Suc n'" using assms(1) by (cases n) (auto simp: enough_def split: if_splits)
  have "mac_expand_callback n g = callback_body g (mac_expand_callback n' g)" by (rule ext)+ (simp add: n)
  with assms(2) [OF n] show ?thesis by simp
qed

lemma attr_case:
  assumes "f AND MAC_EXP_FLAG_SCAN = 0" "f AND MAC_EXP_FLAG_RECURSE = 0" "plain_ctx f ft k level mc" "nm \<noteq> []" "list_all attr_char nm"
  shows "expr_case g a nm mc = obind (mean er k (filtered g f ft) (Attr braced nm) (view mc)) (\<lambda>s. Ok (True, put mc s))"
proof -
  obtain v c where v: "k nm MAC_EXP_MODE_USE (mc_context mc) = (v, c)" by (cases "k nm MAC_EXP_MODE_USE (mc_context mc)")
  have "mc\<lparr>mc_context := c\<rparr> = put mc (mc_result mc, mc_status mc, c)" by (simp add: put_def)
  then have "case_end g a v (mc\<lparr>mc_context := c\<rparr>) = Ok (True, put mc (show_value (filtered g f ft) v (mc_result mc, mc_status mc, c)))"
    by (simp only: end_value [OF assms(1-3)])
  with v assms no_curly_name [OF assms(4,5), of "[]"] name_scan_text(1) [OF assms(5)] show ?thesis
    by (simp add: expr_case_def expr_head_def plain_ctx_def view_def)
qed

lemma length_branch: "length (branch_text sp b c) = length (branch_text sp b d)"
  by (cases b) simp_all

lemma list_of_parts_computes:
  assumes "\<And>m. m \<in> set ms \<Longrightarrow> macro_ok sp m level \<Longrightarrow> enough n (piece_part (macro_piece sp m)) \<Longrightarrow>
      computes_part f ft k level a (piece_part (macro_piece sp m)) (mean er k fl m)"
    and "list_all (\<lambda>ok. ok level) (map (macro_ok sp) ms)" "pieces_ok (map (macro_piece sp) ms)" "length (macros_text sp ms) \<le> n"
  shows "computes f ft k level a (macros_text sp ms) (in_order (map (mean er k fl) ms))"
proof (rule list_computes [OF assms(3)])
  fix m assume m: "m \<in> set ms"
  have "enough n (piece_part (macro_piece sp m))" by (rule part_enough [OF assms(3) _ assms(4)]) (simp add: m)
  then show "computes_part f ft k level a (piece_part (macro_piece sp m)) (mean er k fl m)"
    using assms(1) [OF m] assms(2) m by (auto simp: list_all_iff)
qed

lemma callback_computes:
  assumes "blanks sp" "f AND MAC_EXP_FLAG_SCAN = 0" "f AND MAC_EXP_FLAG_RECURSE = 0"
  shows "macro_ok sp m level \<Longrightarrow> enough n (piece_part (macro_piece sp m)) \<Longrightarrow>
      computes_part f ft k level (mac_expand_callback n g) (piece_part (macro_piece sp m)) (mean (errno_ERANGE g) k (filtered g f ft) m)"
    and "guard_ok sp gd \<Longrightarrow> length (guard_text sp gd) \<le> n \<Longrightarrow>
      guard_computes f ft k (mac_expand_callback n g) (errno_ERANGE g) (filtered g f ft) sp gd"
    and "branch_ok sp b level \<Longrightarrow> length (branch_text sp b CHR ''?'') \<le> n \<Longrightarrow>
      branch_computes f ft k level (mac_expand_callback n g) (errno_ERANGE g) (filtered g f ft) sp b"
proof (induction m and gd and b arbitrary: level n and n and level n)
  case (Text t)
  show ?case
    using Text.prems(1) assms(2)
    by (intro callback_part [OF Text.prems(2)])
      (auto intro!: body_computes simp: literal_case_def flag_set_def plain_ctx_def view_def put_def)
next
  case (Attr braced nm)
  have part: "piece_part (macro_piece sp (Attr braced nm)) = (MAC_PARSE_EXPR, nm)" by simp
  show ?case
    using Attr.prems(1) attr_case [OF assms(2,3)] unfolding part
    by (intro callback_part [OF Attr.prems(2) [unfolded part]]) (auto intro!: body_computes simp del: mean.simps)
next
  case (Cond gd t e)
  define buf where "buf = snd (piece_part (macro_piece sp (Cond gd t e)))"
  have part: "piece_part (macro_piece sp (Cond gd t e)) = (MAC_PARSE_EXPR, buf)" by (simp add: buf_def)
  show ?case
    unfolding part
  proof (rule callback_part [OF Cond.prems(2) [unfolded part]])
    fix n' assume n: "n = Suc n'"
    have len: "length (guard_text sp gd) \<le> n'" "length (branch_text sp t CHR ''?'') \<le> n'" "length (branch_text sp e CHR ''?'') \<le> n'"
      using Cond.prems(2) length_branch [of sp e "CHR ''?''" "CHR '':''"] by (simp_all add: n enough_def)
    have "level \<le> 100" using Cond.prems(1) by simp
    then show "computes_part f ft k level (callback_body g (mac_expand_callback n' g)) (MAC_PARSE_EXPR, buf)
        (mean (errno_ERANGE g) k (filtered g f ft) (Cond gd t e))"
      using Cond.prems(1) cond_case [OF assms _ Cond.prems(1) Cond.IH(1) [OF _ len(1)] Cond.IH(2) [OF _ len(2)] Cond.IH(3) [OF _ len(3)]]
      by (intro body_computes) (simp_all add: buf_def del: mean.simps macro_piece.simps)
  qed
next
  case (Rel l op r)
  then show ?case by (auto intro!: list_of_parts_computes [where n = n])
next
  case (Curly ms)
  then show ?case by (auto intro!: list_of_parts_computes [where n = n])
next
  case (Rest ms)
  then show ?case by (auto intro!: list_of_parts_computes [where n = n])
qed simp_all

section \<open>Properties\<close>

text \<open>
  C5: Expanding the text of a well-formed pattern, with any blanks where blanks are ignored, returns what
  the pattern means: names are replaced by their filtered values or, if undefined, by nothing with
  a mark in the status; a conditional looks its name up once, or expands both operands and compares
  them, and expands the one result text that is chosen. The result replaces the old one, or is appended to it.
\<close>

theorem mac_expand_means:
  assumes "blanks sp" "macros_ok sp ms 0" "flags AND MAC_EXP_FLAG_SCAN = 0" "flags AND MAC_EXP_FLAG_RECURSE = 0"
    "length (macros_text sp ms) \<le> n"
  shows "mac_expand n g result (macros_text sp ms) flags filt lookup ctx =
    obind (in_order (map (mean (errno_ERANGE g) lookup (filtered g flags filt)) ms)
        (if flags AND MAC_EXP_FLAG_APPEND = 0 then [] else result, 0, ctx)) (\<lambda>(res, st, c). Ok (st, res, c))"
proof -
  have "computes flags filt lookup 0 (mac_expand_callback n g) (macros_text sp ms)
      (in_order (map (mean (errno_ERANGE g) lookup (filtered g flags filt)) ms))"
    using assms(2,5) by (intro list_of_parts_computes [where n = n] callback_computes assms) (auto simp: macros_ok_def)
  from computes_expand [OF this] assms(3) show ?thesis by (simp add: mac_expand_def and_or_eq_0)
qed

definition demo_pattern :: "macro list" where
  "demo_pattern =
    [Text ''<'',
     Cond (Rel [Attr False ''v''] Op_GE [Text ''7'']) (Curly [Attr True ''v'', Text '' is large'']) (Curly [Text ''no'']),
     Cond (Defined ''w'') Absent (Rest [Text '' without w'']), Text ''>'']"

lemma demo_text: "macros_text '' '' demo_pattern = ''<${ {$v} >= {7} ? {${v} is large} : {no} }${w: without w}>''"
  by (simp add: demo_pattern_def)

theorem mac_expand_means_witness:
  "mac_expand 80 quiet [] ''<${ {$v} >= {7} ? {${v} is large} : {no} }${w: without w}>'' 0 None two_names () =
   Ok (0, ''<12 is large without w>'', ())"
proof -
  have ok: "blanks '' ''" "macros_ok '' '' demo_pattern 0" by code_simp+
  have len: "length (macros_text '' '' demo_pattern) \<le> 80" unfolding demo_text by simp
  have "in_order (map (mean (errno_ERANGE quiet) two_names (filtered quiet 0 None)) demo_pattern) ([], 0, ()) =
      Ok (''<12 is large without w>'', 0, ())" by code_simp
  with mac_expand_means [OF ok _ _ len, of 0 quiet "[]" None two_names "()"] show ?thesis
    by (simp add: demo_text)
qed

text \<open>A number beyond the range of \<open>long\<close> ends the program, though only memory exhaustion is documented to.\<close>

lemma number_out_of_range:
  "mac_expand 80 quiet [] ''${{9223372036854775808}>{1}}'' 0 None two_names () =
   Fatal ''mac_exp_eval: bad conversion: 9223372036854775808''"
proof -
  let ?ms = "[Cond (Rel [Text ''9223372036854775808''] Op_GT [Text ''1'']) Absent Absent]"
  have ok: "blanks []" "macros_ok [] ?ms 0" by code_simp+
  have len: "length (macros_text [] ?ms) \<le> 80" by simp
  have "alldig ''9223372036854775808''" "alldig ''1''" by code_simp+
  with mac_expand_means [OF ok _ _ len, of 0 quiet "[]" None two_names "()"] show ?thesis
    by (simp add: compare_texts_def number_def LONG_MAX_def)
qed

end
