(* ===== verification/Name_mask.thy ===== *)
theory Name_mask
  imports Stringops Hexcode "HOL-Library.Word"
begin

unbundle bit_operations_syntax

text \<open>
  Names for bits (\<open>src/util/name_mask.c\<close>): a list of names is translated to a set of bits, and a set of bits to
  a list of names, with hexadecimal numbers for bits without a name. The source has every function
  twice, for \<open>int\<close> and for \<open>long\<close>; here the width of the masks is a type, 32 or 64 bits.
  A table is the list of its entries, without the null name that ends it. The buffer of the result is a text;
  warnings are left out.
\<close>

section \<open>Masks\<close>

type_synonym 'w name_mask_table = "(string \<times> 'w word) list"

definition NAME_MASK_FATAL :: "32 word" where "NAME_MASK_FATAL = 1"
definition NAME_MASK_ANY_CASE :: "32 word" where "NAME_MASK_ANY_CASE = 2"
definition NAME_MASK_RETURN :: "32 word" where "NAME_MASK_RETURN = 4"
definition NAME_MASK_COMMA :: "32 word" where "NAME_MASK_COMMA = 8"
definition NAME_MASK_PIPE :: "32 word" where "NAME_MASK_PIPE = 16"
definition NAME_MASK_NUMBER :: "32 word" where "NAME_MASK_NUMBER = 32"
definition NAME_MASK_WARN :: "32 word" where "NAME_MASK_WARN = 64"
definition NAME_MASK_IGNORE :: "32 word" where "NAME_MASK_IGNORE = 128"

definition NAME_MASK_REQUIRED :: "32 word" where
  "NAME_MASK_REQUIRED = NAME_MASK_FATAL OR NAME_MASK_RETURN OR NAME_MASK_WARN OR NAME_MASK_IGNORE"

definition STR_NAME_MASK_REQUIRED :: "32 word" where
  "STR_NAME_MASK_REQUIRED = NAME_MASK_REQUIRED OR NAME_MASK_NUMBER"

definition NAME_MASK_DEFAULT :: "32 word" where
  "NAME_MASK_DEFAULT = NAME_MASK_FATAL"

definition NAME_MASK_DEFAULT_DELIM :: string where
  "NAME_MASK_DEFAULT_DELIM = [CHR '','', CHR '' '', CHR 0x09, CHR 0x0D, CHR 0x0A]"

definition has_flag :: "32 word \<Rightarrow> 32 word \<Rightarrow> bool" where
  "has_flag flags flag \<longleftrightarrow> flags AND flag \<noteq> 0"

fun mask_lookup :: "(string \<Rightarrow> string \<Rightarrow> int) \<Rightarrow> 'w::len name_mask_table \<Rightarrow> string \<Rightarrow> 'w word option" where
  "mask_lookup lookup [] name = None"
| "mask_lookup lookup ((n, m) # np) name = (if lookup name n = 0 then Some m else mask_lookup lookup np name)"

text \<open>
  \<open>strtoul\<close> with base 16 on a text that begins with \<open>0x\<close>: the number and the text behind it.
  Without a digit after the \<open>x\<close> the number is the \<open>0\<close>. A number beyond the range of \<open>unsigned long\<close> sets \<open>ERANGE\<close>.
\<close>

definition hex_number :: "string \<Rightarrow> nat" where
  "hex_number ds = foldl (\<lambda>n c. 16 * n + the (hex_digit c)) 0 ds"

definition strtoul16 :: "string \<Rightarrow> nat \<times> string" where
  "strtoul16 s =
     (let ds = takeWhile (\<lambda>c. hex_digit c \<noteq> None) (drop 2 s)
      in if ds = [] then (0, drop 1 s) else (hex_number ds, drop (2 + length ds) s))"

definition hex_to_ulong :: "string \<Rightarrow> 64 word \<Rightarrow> 64 word option" where
  "hex_to_ulong s m =
     (if strcasecmp (take 2 s) ''0x'' \<noteq> 0 then None
      else let (result, cp) = strtoul16 s in
        if cp \<noteq> [] \<or> result \<ge> 2 ^ 64 then None
        else let ul = word_of_nat result AND m in if ul = word_of_nat result then Some ul else None)"

fun name_mask_loop ::
  "32 word \<Rightarrow> (string \<Rightarrow> string \<Rightarrow> int) \<Rightarrow> 'w::len name_mask_table \<Rightarrow> string list \<Rightarrow> 'w word \<Rightarrow> 'w word outcome" where
  "name_mask_loop flags lookup table [] result = Ok result"
| "name_mask_loop flags lookup table (name # names) result =
     (case mask_lookup lookup table name of
        Some m \<Rightarrow> name_mask_loop flags lookup table names (result OR m)
      | None \<Rightarrow>
          (case if has_flag flags NAME_MASK_NUMBER then hex_to_ulong name (mask LENGTH('w)) else None of
             Some ulval \<Rightarrow> name_mask_loop flags lookup table names (result OR ucast ulval)
           | None \<Rightarrow>
               if has_flag flags NAME_MASK_FATAL then Fatal ''unknown value''
               else if has_flag flags NAME_MASK_RETURN then Ok 0
               else name_mask_loop flags lookup table names result))"

definition mask_compare :: "32 word \<Rightarrow> string \<Rightarrow> string \<Rightarrow> int" where
  "mask_compare flags = (if has_flag flags NAME_MASK_ANY_CASE then strcasecmp else strcmp)"

definition name_mask_delim_opt :: "'w::len name_mask_table \<Rightarrow> string \<Rightarrow> string \<Rightarrow> 32 word \<Rightarrow> 'w word outcome" where
  "name_mask_delim_opt table names delim flags =
     (if \<not> has_flag flags NAME_MASK_REQUIRED then Panic ''missing NAME_MASK_FATAL/RETURN/WARN/IGNORE flag''
      else name_mask_loop flags (mask_compare flags) table (strtok_all names delim) 0)"

definition long_name_mask_delim_opt :: "64 name_mask_table \<Rightarrow> string \<Rightarrow> string \<Rightarrow> 32 word \<Rightarrow> 64 word outcome" where
  "long_name_mask_delim_opt = name_mask_delim_opt"

definition name_mask_opt :: "'w::len name_mask_table \<Rightarrow> string \<Rightarrow> 32 word \<Rightarrow> 'w word outcome" where
  "name_mask_opt table str flags = name_mask_delim_opt table str NAME_MASK_DEFAULT_DELIM flags"

definition name_mask :: "'w::len name_mask_table \<Rightarrow> string \<Rightarrow> 'w word outcome" where
  "name_mask table str = name_mask_opt table str NAME_MASK_DEFAULT"

definition long_name_mask_opt :: "64 name_mask_table \<Rightarrow> string \<Rightarrow> 32 word \<Rightarrow> 64 word outcome" where
  "long_name_mask_opt table str flags = long_name_mask_delim_opt table str NAME_MASK_DEFAULT_DELIM flags"

definition long_name_mask :: "64 name_mask_table \<Rightarrow> string \<Rightarrow> 64 word outcome" where
  "long_name_mask table str = long_name_mask_opt table str NAME_MASK_DEFAULT"

text \<open>Bits to names; none stands for the null pointer.\<close>

fun str_mask_loop :: "32 word \<Rightarrow> char \<Rightarrow> 'w::len name_mask_table \<Rightarrow> 'w word \<Rightarrow> string \<Rightarrow> string option outcome" where
  "str_mask_loop flags delim [] m buf =
     (if m = 0 then Ok (Some buf)
      else if has_flag flags NAME_MASK_NUMBER then Ok (Some (buf @ ''0x'' @ num_text False 16 (unat m) @ [delim]))
      else if has_flag flags NAME_MASK_FATAL then Fatal ''unknown bit in mask''
      else if has_flag flags NAME_MASK_RETURN then Ok None
      else Ok (Some buf))"
| "str_mask_loop flags delim ((n, b) # np) m buf =
     (if m = 0 then Ok (Some buf)
      else if m AND b \<noteq> 0 then str_mask_loop flags delim np (m AND NOT b) (buf @ n @ [delim])
      else str_mask_loop flags delim np m buf)"

definition mask_delim :: "32 word \<Rightarrow> char" where
  "mask_delim flags =
     (if has_flag flags NAME_MASK_COMMA then CHR '','' else if has_flag flags NAME_MASK_PIPE then CHR ''|'' else CHR '' '')"

definition str_name_mask_opt :: "'w::len name_mask_table \<Rightarrow> 'w word \<Rightarrow> 32 word \<Rightarrow> string option outcome" where
  "str_name_mask_opt table m flags =
     (if \<not> has_flag flags STR_NAME_MASK_REQUIRED then Panic ''missing NAME_MASK_NUMBER/FATAL/RETURN/WARN/IGNORE flag''
      else obind (str_mask_loop flags (mask_delim flags) table m []) (\<lambda>r.
        Ok (map_option (\<lambda>buf. if length buf > 0 then take (length buf - 1) buf else buf) r)))"

definition str_long_name_mask_opt :: "64 name_mask_table \<Rightarrow> 64 word \<Rightarrow> 32 word \<Rightarrow> string option outcome" where
  "str_long_name_mask_opt = str_name_mask_opt"

definition str_name_mask :: "'w::len name_mask_table \<Rightarrow> 'w word \<Rightarrow> string option outcome" where
  "str_name_mask table m = str_name_mask_opt table m NAME_MASK_DEFAULT"

definition str_long_name_mask :: "64 name_mask_table \<Rightarrow> 64 word \<Rightarrow> string option outcome" where
  "str_long_name_mask table m = str_long_name_mask_opt table m NAME_MASK_DEFAULT"

section \<open>Numbers\<close>

lemma digit_char_hex: "d < 16 \<Longrightarrow> hex_digit (digit_char False d) = Some d"
  by (auto simp: digit_char_def hex_digit_def Let_def)

lemma hex_text_number:
  "hex_number (num_text False 16 n) = n \<and> num_text False 16 n \<noteq> [] \<and>
   (\<forall>c \<in> set (num_text False 16 n). hex_digit c \<noteq> None)"
proof (induction n rule: less_induct)
  case (less n)
  show ?case
  proof (cases "n < 16")
    case True
    then show ?thesis using digit_char_hex [of n] by (simp add: num_text_unfold [of 16] hex_number_def)
  next
    case False
    then show ?thesis using less [of "n div 16"] digit_char_hex [of "n mod 16"] num_text_unfold [of 16 False n]
      by (auto simp: hex_number_def)
  qed
qed

lemma strcasecmp_0x: "strcasecmp ''0x'' ''0x'' = 0"
  by (simp add: strcasecmp_def)

lemma hex_to_ulong_text:
  fixes m :: "'w::len word"
  assumes "LENGTH('w) \<le> 64"
  shows "hex_to_ulong (''0x'' @ num_text False 16 (unat m)) (mask LENGTH('w)) = Some (ucast m)"
proof -
  let ?ds = "num_text False 16 (unat m)"
  have "takeWhile (\<lambda>c. hex_digit c \<noteq> None) (drop 2 (''0x'' @ ?ds)) = ?ds" using hex_text_number [of "unat m"] by (auto simp: takeWhile_eq_all_conv)
  from this hex_text_number [of "unat m"] have "strtoul16 (''0x'' @ ?ds) = (unat m, [])"
    unfolding strtoul16_def Let_def \<open>takeWhile _ _ = _\<close> by simp
  moreover have "unat m < 2 ^ 64"
  proof -
    have "unat m < 2 ^ LENGTH('w)" by simp
    also have "\<dots> \<le> 2 ^ 64" using assms by (intro power_increasing) simp_all
    finally show ?thesis .
  qed
  moreover have "(word_of_nat (unat m) :: 64 word) = ucast m" by (simp add: unsigned_ucast_eq)
  moreover have "(ucast m AND mask LENGTH('w) :: 64 word) = ucast m"
    by (rule bit_word_eqI) (auto simp: bit_simps dest: bit_imp_le_length)
  ultimately show ?thesis using strcasecmp_0x by (simp add: hex_to_ulong_def Let_def)
qed

lemma ucast_through_long: "LENGTH('w::len) \<le> 64 \<Longrightarrow> ucast (ucast (m :: 'w word) :: 64 word) = m"
  by (rule bit_word_eqI) (simp add: bit_simps)

section \<open>What the loops compute\<close>

text \<open>All bits that have a name, and the entries whose names are shown for a mask.\<close>

definition known :: "'w::len name_mask_table \<Rightarrow> 'w word" where
  "known table = foldr (\<lambda>(_, b) m. b OR m) table 0"

fun shown :: "'w::len name_mask_table \<Rightarrow> 'w word \<Rightarrow> 'w name_mask_table" where
  "shown [] m = []"
| "shown ((n, b) # np) m = (if m AND b \<noteq> 0 then (n, b) # shown np (m AND NOT b) else shown np m)"

lemma known_simps [simp]: "known [] = 0" "known ((n, b) # np) = b OR known np"
  by (simp_all add: known_def)

lemma bit_known: "bit (known table) i \<longleftrightarrow> (\<exists>(n, b) \<in> set table. bit b i)"
  by (induction table) (auto simp: bit_or_iff)

lemma and_zero_bits: "(m :: 'w::len word) AND b \<noteq> 0 \<longleftrightarrow> (\<exists>i. bit m i \<and> bit b i)"
  by (auto simp: bit_eq_iff bit_and_iff dest: bit_imp_le_length)

lemma shown_0 [simp]: "shown table 0 = []"
  by (induction table) auto

lemma shown_hit: "(n, b) \<in> set (shown table m) \<Longrightarrow> (n, b) \<in> set table \<and> m AND b \<noteq> 0"
  by (induction table m rule: shown.induct) (auto split: if_splits simp: and_zero_bits bit_simps)

lemma shown_covers: "bit m i \<Longrightarrow> bit (known table) i \<Longrightarrow> bit (known (shown table m)) i"
  by (induction table m rule: shown.induct) (auto simp: bit_simps and_zero_bits dest: bit_imp_le_length split: if_splits)

lemma str_mask_loop_shown:
  "str_mask_loop flags d table m buf =
   str_mask_loop flags d [] (m AND NOT (known table)) (buf @ concat (map (\<lambda>(n, _). n @ [d]) (shown table m)))"
proof (induction flags d table m buf rule: str_mask_loop.induct)
  case (2 flags d n b np m buf)
  have "(m AND NOT b) AND NOT (known np) = m AND NOT (b OR known np)" by (rule bit_word_eqI) (auto simp: bit_simps)
  moreover have "m AND NOT (known np) = m AND NOT (b OR known np)" if "m AND b = 0"
    using that and_zero_bits [of m b] by (intro bit_word_eqI) (auto simp: bit_simps)
  ultimately show ?case using 2 by (cases "m = 0") (auto simp del: str_mask_loop.simps(1), simp_all)
qed simp

text \<open>Every entry of the table is contained in the mask or has no bit in common with it.\<close>

definition whole :: "'w::len word \<Rightarrow> 'w name_mask_table \<Rightarrow> bool" where
  "whole m table \<longleftrightarrow> list_all (\<lambda>(_, b). m AND b = b \<or> m AND b = 0) table"

lemma shown_whole:
  assumes "whole m table"
  shows "known (shown table m) OR (m AND NOT (known table)) = m"
proof (rule bit_word_eqI)
  fix i assume "i < LENGTH('a)"
  moreover have "bit m i" if known: "bit (known (shown table m)) i"
  proof -
    obtain n b where "(n, b) \<in> set (shown table m)" "bit b i" using known by (auto simp: bit_known)
    moreover from this have "m AND b = b" using assms shown_hit [of n b table m] by (fastforce simp: whole_def list_all_iff)
    ultimately show ?thesis by (metis bit_and_iff)
  qed
  ultimately show "bit (known (shown table m) OR (m AND NOT (known table))) i = bit m i"
    using shown_covers [of m i table] by (auto simp: bit_simps)
qed

text \<open>Names are distinct, not empty, without delimiters, and do not look like numbers.\<close>

definition mask_key :: "32 word \<Rightarrow> string \<Rightarrow> string" where
  "mask_key flags n = (if has_flag flags NAME_MASK_ANY_CASE then map TOLOWER n else n)"

definition table_ok :: "32 word \<Rightarrow> string \<Rightarrow> 'w::len name_mask_table \<Rightarrow> bool" where
  "table_ok flags delim table \<longleftrightarrow> distinct (map (\<lambda>(n, _). mask_key flags n) table) \<and>
     list_all (\<lambda>(n, _). n \<noteq> [] \<and> list_all (\<lambda>c. c \<notin> set delim) n \<and> strcasecmp (take 2 n) ''0x'' \<noteq> 0) table"

lemma mask_compare_0: "mask_compare flags s t = 0 \<longleftrightarrow> mask_key flags s = mask_key flags t"
  by (simp add: mask_compare_def mask_key_def strcasecmp_eq_0)

lemma mask_lookup_entry:
  "distinct (map (\<lambda>(n, _). mask_key flags n) table) \<Longrightarrow> (n, b) \<in> set table \<Longrightarrow> mask_lookup (mask_compare flags) table n = Some b"
  by (induction table) (force simp: mask_compare_0)+

lemma mask_lookup_missing: "(\<And>n b. (n, b) \<in> set table \<Longrightarrow> lookup name n \<noteq> 0) \<Longrightarrow> mask_lookup lookup table name = None"
  by (induction lookup table name rule: mask_lookup.induct) auto

lemma mask_lookup_number:
  assumes "table_ok flags delim table"
  shows "mask_lookup (mask_compare flags) table (''0x'' @ ds) = None"
proof -
  have "mask_key flags (''0x'' @ ds) \<noteq> mask_key flags n" if n: "strcasecmp (take 2 n) ''0x'' \<noteq> 0" for n
  proof
    assume "mask_key flags (''0x'' @ ds) = mask_key flags n"
    then have "map TOLOWER (''0x'' @ ds) = map TOLOWER n" by (auto simp: mask_key_def split: if_splits)
    from arg_cong [OF this, of "take 2"] have "map TOLOWER (take 2 n) = map TOLOWER ''0x''" by (simp add: take_map [symmetric])
    then show False using n by (simp add: strcasecmp_eq_0)
  qed
  then have "mask_compare flags (''0x'' @ ds) n \<noteq> 0" if "(n, b) \<in> set table" for n b
    unfolding mask_compare_0 using assms that by (auto simp: table_ok_def list_all_iff)
  then show ?thesis by (rule mask_lookup_missing)
qed

lemma name_mask_loop_known:
  "table_ok flags delim table \<Longrightarrow> set ents \<subseteq> set table \<Longrightarrow>
   name_mask_loop flags (mask_compare flags) table (map fst ents @ names) r = name_mask_loop flags (mask_compare flags) table names (r OR known ents)"
proof (induction ents arbitrary: r)
  case (Cons e ents)
  obtain n b where e: "e = (n, b)" by (cases e)
  have "mask_lookup (mask_compare flags) table n = Some b"
    by (rule mask_lookup_entry) (use Cons.prems e in \<open>auto simp: table_ok_def\<close>)
  with Cons e show ?case by (simp add: or.assoc)
qed simp

section \<open>Tokens\<close>

lemma words_of_snoc: "d \<in> D \<Longrightarrow> words_of D (s @ [d]) = words_of D s"
proof -
  assume d: "d \<in> D"
  have "cut_at D (s @ [d]) = cut_at D s @ [[]]" by (induction s) (use d in \<open>auto split: list.split\<close>)
  then show ?thesis by (simp add: words_of_def)
qed

lemma words_of_listed:
  "d \<in> D \<Longrightarrow> list_all (\<lambda>n. n \<noteq> [] \<and> list_all (\<lambda>c. c \<notin> D) n) ns \<Longrightarrow> words_of D (concat (map (\<lambda>n. n @ [d]) ns)) = ns"
proof (induction ns)
  case (Cons n ns)
  then show ?case using words_of_token [of n D "d # concat (map (\<lambda>n. n @ [d]) ns)"] by (simp add: list_all_iff)
qed (simp add: words_of_def)

lemma words_of_truncated:
  assumes "d \<in> D" "list_all (\<lambda>n. n \<noteq> [] \<and> list_all (\<lambda>c. c \<notin> D) n) ns" "s = concat (map (\<lambda>n. n @ [d]) ns)"
  shows "words_of D (if length s > 0 then take (length s - 1) s else s) = ns"
proof (cases ns rule: rev_cases)
  case (snoc ns' n)
  then obtain s' where "s = s' @ [d]" using assms(3) by auto
  then have "words_of D (if length s > 0 then take (length s - 1) s else s) = words_of D s" using words_of_snoc [OF assms(1)] by simp
  then show ?thesis using words_of_listed [OF assms(1,2)] assms(3) by simp
qed (use assms in \<open>simp add: words_of_def\<close>)

section \<open>Properties\<close>

text \<open>The bits of one name, and the outcome for a list of names on every branch.\<close>

definition name_value :: "32 word \<Rightarrow> 'w::len name_mask_table \<Rightarrow> string \<Rightarrow> 'w word option" where
  "name_value flags table name =
     (case mask_lookup (mask_compare flags) table name of
        Some b \<Rightarrow> Some b
      | None \<Rightarrow> if has_flag flags NAME_MASK_NUMBER then map_option ucast (hex_to_ulong name (mask LENGTH('w))) else None)"

definition bits_of_names :: "32 word \<Rightarrow> 'w::len name_mask_table \<Rightarrow> string list \<Rightarrow> 'w word" where
  "bits_of_names flags table names = foldr (OR) (map (\<lambda>name. case name_value flags table name of None \<Rightarrow> 0 | Some b \<Rightarrow> b) names) 0"

lemma name_mask_loop_value:
  "name_mask_loop flags (mask_compare flags) table names r =
     (if list_all (\<lambda>name. name_value flags table name \<noteq> None) names \<or>
         \<not> has_flag flags NAME_MASK_FATAL \<and> \<not> has_flag flags NAME_MASK_RETURN
      then Ok (r OR bits_of_names flags table names)
      else if has_flag flags NAME_MASK_FATAL then Fatal ''unknown value'' else Ok 0)"
  by (induction names arbitrary: r)
    (auto simp: name_value_def bits_of_names_def or.assoc split: option.split)

lemma name_mask_delim_opt_value:
  assumes "has_flag flags NAME_MASK_REQUIRED"
  shows "name_mask_delim_opt table names delim flags =
     (if list_all (\<lambda>name. name_value flags table name \<noteq> None) (words_of (set delim) names) \<or>
         \<not> has_flag flags NAME_MASK_FATAL \<and> \<not> has_flag flags NAME_MASK_RETURN
      then Ok (bits_of_names flags table (words_of (set delim) names))
      else if has_flag flags NAME_MASK_FATAL then Fatal ''unknown value'' else Ok 0)"
  using assms name_mask_loop_value [of flags table "words_of (set delim) names" 0]
  by (simp only: name_mask_delim_opt_def strtok_all_words if_True not_True_eq_False if_False) simp

lemma str_mask_text:
  assumes "m AND NOT (known table) = 0 \<or> has_flag flags NAME_MASK_NUMBER"
    "ns = map fst (shown table m) @ (if m AND NOT (known table) = 0 then [] else [''0x'' @ num_text False 16 (unat (m AND NOT (known table)))])"
  shows "str_mask_loop flags d table m [] = Ok (Some (concat (map (\<lambda>n. n @ [d]) ns)))"
  using assms unfolding str_mask_loop_shown [of flags d table] by (auto simp: split_def comp_def)

lemma number_without_delims:
  assumes "list_all (\<lambda>c. hex_digit c = None \<and> c \<noteq> CHR ''x'') delim"
  shows "list_all (\<lambda>c. c \<notin> set delim) (''0x'' @ num_text False 16 k)"
proof -
  have all: "hex_digit c = None \<and> c \<noteq> CHR ''x''" if "c \<in> set delim" for c
    using assms that unfolding list_all_iff by (rule bspec)
  have "hex_digit CHR ''0'' \<noteq> None" by (simp add: hex_digit_def)
  then have "CHR ''0'' \<notin> set delim" using all [of "CHR ''0''"] by metis
  moreover from all [of "CHR ''x''"] have "CHR ''x'' \<notin> set delim" by blast
  moreover have "list_all (\<lambda>c. c \<notin> set delim) (num_text False 16 k)"
    unfolding list_all_iff
  proof
    fix c assume "c \<in> set (num_text False 16 k)"
    then have "hex_digit c \<noteq> None" using hex_text_number [of k] by blast
    then show "c \<notin> set delim" using all [of c] by (metis)
  qed
  ultimately show ?thesis by (simp only: list.pred_inject append_Cons append_Nil simp_thms)
qed

text \<open>
  An entry with several bits is shown as soon as one of them is set, and no flag asks for more; read back, the text
  gives bits that were not in the mask. So the round trip below is for masks that respect the entries.
\<close>

lemma partial_entry_shown:
  "str_name_mask_opt [(''AB'', 3)] (1 :: 32 word) NAME_MASK_FATAL = Ok (Some ''AB'')"
  "name_mask_delim_opt [(''AB'', 3)] ''AB'' NAME_MASK_DEFAULT_DELIM NAME_MASK_FATAL = Ok (3 :: 32 word)"
  by (simp_all add: str_name_mask_opt_def name_mask_delim_opt_def has_flag_def mask_delim_def mask_compare_def strtok_all_words words_of_def
      STR_NAME_MASK_REQUIRED_def NAME_MASK_REQUIRED_def NAME_MASK_FATAL_def NAME_MASK_RETURN_def NAME_MASK_WARN_def NAME_MASK_IGNORE_def
      NAME_MASK_NUMBER_def NAME_MASK_COMMA_def NAME_MASK_PIPE_def NAME_MASK_ANY_CASE_def NAME_MASK_DEFAULT_DELIM_def)

text \<open>
  C23: Round trip, for masks of at most 64 bits, under these conditions. The names of the table are not empty, differ
  under the comparison that the reader uses, contain none of the reader's delimiters and do not begin with \<open>0x\<close>. The
  mask contains every entry of the table wholly or not at all. The delimiter that the writer puts between the names is
  one of the reader's delimiters (the \<open>|\<close> of \<open>NAME_MASK_PIPE\<close> is not among the default ones), and no
  delimiter is a hexadecimal digit or an \<open>x\<close>. Both calls have one of the flags that they require. All bits of the mask
  have names, or \<open>NAME_MASK_NUMBER\<close> is set in both calls. Then the mask has a text, and the text is read back as the
  same mask.
\<close>

theorem name_mask_roundtrip:
  fixes m :: "'w::len word"
  assumes "LENGTH('w) \<le> 64" "table_ok flags delim table" "whole m table"
    "mask_delim str_flags \<in> set delim" "list_all (\<lambda>c. hex_digit c = None \<and> c \<noteq> CHR ''x'') delim"
    "has_flag flags NAME_MASK_REQUIRED" "has_flag str_flags STR_NAME_MASK_REQUIRED"
    "m AND NOT (known table) = 0 \<or> has_flag str_flags NAME_MASK_NUMBER \<and> has_flag flags NAME_MASK_NUMBER"
  shows "\<exists>s. str_name_mask_opt table m str_flags = Ok (Some s) \<and> name_mask_delim_opt table s delim flags = Ok m"
proof -
  let ?rest = "m AND NOT (known table)"
  define ns where "ns = map fst (shown table m) @ (if ?rest = 0 then [] else [''0x'' @ num_text False 16 (unat ?rest)])"
  define s where "s = concat (map (\<lambda>n. n @ [mask_delim str_flags]) ns)"
  define t where "t = (if length s > 0 then take (length s - 1) s else s)"
  have "str_mask_loop str_flags (mask_delim str_flags) table m [] = Ok (Some s)"
    unfolding s_def by (rule str_mask_text [OF _ ns_def]) (use assms(8) in blast)
  then have str: "str_name_mask_opt table m str_flags = Ok (Some t)" using assms(7) by (simp add: str_name_mask_opt_def t_def)
  have num: "list_all (\<lambda>c. c \<notin> set delim) (''0x'' @ num_text False 16 k)" for k
    by (rule number_without_delims [OF assms(5)])
  have "list_all (\<lambda>n. n \<noteq> [] \<and> list_all (\<lambda>c. c \<notin> set delim) n) (map fst (shown table m))"
    using assms(2) shown_hit by (fastforce simp: table_ok_def list_all_iff)
  then have "list_all (\<lambda>n. n \<noteq> [] \<and> list_all (\<lambda>c. c \<notin> set delim) n) ns" using num by (simp add: ns_def)
  from words_of_truncated [OF assms(4) this s_def] have "strtok_all t delim = ns" by (simp add: t_def strtok_all_words)
  then have "name_mask_delim_opt table t delim flags = name_mask_loop flags (mask_compare flags) table ns 0"
    using assms(6) by (simp add: name_mask_delim_opt_def)
  also have "\<dots> = Ok (known (shown table m) OR ?rest)"
  proof -
    have sub: "set (shown table m) \<subseteq> set table" using shown_hit by fastforce
    have number: "name_mask_loop flags (mask_compare flags) table [''0x'' @ num_text False 16 (unat ?rest)] r = Ok (r OR ?rest)"
      if "has_flag flags NAME_MASK_NUMBER" for r
      using that mask_lookup_number [OF assms(2)] hex_to_ulong_text [OF assms(1), of ?rest] ucast_through_long [OF assms(1), of ?rest] by simp
    show ?thesis
    proof (cases "?rest = 0")
      case True
      then show ?thesis using name_mask_loop_known [OF assms(2) sub, of "[]"] by (simp add: ns_def)
    next
      case False
      then show ?thesis using name_mask_loop_known [OF assms(2) sub] number assms(8) by (simp only: ns_def if_False) simp
    qed
  qed
  finally show ?thesis using str shown_whole [OF assms(3)] by simp
qed

text \<open>The table of the test program, at both widths.\<close>

theorem name_mask_roundtrip_witness:
  "(\<exists>s. str_name_mask_opt [(''zero'', 1), (''one'', 2), (''two'', 4), (''three'', 8)] (0xff05 :: 32 word) NAME_MASK_NUMBER = Ok (Some s) \<and>
     name_mask_delim_opt [(''zero'', 1), (''one'', 2), (''two'', 4), (''three'', 8)] s NAME_MASK_DEFAULT_DELIM (NAME_MASK_NUMBER OR NAME_MASK_FATAL) = Ok (0xff05 :: 32 word)) \<and>
   (\<exists>s. str_long_name_mask_opt [(''zero'', 1), (''one'', 2), (''two'', 4), (''three'', 8)] 0x123456789abcdef0 NAME_MASK_NUMBER = Ok (Some s) \<and>
     long_name_mask_delim_opt [(''zero'', 1), (''one'', 2), (''two'', 4), (''three'', 8)] s NAME_MASK_DEFAULT_DELIM (NAME_MASK_NUMBER OR NAME_MASK_FATAL) = Ok 0x123456789abcdef0)"
proof
  note defs = table_ok_def whole_def mask_key_def mask_delim_def has_flag_def NAME_MASK_DEFAULT_DELIM_def NAME_MASK_REQUIRED_def STR_NAME_MASK_REQUIRED_def
    NAME_MASK_NUMBER_def NAME_MASK_FATAL_def NAME_MASK_ANY_CASE_def NAME_MASK_COMMA_def NAME_MASK_PIPE_def NAME_MASK_RETURN_def NAME_MASK_WARN_def
    NAME_MASK_IGNORE_def hex_digit_def strcasecmp_def TOLOWER_def ctype_defs
  show "\<exists>s. str_name_mask_opt [(''zero'', 1), (''one'', 2), (''two'', 4), (''three'', 8)] (0xff05 :: 32 word) NAME_MASK_NUMBER = Ok (Some s) \<and>
     name_mask_delim_opt [(''zero'', 1), (''one'', 2), (''two'', 4), (''three'', 8)] s NAME_MASK_DEFAULT_DELIM (NAME_MASK_NUMBER OR NAME_MASK_FATAL) = Ok (0xff05 :: 32 word)"
    by (rule name_mask_roundtrip) (simp_all add: defs)
  show "\<exists>s. str_long_name_mask_opt [(''zero'', 1), (''one'', 2), (''two'', 4), (''three'', 8)] 0x123456789abcdef0 NAME_MASK_NUMBER = Ok (Some s) \<and>
     long_name_mask_delim_opt [(''zero'', 1), (''one'', 2), (''two'', 4), (''three'', 8)] s NAME_MASK_DEFAULT_DELIM (NAME_MASK_NUMBER OR NAME_MASK_FATAL) = Ok 0x123456789abcdef0"
    unfolding str_long_name_mask_opt_def long_name_mask_delim_opt_def by (rule name_mask_roundtrip) (simp_all add: defs)
qed

end
