(* ===== verification/Events.thy ===== *)
theory Events
  imports Ring "HOL-Library.Sublist"
begin

text \<open>
  The timer queue of the event manager \<open>src/util/events.c\<close>: requests in a ring sorted by time, and the
  delivery loop of \<open>event_loop\<close>, whose call-backs may make and cancel requests while it runs.

  A timer and the ring node embedded in it have the same address; the queue head is the node 0. Times and the
  counter of turns are unbounded integers: a \<open>time_t\<close> or \<open>long\<close> of 64 bits does not reach its bound. A time that is
  left or to be waited for is cut to an \<open>int\<close> as in the code.

  \<open>time()\<close> is an argument, the sequence of the times it returns, and the state counts the calls.
  The call-backs of the application are an argument too: for a call-back, its context and the state of
  the application, a new state and the timer operations it performs, in order. They do not call \<open>event_loop\<close>,
  which would make it panic. The descriptor part is reduced to what it does to the timers: how the wait ends,
  and the timer operations of the call-backs for descriptors, which run after the timers.
\<close>

section \<open>The timer queue\<close>

record ('f, 'c) event_timer =
  tm_when :: int
  tm_callback :: 'f
  tm_context :: 'c
  tm_loop_instance :: int

record ('f, 'c) events =
  ev_rings :: rings
  ev_heap :: "nat \<Rightarrow> ('f, 'c) event_timer option"
  ev_brk :: nat
  ev_present :: int
  ev_loop_instance :: int
  ev_ticks :: nat

abbreviation (input) event_timer_head :: nat where
  "event_timer_head \<equiv> 0"

definition read_time :: "(nat \<Rightarrow> int) \<Rightarrow> ('f, 'c) events \<Rightarrow> ('f, 'c) events" where
  "read_time clock st = st\<lparr>ev_present := clock (ev_ticks st), ev_ticks := ev_ticks st + 1\<rparr>"

definition EVENT_INIT_NEEDED :: "('f, 'c) events \<Rightarrow> bool" where
  "EVENT_INIT_NEEDED st \<longleftrightarrow> ev_present st = 0"

definition event_init :: "(nat \<Rightarrow> int) \<Rightarrow> ('f, 'c) events \<Rightarrow> ('f, 'c) events outcome" where
  "event_init clock st =
     (if \<not> EVENT_INIT_NEEDED st then Panic ''event_init: repeated call''
      else let st = st\<lparr>ev_rings := ring_init (ev_rings st) event_timer_head\<rparr>;
               st = read_time clock st
           in if EVENT_INIT_NEEDED st then Panic ''event_init: unable to initialize'' else Ok st)"

definition initialised :: "(nat \<Rightarrow> int) \<Rightarrow> ('f, 'c) events \<Rightarrow> ('f, 'c) events outcome" where
  "initialised clock st = (if EVENT_INIT_NEEDED st then event_init clock st else Ok st)"

text \<open>The time of the last reading, which \<open>event_time\<close> returns.\<close>

definition event_time :: "(nat \<Rightarrow> int) \<Rightarrow> ('f, 'c) events \<Rightarrow> (int \<times> ('f, 'c) events) outcome" where
  "event_time clock st = obind (initialised clock st) (\<lambda>st. Ok (ev_present st, st))"

text \<open>
  The loop over the queue stops at the first entry that satisfies a test, or at the head. The test may
  read a timer that is not allocated.
\<close>

partial_function (option) queue_scan :: "rings \<Rightarrow> (nat \<Rightarrow> bool option) \<Rightarrow> nat \<Rightarrow> nat outcome option" where
  "queue_scan h test entry =
     (if entry = event_timer_head then Some (Ok entry)
      else case test entry of
        None \<Rightarrow> Some Fault
      | Some found \<Rightarrow>
          if found then Some (Ok entry)
          else (case ring_succ h entry of None \<Rightarrow> Some Fault | Some entry \<Rightarrow> queue_scan h test entry))"

definition FOREACH_QUEUE_ENTRY :: "rings \<Rightarrow> (nat \<Rightarrow> bool option) \<Rightarrow> nat outcome" where
  "FOREACH_QUEUE_ENTRY h test = obind (deref (ring_succ h event_timer_head)) (\<lambda>entry. run (queue_scan h test entry))"

definition same_request :: "'f \<Rightarrow> 'c \<Rightarrow> ('f, 'c) event_timer \<Rightarrow> bool" where
  "same_request callback context timer \<longleftrightarrow> tm_callback timer = callback \<and> tm_context timer = context"

definition find_request :: "('f, 'c) events \<Rightarrow> 'f \<Rightarrow> 'c \<Rightarrow> nat outcome" where
  "find_request st callback context =
     FOREACH_QUEUE_ENTRY (ev_rings st) (\<lambda>ring. map_option (same_request callback context) (ev_heap st ring))"

text \<open>The timer is put in front of the first one that is due later.\<close>

definition place_timer :: "('f, 'c) events \<Rightarrow> nat \<Rightarrow> ('f, 'c) event_timer \<Rightarrow> (int \<times> ('f, 'c) events) outcome" where
  "place_timer st a timer =
     (let st = st\<lparr>ev_heap := (ev_heap st)(a \<mapsto> timer)\<rparr> in
      obind (FOREACH_QUEUE_ENTRY (ev_rings st) (\<lambda>ring. map_option (\<lambda>t. tm_when timer < tm_when t) (ev_heap st ring))) (\<lambda>ring.
      obind (ring_prepend (ev_rings st) ring a) (\<lambda>h.
        Ok (tm_when timer, st\<lparr>ev_rings := h\<rparr>))))"

definition event_request_timer ::
  "(nat \<Rightarrow> int) \<Rightarrow> 'f \<Rightarrow> 'c \<Rightarrow> int \<Rightarrow> ('f, 'c) events \<Rightarrow> (int \<times> ('f, 'c) events) outcome" where
  "event_request_timer clock callback context delay st =
     obind (initialised clock st) (\<lambda>st.
     if delay < 0 then Panic ''event_request_timer: invalid delay''
     else
       let st = read_time clock st;
           timer = \<lparr>tm_when = ev_present st + delay, tm_callback = callback, tm_context = context,
                    tm_loop_instance = ev_loop_instance st\<rparr> in
       obind (find_request st callback context) (\<lambda>ring.
       obind (if ring = event_timer_head
              then Ok (ev_brk st, st\<lparr>ev_brk := ev_brk st + 1\<rparr>)
              else obind (ring_detach (ev_rings st) ring) (\<lambda>h. Ok (ring, st\<lparr>ev_rings := h\<rparr>))) (\<lambda>(a, st).
         place_timer st a timer)))"

text \<open>A difference of times stored in an \<open>int\<close>.\<close>

definition to_int :: "int \<Rightarrow> int" where
  "to_int t = signed_take_bit 31 t"

definition read_timer :: "('f, 'c) events \<Rightarrow> nat \<Rightarrow> ('f, 'c) event_timer outcome" where
  "read_timer st a = (case ev_heap st a of None \<Rightarrow> Fault | Some t \<Rightarrow> Ok t)"

definition event_cancel_timer ::
  "(nat \<Rightarrow> int) \<Rightarrow> 'f \<Rightarrow> 'c \<Rightarrow> ('f, 'c) events \<Rightarrow> (int \<times> ('f, 'c) events) outcome" where
  "event_cancel_timer clock callback context st =
     obind (initialised clock st) (\<lambda>st.
     obind (find_request st callback context) (\<lambda>ring.
       if ring = event_timer_head then Ok (-1, st)
       else obind (read_timer st ring) (\<lambda>timer.
         let time_left = to_int (tm_when timer - ev_present st);
             time_left = (if time_left < 0 then 0 else time_left) in
         obind (ring_detach (ev_rings st) ring) (\<lambda>h.
           Ok (time_left, st\<lparr>ev_rings := h, ev_heap := (ev_heap st)(ring := None)\<rparr>)))))"

section \<open>The event loop\<close>

datatype ('f, 'c) timer_call = Request 'f 'c int | Cancel 'f 'c

type_synonym ('f, 'c, 's) application = "'f \<Rightarrow> 'c \<Rightarrow> 's \<Rightarrow> 's \<times> ('f, 'c) timer_call list"

fun make_calls :: "(nat \<Rightarrow> int) \<Rightarrow> ('f, 'c) timer_call list \<Rightarrow> ('f, 'c) events \<Rightarrow> ('f, 'c) events outcome" where
  "make_calls clock [] st = Ok st"
| "make_calls clock (Request f c delay # cs) st =
     obind (event_request_timer clock f c delay st) (\<lambda>(_, st). make_calls clock cs st)"
| "make_calls clock (Cancel f c # cs) st =
     obind (event_cancel_timer clock f c st) (\<lambda>(_, st). make_calls clock cs st)"

definition FIRST_TIMER :: "('f, 'c) events \<Rightarrow> (nat \<times> ('f, 'c) event_timer) option outcome" where
  "FIRST_TIMER st =
     obind (deref (ring_succ (ev_rings st) event_timer_head)) (\<lambda>a.
       if a = event_timer_head then Ok None else obind (read_timer st a) (\<lambda>t. Ok (Some (a, t))))"

text \<open>One turn of the delivery loop: none when it ends, or the timer that was delivered.\<close>

definition deliver_step ::
  "(nat \<Rightarrow> int) \<Rightarrow> ('f, 'c, 's) application \<Rightarrow> ('f, 'c) events \<Rightarrow> 's \<Rightarrow>
   (('f, 'c) event_timer \<times> ('f, 'c) events \<times> 's) option outcome" where
  "deliver_step clock app st s =
     obind (FIRST_TIMER st) (\<lambda>first.
       case first of
         None \<Rightarrow> Ok None
       | Some (a, timer) \<Rightarrow>
           if tm_when timer > ev_present st then Ok None
           else if tm_loop_instance timer = ev_loop_instance st then Ok None
           else obind (ring_detach (ev_rings st) a) (\<lambda>h.
             let (s, calls) = app (tm_callback timer) (tm_context timer) s in
             obind (make_calls clock calls (st\<lparr>ev_rings := h\<rparr>)) (\<lambda>st.
               Ok (Some (timer, st\<lparr>ev_heap := (ev_heap st)(a := None)\<rparr>, s)))))"

partial_function (option) deliver_loop ::
  "(nat \<Rightarrow> int) \<Rightarrow> ('f, 'c, 's) application \<Rightarrow> ('f, 'c) events \<Rightarrow> 's \<Rightarrow> ('f, 'c) event_timer list \<Rightarrow>
   (('f, 'c) event_timer list \<times> ('f, 'c) events \<times> 's) outcome option" where
  "deliver_loop clock app st s log =
     (case deliver_step clock app st s of
        Ok None \<Rightarrow> Some (Ok (log, st, s))
      | Ok (Some (timer, st, s)) \<Rightarrow> deliver_loop clock app st s (log @ [timer])
      | Fatal m \<Rightarrow> Some (Fatal m) | Panic m \<Rightarrow> Some (Panic m)
      | Fault \<Rightarrow> Some Fault | Diverge \<Rightarrow> Some Diverge)"

text \<open>
  How the wait for descriptors ends: with events on some of them, interrupted by a signal, or with an error.
  The events come with what their call-backs do to the application and to the timers.
\<close>

datatype ('f, 'c, 's) wait = Ready "'s \<Rightarrow> 's \<times> ('f, 'c) timer_call list" | Interrupted | Failed

definition select_delay :: "(nat \<Rightarrow> int) \<Rightarrow> int \<Rightarrow> ('f, 'c) events \<Rightarrow> (int \<times> ('f, 'c) events) outcome" where
  "select_delay clock delay st =
     obind (FIRST_TIMER st) (\<lambda>first.
       case first of
         None \<Rightarrow> Ok (delay, st)
       | Some (a, timer) \<Rightarrow>
           let st = read_time clock st; d = to_int (tm_when timer - ev_present st) in
           Ok (if d < 0 then 0 else if delay \<ge> 0 \<and> d > delay then delay else d, st))"

definition event_loop ::
  "(nat \<Rightarrow> int) \<Rightarrow> ('f, 'c, 's) application \<Rightarrow> int \<Rightarrow> ('f, 'c, 's) wait \<Rightarrow> ('f, 'c) events \<Rightarrow> 's \<Rightarrow>
   (int \<times> ('f, 'c) event_timer list \<times> ('f, 'c) events \<times> 's) outcome" where
  "event_loop clock app delay wait st s =
     obind (initialised clock st) (\<lambda>st.
     obind (select_delay clock delay st) (\<lambda>(d, st).
       case wait of
         Failed \<Rightarrow> Fatal ''event_loop: select''
       | Interrupted \<Rightarrow> Ok (d, [], st, s)
       | Ready io \<Rightarrow>
           let st = read_time clock st; st = st\<lparr>ev_loop_instance := ev_loop_instance st + 1\<rparr> in
           obind (run (deliver_loop clock app st s [])) (\<lambda>(log, st, s).
             let (s, calls) = io s in
             obind (make_calls clock calls st) (\<lambda>st. Ok (d, log, st, s)))))"

text \<open>The state of a process that has not used the event manager yet.\<close>

definition events_start :: "('f, 'c) events" where
  "events_start = \<lparr>ev_rings = \<lparr>rg_succ = (\<lambda>_. None), rg_pred = (\<lambda>_. None)\<rparr>, ev_heap = (\<lambda>_. None), ev_brk = 1,
     ev_present = 0, ev_loop_instance = 0, ev_ticks = 0\<rparr>"

section \<open>The agenda\<close>

text \<open>What the queue stands for: a list of requests in the order of their times, with first come, first served.\<close>

record ('f, 'c) agenda =
  ag_queue :: "('f, 'c) event_timer list"
  ag_present :: int
  ag_instance :: int
  ag_ticks :: nat

definition a_read :: "(nat \<Rightarrow> int) \<Rightarrow> ('f, 'c) agenda \<Rightarrow> ('f, 'c) agenda" where
  "a_read clock ag = ag\<lparr>ag_present := clock (ag_ticks ag), ag_ticks := ag_ticks ag + 1\<rparr>"

definition a_init :: "(nat \<Rightarrow> int) \<Rightarrow> ('f, 'c) agenda \<Rightarrow> ('f, 'c) agenda" where
  "a_init clock ag = (if ag_present ag = 0 then a_read clock ag else ag)"

definition q_insert :: "('f, 'c) event_timer \<Rightarrow> ('f, 'c) event_timer list \<Rightarrow> ('f, 'c) event_timer list" where
  "q_insert t q = takeWhile (\<lambda>u. tm_when u \<le> tm_when t) q @ t # dropWhile (\<lambda>u. tm_when u \<le> tm_when t) q"

definition q_remove :: "'f \<Rightarrow> 'c \<Rightarrow> ('f, 'c) event_timer list \<Rightarrow> ('f, 'c) event_timer list" where
  "q_remove f c q = filter (\<lambda>t. \<not> same_request f c t) q"

definition a_request :: "(nat \<Rightarrow> int) \<Rightarrow> 'f \<Rightarrow> 'c \<Rightarrow> int \<Rightarrow> ('f, 'c) agenda \<Rightarrow> int \<times> ('f, 'c) agenda" where
  "a_request clock f c delay ag =
     (let ag = a_read clock (a_init clock ag);
          t = \<lparr>tm_when = ag_present ag + delay, tm_callback = f, tm_context = c, tm_loop_instance = ag_instance ag\<rparr>
      in (tm_when t, ag\<lparr>ag_queue := q_insert t (q_remove f c (ag_queue ag))\<rparr>))"

definition a_cancel :: "(nat \<Rightarrow> int) \<Rightarrow> 'f \<Rightarrow> 'c \<Rightarrow> ('f, 'c) agenda \<Rightarrow> int \<times> ('f, 'c) agenda" where
  "a_cancel clock f c ag =
     (let ag = a_init clock ag in
      (case filter (same_request f c) (ag_queue ag) of
         [] \<Rightarrow> -1 | t # _ \<Rightarrow> max 0 (to_int (tm_when t - ag_present ag)),
       ag\<lparr>ag_queue := q_remove f c (ag_queue ag)\<rparr>))"

fun a_calls :: "(nat \<Rightarrow> int) \<Rightarrow> ('f, 'c) timer_call list \<Rightarrow> ('f, 'c) agenda \<Rightarrow> ('f, 'c) agenda" where
  "a_calls clock [] ag = ag"
| "a_calls clock (Request f c delay # cs) ag = a_calls clock cs (snd (a_request clock f c delay ag))"
| "a_calls clock (Cancel f c # cs) ag = a_calls clock cs (snd (a_cancel clock f c ag))"

text \<open>The requests that were not made in the current turn of the event loop only get fewer.\<close>

definition older :: "('f, 'c) agenda \<Rightarrow> ('f, 'c) event_timer list" where
  "older ag = filter (\<lambda>t. tm_loop_instance t \<noteq> ag_instance ag) (ag_queue ag)"

lemma a_read_simps [simp]: "ag_queue (a_read clock ag) = ag_queue ag" "ag_instance (a_read clock ag) = ag_instance ag"
  "ag_queue (a_init clock ag) = ag_queue ag" "ag_instance (a_init clock ag) = ag_instance ag"
  by (simp_all add: a_read_def a_init_def)

lemma filter_q_insert: "\<not> P t \<Longrightarrow> filter P (q_insert t q) = filter P q"
  by (simp add: q_insert_def) (metis filter_append takeWhile_dropWhile_id)

lemma subseq_filter_mono: "(\<And>x. P x \<Longrightarrow> Q x) \<Longrightarrow> subseq (filter P xs) (filter Q xs)"
  by (induction xs) auto

lemma a_request_older: "subseq (older (snd (a_request clock f c delay ag))) (older ag)"
  by (simp add: a_request_def older_def Let_def filter_q_insert q_remove_def) (rule subseq_filter_mono, simp)

lemma a_cancel_older: "subseq (older (snd (a_cancel clock f c ag))) (older ag)"
  by (simp add: a_cancel_def older_def Let_def q_remove_def) (rule subseq_filter_mono, simp)

lemma a_calls_older: "subseq (older (a_calls clock cs ag)) (older ag) \<and> ag_instance (a_calls clock cs ag) = ag_instance ag"
proof (induction clock cs ag rule: a_calls.induct)
  case (2 clock f c delay cs ag)
  then show ?case using a_request_older [of clock f c delay ag] by (auto simp: a_request_def Let_def intro: subseq_order.trans)
next
  case (3 clock f c cs ag)
  then show ?case using a_cancel_older [of clock f c ag] by (auto simp: a_cancel_def Let_def intro: subseq_order.trans)
qed simp

lemma deliver_shorter:
  assumes "ag_queue ag = t # q" "tm_loop_instance t \<noteq> ag_instance ag"
  shows "length (older (a_calls clock calls (ag\<lparr>ag_queue := q\<rparr>))) < length (older ag)"
proof -
  have "length (older (a_calls clock calls (ag\<lparr>ag_queue := q\<rparr>))) \<le> length (older (ag\<lparr>ag_queue := q\<rparr>))"
    using a_calls_older list_emb_length by blast
  also have "\<dots> < length (older ag)" using assms by (simp add: older_def)
  finally show ?thesis .
qed

function a_deliver :: "(nat \<Rightarrow> int) \<Rightarrow> ('f, 'c, 's) application \<Rightarrow> ('f, 'c) agenda \<Rightarrow> 's \<Rightarrow> ('f, 'c) event_timer list \<times> ('f, 'c) agenda \<times> 's" where
  "a_deliver clock app ag s =
     (case ag_queue ag of
        [] \<Rightarrow> ([], ag, s)
      | t # q \<Rightarrow>
          if tm_when t > ag_present ag \<or> tm_loop_instance t = ag_instance ag then ([], ag, s)
          else let (s, calls) = app (tm_callback t) (tm_context t) s;
                   (log, ag, s) = a_deliver clock app (a_calls clock calls (ag\<lparr>ag_queue := q\<rparr>)) s
               in (t # log, ag, s))"
  by pat_completeness auto
termination
  by (relation "measure (\<lambda>(_, _, ag, _). length (older ag))") (auto intro: deliver_shorter)

declare a_deliver.simps [simp del]

section \<open>The queue represents the agenda\<close>

definition rep :: "('f, 'c) events \<Rightarrow> nat list \<Rightarrow> ('f, 'c) agenda \<Rightarrow> bool" where
  "rep st as ag \<longleftrightarrow>
     ring_holds (ev_rings st) event_timer_head as \<and> map (ev_heap st) as = map Some (ag_queue ag) \<and>
     (\<forall>a \<in> set as. a < ev_brk st) \<and> 0 < ev_brk st \<and> ev_present st \<noteq> 0 \<and>
     ev_present st = ag_present ag \<and> ev_loop_instance st = ag_instance ag \<and> ev_ticks st = ag_ticks ag"

text \<open>Every request is due no earlier than the one before it, no two are for the same call, and none is from a later turn.\<close>

definition agenda_ok :: "('f, 'c) agenda \<Rightarrow> bool" where
  "agenda_ok ag \<longleftrightarrow> sorted (map tm_when (ag_queue ag)) \<and>
     distinct (map (\<lambda>t. (tm_callback t, tm_context t)) (ag_queue ag)) \<and>
     (\<forall>t \<in> set (ag_queue ag). tm_loop_instance t \<le> ag_instance ag)"

lemma scan_stops:
  assumes "linked h (as @ [0])" "0 \<notin> set as" "\<And>a. a \<in> set as \<Longrightarrow> test a = Some (P a)"
  shows "queue_scan h test (hd (as @ [0])) = Some (Ok (hd (dropWhile (\<lambda>a. \<not> P a) as @ [0])))"
  using assms
proof (induction as)
  case (Cons a as)
  have "rg_succ h a = Some (hd (as @ [0]))" "linked h (as @ [0])" using Cons.prems(1) by (cases as; simp)+
  with Cons show ?case by (simp add: queue_scan.simps [of h test a] ring_succ_def)
qed (simp add: queue_scan.simps)

lemma foreach_stops:
  assumes "ring_holds h 0 as" "\<And>a. a \<in> set as \<Longrightarrow> test a = Some (P a)"
  shows "FOREACH_QUEUE_ENTRY h test = Ok (hd (dropWhile (\<lambda>a. \<not> P a) as @ [0]))"
proof -
  have "linked h (as @ [0])" "0 \<notin> set as" using assms(1) linked_app [of h "[0]"] by (cases as; auto simp: ring_holds_def)+
  from scan_stops [OF this, of test P] assms ring_first [OF assms(1)] show ?thesis
    by (simp add: FOREACH_QUEUE_ENTRY_def deref_def)
qed

text \<open>A loop that looks for a timer with some property stops at the node of the first one, or at the head.\<close>

lemma rep_scan:
  assumes "rep st as ag"
  obtains bs cs where "as = bs @ cs" "map (ev_heap st) bs = map Some (takeWhile (\<lambda>t. \<not> P t) (ag_queue ag))"
    "map (ev_heap st) cs = map Some (dropWhile (\<lambda>t. \<not> P t) (ag_queue ag))"
    "FOREACH_QUEUE_ENTRY (ev_rings st) (\<lambda>a. map_option P (ev_heap st a)) = Ok (hd (cs @ [0]))"
proof -
  let ?P = "\<lambda>a. P (the (ev_heap st a))"
  have m: "map (ev_heap st) as = map Some (ag_queue ag)" and ring: "ring_holds (ev_rings st) 0 as" using assms by (auto simp: rep_def)
  have alloc: "ev_heap st a = Some (the (ev_heap st a))" if "a \<in> set as" for a
  proof -
    from that m have "ev_heap st a \<in> set (map Some (ag_queue ag))" by (metis image_eqI list.set_map)
    then show ?thesis by auto
  qed
  have q: "ag_queue ag = map (the \<circ> ev_heap st) as" using arg_cong [OF m, of "map the"] by (simp add: comp_def)
  have t: "takeWhile (\<lambda>t. \<not> P t) (ag_queue ag) = map (the \<circ> ev_heap st) (takeWhile (\<lambda>a. \<not> ?P a) as)"
    "dropWhile (\<lambda>t. \<not> P t) (ag_queue ag) = map (the \<circ> ev_heap st) (dropWhile (\<lambda>a. \<not> ?P a) as)"
    unfolding q by (simp_all add: takeWhile_map dropWhile_map comp_def)
  have "map (ev_heap st) xs = map Some (map (the \<circ> ev_heap st) xs)" if "set xs \<subseteq> set as" for xs
    using that alloc by (auto simp: subset_iff)
  then show thesis
    using that [of "takeWhile (\<lambda>a. \<not> ?P a) as" "dropWhile (\<lambda>a. \<not> ?P a) as"] t alloc
      foreach_stops [OF ring, of "\<lambda>a. map_option P (ev_heap st a)" ?P]
    by (auto dest: set_takeWhileD set_dropWhileD)
qed

lemma rep_read: "rep st as ag \<Longrightarrow> clock (ev_ticks st) \<noteq> 0 \<Longrightarrow> rep (read_time clock st) as (a_read clock ag)"
  by (simp add: rep_def read_time_def a_read_def)

text \<open>Taking a node out of the ring takes its request out of the agenda.\<close>

lemma rep_detach:
  assumes "rep st (bs @ e # cs) ag" "ag_queue ag = q1 @ t # q2" "length q1 = length bs"
  obtains h where "ring_detach (ev_rings st) e = Ok h" "rep (st\<lparr>ev_rings := h\<rparr>) (bs @ cs) (ag\<lparr>ag_queue := q1 @ q2\<rparr>)" "ev_heap st e = Some t"
proof -
  have m: "map (ev_heap st) bs = map Some q1" "ev_heap st e = Some t" "map (ev_heap st) cs = map Some q2"
    using assms by (auto simp: rep_def)
  obtain h where "ring_detach (ev_rings st) e = Ok h" "ring_holds h 0 (bs @ cs)"
    using ring_detach_ok [of "ev_rings st" 0 bs e cs] assms(1) by (auto simp: rep_def)
  with m assms(1) that show thesis by (auto simp: rep_def)
qed

lemma rep_frame: "rep st as ag \<Longrightarrow> a \<notin> set as \<Longrightarrow> rep (st\<lparr>ev_heap := (ev_heap st)(a := x)\<rparr>) as ag"
  by (simp add: rep_def map_fun_upd)

lemma rep_insert:
  fixes t :: "('f, 'c) event_timer"
  assumes "rep st as ag" "a \<notin> set as" "0 < a" "a < ev_brk st"
  defines "st1 \<equiv> st\<lparr>ev_heap := (ev_heap st)(a \<mapsto> t)\<rparr>"
  obtains ring h bs cs where
    "FOREACH_QUEUE_ENTRY (ev_rings st1) (\<lambda>ring. map_option (\<lambda>u. tm_when t < tm_when u) (ev_heap st1 ring)) = Ok ring"
    "ring_prepend (ev_rings st1) ring a = Ok h" "as = bs @ cs"
    "rep (st1\<lparr>ev_rings := h\<rparr>) (bs @ a # cs) (ag\<lparr>ag_queue := q_insert t (ag_queue ag)\<rparr>)"
proof -
  have st1: "rep st1 as ag" unfolding st1_def by (rule rep_frame [OF assms(1,2)])
  obtain bs cs where bc: "as = bs @ cs" "map (ev_heap st1) bs = map Some (takeWhile (\<lambda>u. \<not> tm_when t < tm_when u) (ag_queue ag))"
    "map (ev_heap st1) cs = map Some (dropWhile (\<lambda>u. \<not> tm_when t < tm_when u) (ag_queue ag))"
    "FOREACH_QUEUE_ENTRY (ev_rings st1) (\<lambda>a. map_option (\<lambda>u. tm_when t < tm_when u) (ev_heap st1 a)) = Ok (hd (cs @ [0]))"
    by (rule rep_scan [OF st1])
  obtain h where h: "ring_prepend (ev_rings st1) (hd (cs @ [0])) a = Ok h" "ring_holds h 0 (bs @ a # cs)"
    using ring_prepend_before [of "ev_rings st1" 0 bs cs a] st1 bc(1) assms(2,3) by (auto simp: rep_def)
  have "rep (st1\<lparr>ev_rings := h\<rparr>) (bs @ a # cs) (ag\<lparr>ag_queue := q_insert t (ag_queue ag)\<rparr>)"
    using st1 h(2) bc(1-3) assms(4) by (auto simp: rep_def q_insert_def not_less st1_def)
  with that bc(1,4) h(1) show thesis by blast
qed

text \<open>Requests for the same call are unique, so that removing the first one removes all.\<close>

lemma remove_found:
  assumes "agenda_ok ag" "ag_queue ag = q1 @ t # q2" "same_request f c t" "\<forall>u \<in> set q1. \<not> same_request f c u"
  shows "q_remove f c (ag_queue ag) = q1 @ q2" "filter (same_request f c) (ag_queue ag) = [t]"
proof -
  have "\<not> same_request f c u" if "u \<in> set q2" for u
  proof
    assume "same_request f c u"
    then have "(tm_callback t, tm_context t) \<in> set (map (\<lambda>t. (tm_callback t, tm_context t)) q2)"
      using that assms(3) by (force simp: same_request_def)
    then show False using assms(1,2) by (auto simp: agenda_ok_def)
  qed
  with assms(2-4) show "q_remove f c (ag_queue ag) = q1 @ q2" "filter (same_request f c) (ag_queue ag) = [t]"
    by (auto simp: q_remove_def filter_id_conv filter_empty_conv)
qed

lemma remove_missing: "\<forall>u \<in> set q. \<not> same_request f c u \<Longrightarrow> q_remove f c q = q \<and> filter (same_request f c) q = []"
  by (auto simp: q_remove_def filter_id_conv filter_empty_conv)

lemma find_request_cases:
  assumes "rep st as ag" "agenda_ok ag"
  obtains (missing) "find_request st f c = Ok 0" "q_remove f c (ag_queue ag) = ag_queue ag" "filter (same_request f c) (ag_queue ag) = []"
  | (found) bs e cs q1 t q2 where "find_request st f c = Ok e" "e \<noteq> 0" "as = bs @ e # cs" "ag_queue ag = q1 @ t # q2" "length q1 = length bs"
      "q_remove f c (ag_queue ag) = q1 @ q2" "filter (same_request f c) (ag_queue ag) = [t]"
proof -
  let ?P = "\<lambda>t. \<not> same_request f c t"
  obtain bs cs where bc: "as = bs @ cs" "map (ev_heap st) bs = map Some (takeWhile ?P (ag_queue ag))"
    "map (ev_heap st) cs = map Some (dropWhile ?P (ag_queue ag))"
    "FOREACH_QUEUE_ENTRY (ev_rings st) (\<lambda>a. map_option (same_request f c) (ev_heap st a)) = Ok (hd (cs @ [0]))"
    by (rule rep_scan [OF assms(1)])
  show thesis
  proof (cases "dropWhile ?P (ag_queue ag)")
    case Nil
    have "cs = []" using bc(3) unfolding Nil by simp
    moreover have "\<forall>u \<in> set (ag_queue ag). \<not> same_request f c u" using Nil by (simp add: dropWhile_eq_Nil_conv)
    ultimately show thesis using bc(4) missing remove_missing [of "ag_queue ag" f c] by (simp add: find_request_def)
  next
    case (Cons t q2)
    let ?q1 = "takeWhile ?P (ag_queue ag)"
    obtain e cs' where e: "cs = e # cs'" using bc(3) Cons by (cases cs) auto
    have q: "ag_queue ag = ?q1 @ t # q2" using Cons by (metis takeWhile_dropWhile_id)
    have t: "same_request f c t" using Cons by (metis dropWhile_eq_Cons_conv)
    have "length ?q1 = length bs" using bc(2) by (metis length_map)
    moreover have "e \<noteq> 0" using assms(1) bc(1) e by (auto simp: rep_def ring_holds_def)
    moreover have "\<forall>u \<in> set ?q1. \<not> same_request f c u" by (auto dest: set_takeWhileD)
    ultimately show thesis
      using found [OF _ _ _ q] remove_found [OF assms(2) q t] bc e by (simp add: find_request_def)
  qed
qed

text \<open>Operations change the nodes of the queue only by nodes that were free before.\<close>

definition moves :: "('f, 'c) events \<Rightarrow> nat list \<Rightarrow> ('f, 'c) events \<Rightarrow> nat list \<Rightarrow> bool" where
  "moves st as st' as' \<longleftrightarrow> ev_brk st \<le> ev_brk st' \<and> set as' \<subseteq> set as \<union> {ev_brk st..}"

lemma moves_refl [simp]: "moves st as st as"
  by (simp add: moves_def)

lemma moves_trans: "moves st as st1 as1 \<Longrightarrow> moves st1 as1 st2 as2 \<Longrightarrow> moves st as st2 as2"
  by (force simp: moves_def)

text \<open>The second half of a request: the timer \<open>a\<close>, new or taken out of the ring, is put in its place.\<close>

lemma request_place:
  assumes r: "rep st2 as2 (ag\<lparr>ag_queue := q\<rparr>)" and a: "a \<notin> set as2" "0 < a" "a < ev_brk st2"
    and m: "ev_brk st \<le> ev_brk st2" "insert a (set as2) \<subseteq> set as \<union> {ev_brk st..}"
  shows "\<exists>st' as'. place_timer st2 a t = Ok (tm_when t, st') \<and> rep st' as' (ag\<lparr>ag_queue := q_insert t q\<rparr>) \<and> moves st as st' as'"
proof -
  let ?st = "st2\<lparr>ev_heap := (ev_heap st2)(a \<mapsto> t)\<rparr>"
  obtain ring h bs cs where ins:
    "FOREACH_QUEUE_ENTRY (ev_rings ?st) (\<lambda>ring. map_option (\<lambda>u. tm_when t < tm_when u) (ev_heap ?st ring)) = Ok ring"
    "ring_prepend (ev_rings ?st) ring a = Ok h" "as2 = bs @ cs" "rep (?st\<lparr>ev_rings := h\<rparr>) (bs @ a # cs) (ag\<lparr>ag_queue := q_insert t q\<rparr>)"
    by (rule rep_insert [OF r a, of t]) (rule that, simp_all)
  moreover have "moves st as (?st\<lparr>ev_rings := h\<rparr>) (bs @ a # cs)" using m ins(3) by (auto simp: moves_def)
  ultimately show ?thesis by (intro exI [of _ "?st\<lparr>ev_rings := h\<rparr>"] exI [of _ "bs @ a # cs"]) (simp add: place_timer_def Let_def)
qed

lemma request_ok:
  assumes "rep st as ag" "agenda_ok ag" "0 \<le> delay" "\<And>n. clock n \<noteq> 0"
  shows "\<exists>st' as'. event_request_timer clock f c delay st = Ok (fst (a_request clock f c delay ag), st') \<and>
    rep st' as' (snd (a_request clock f c delay ag)) \<and> moves st as st' as'"
proof -
  let ?st = "read_time clock st" and ?ag = "a_read clock ag"
  have present: "ev_present st \<noteq> 0" "ag_present ag \<noteq> 0" using assms(1) by (auto simp: rep_def)
  have r: "rep ?st as ?ag" using rep_read [OF assms(1), of clock] assms(4) by simp
  have ok: "agenda_ok ?ag" using assms(2) by (simp add: agenda_ok_def)
  define t where "t = \<lparr>tm_when = ev_present ?st + delay, tm_callback = f, tm_context = c, tm_loop_instance = ev_loop_instance ?st\<rparr>"
  have t: "t = \<lparr>tm_when = ag_present ?ag + delay, tm_callback = f, tm_context = c, tm_loop_instance = ag_instance ?ag\<rparr>"
    using r by (simp add: rep_def t_def)
  have spec: "a_request clock f c delay ag = (tm_when t, ?ag\<lparr>ag_queue := q_insert t (q_remove f c (ag_queue ?ag))\<rparr>)"
    using present(2) by (simp add: a_request_def a_init_def Let_def t)
  have brk: "ev_brk ?st = ev_brk st" by (simp add: read_time_def)
  note start = event_request_timer_def initialised_def EVENT_INIT_NEEDED_def
  from r ok show ?thesis
  proof (cases rule: find_request_cases [where f = f and c = c])
    case missing
    let ?st2 = "?st\<lparr>ev_brk := ev_brk ?st + 1\<rparr>"
    have "rep ?st2 as (?ag\<lparr>ag_queue := q_remove f c (ag_queue ?ag)\<rparr>)" using r missing(2) by (auto simp: rep_def)
    moreover have "ev_brk ?st \<notin> set as" "0 < ev_brk ?st" using r by (auto simp: rep_def)
    ultimately have "\<exists>st' as'. place_timer ?st2 (ev_brk ?st) t = Ok (tm_when t, st') \<and>
        rep st' as' (?ag\<lparr>ag_queue := q_insert t (q_remove f c (ag_queue ?ag))\<rparr>) \<and> moves st as st' as'"
      by (rule request_place) (use brk in auto)
    moreover have "event_request_timer clock f c delay st = place_timer ?st2 (ev_brk ?st) t"
      using present(1) assms(3) missing(1) by (simp add: start Let_def flip: t_def)
    ultimately show ?thesis unfolding spec by simp
  next
    case (found bs e cs q1 u q2)
    obtain h where h: "ring_detach (ev_rings ?st) e = Ok h" "rep (?st\<lparr>ev_rings := h\<rparr>) (bs @ cs) (?ag\<lparr>ag_queue := q1 @ q2\<rparr>)"
      using rep_detach r found(3,4,5) by metis
    have "distinct (0 # as)" "e < ev_brk st" using r found(3) brk by (auto simp: rep_def ring_holds_def)
    then have "\<exists>st' as'. place_timer (?st\<lparr>ev_rings := h\<rparr>) e t = Ok (tm_when t, st') \<and>
        rep st' as' (?ag\<lparr>ag_queue := q_insert t (q1 @ q2)\<rparr>) \<and> moves st as st' as'"
      by (intro request_place [OF h(2)]) (use found(2,3) brk in auto)
    moreover have "event_request_timer clock f c delay st = place_timer (?st\<lparr>ev_rings := h\<rparr>) e t"
      using present(1) assms(3) found(1,2) h(1) by (simp add: start Let_def flip: t_def)
    ultimately show ?thesis unfolding spec found(6) by simp
  qed
qed

lemma cancel_ok:
  assumes "rep st as ag" "agenda_ok ag"
  shows "\<exists>st' as'. event_cancel_timer clock f c st = Ok (fst (a_cancel clock f c ag), st') \<and>
    rep st' as' (snd (a_cancel clock f c ag)) \<and> moves st as st' as'"
proof -
  have present: "ev_present st \<noteq> 0" "ag_present ag = ev_present st" using assms(1) by (auto simp: rep_def)
  note start = event_cancel_timer_def initialised_def EVENT_INIT_NEEDED_def
  from assms show ?thesis
  proof (cases rule: find_request_cases [where f = f and c = c])
    case missing
    have "ag\<lparr>ag_queue := ag_queue ag\<rparr> = ag" by simp
    with missing present assms(1) show ?thesis
      by (intro exI [of _ st] exI [of _ as]) (simp add: start a_cancel_def a_init_def)
  next
    case (found bs e cs q1 t q2)
    obtain h where h: "ring_detach (ev_rings st) e = Ok h" "rep (st\<lparr>ev_rings := h\<rparr>) (bs @ cs) (ag\<lparr>ag_queue := q1 @ q2\<rparr>)" "ev_heap st e = Some t"
      using rep_detach [of st bs e cs ag q1 t q2] assms(1) found(3,4,5) by metis
    have "e \<notin> set (bs @ cs)" using assms(1) found(3) by (auto simp: rep_def ring_holds_def)
    from rep_frame [OF h(2) this, of None]
    have "rep (st\<lparr>ev_rings := h, ev_heap := (ev_heap st)(e := None)\<rparr>) (bs @ cs) (ag\<lparr>ag_queue := q1 @ q2\<rparr>)" by simp
    with found h present show ?thesis
      by (intro exI [of _ "st\<lparr>ev_rings := h, ev_heap := (ev_heap st)(e := None)\<rparr>"] exI [of _ "bs @ cs"])
        (auto simp: start a_cancel_def a_init_def read_timer_def moves_def Let_def)
  qed
qed

section \<open>The agenda stays in order\<close>

lemma q_insert_sorted:
  assumes "sorted (map tm_when q)"
  shows "sorted (map tm_when (q_insert t q))"
proof -
  let ?a = "takeWhile (\<lambda>u. tm_when u \<le> tm_when t) q" and ?b = "dropWhile (\<lambda>u. tm_when u \<le> tm_when t) q"
  have s: "sorted (map tm_when ?a)" "sorted (map tm_when ?b)"
    using assms by (metis sorted_append map_append takeWhile_dropWhile_id)+
  have "tm_when t \<le> tm_when u" if "u \<in> set ?b" for u
  proof (cases ?b)
    case (Cons v b)
    then have "\<not> tm_when v \<le> tm_when t" using hd_dropWhile [of "\<lambda>u. tm_when u \<le> tm_when t" q] by (metis dropWhile_eq_Nil_conv list.distinct(1) list.sel(1))
    moreover have "tm_when v \<le> tm_when u" using s(2) that unfolding Cons by auto
    ultimately show ?thesis by linarith
  next
    case Nil
    then show ?thesis using that unfolding Nil by simp
  qed
  moreover have "tm_when u \<le> tm_when t" if "u \<in> set ?a" for u using that by (auto dest: set_takeWhileD)
  ultimately show ?thesis unfolding q_insert_def using s by (fastforce simp: sorted_append)
qed

lemma q_insert_set: "set (q_insert t q) = insert t (set q)"
  unfolding q_insert_def by (metis (no_types) Un_insert_right list.simps(15) set_append takeWhile_dropWhile_id)

lemma q_insert_distinct: "distinct (map f (q_insert t q)) \<longleftrightarrow> distinct (map f (t # q))"
proof -
  have "map f q = map f (takeWhile (\<lambda>u. tm_when u \<le> tm_when t) q) @ map f (dropWhile (\<lambda>u. tm_when u \<le> tm_when t) q)"
    by (metis map_append takeWhile_dropWhile_id)
  then show ?thesis by (auto simp: q_insert_def)
qed

lemma agenda_sub: "agenda_ok ag \<Longrightarrow> agenda_ok (ag\<lparr>ag_queue := filter P (ag_queue ag)\<rparr>)"
  by (simp add: agenda_ok_def sorted_filter distinct_map_filter)

lemma agenda_read [simp]: "agenda_ok (a_read clock ag) \<longleftrightarrow> agenda_ok ag" "agenda_ok (a_init clock ag) \<longleftrightarrow> agenda_ok ag"
  by (simp_all add: agenda_ok_def)

lemma a_request_keeps: "agenda_ok ag \<Longrightarrow> agenda_ok (snd (a_request clock f c delay ag))"
  using agenda_sub [of "a_read clock (a_init clock ag)" "\<lambda>t. \<not> same_request f c t"]
  by (auto simp: a_request_def Let_def agenda_ok_def q_insert_sorted q_insert_set q_insert_distinct q_remove_def same_request_def)

lemma a_cancel_keeps: "agenda_ok ag \<Longrightarrow> agenda_ok (snd (a_cancel clock f c ag))"
  using agenda_sub [of "a_init clock ag"] by (simp add: a_cancel_def Let_def q_remove_def)

lemma a_calls_keeps: "agenda_ok ag \<Longrightarrow> agenda_ok (a_calls clock cs ag)"
  by (induction clock cs ag rule: a_calls.induct) (auto intro: a_request_keeps a_cancel_keeps)

section \<open>The loop delivers the agenda\<close>

text \<open>A negative delay is a programming error, and ends the program.\<close>

fun legal_call :: "('f, 'c) timer_call \<Rightarrow> bool" where
  "legal_call (Request f c delay) \<longleftrightarrow> 0 \<le> delay"
| "legal_call (Cancel f c) \<longleftrightarrow> True"

definition legal_app :: "('f, 'c, 's) application \<Rightarrow> bool" where
  "legal_app app \<longleftrightarrow> (\<forall>f c s. list_all legal_call (snd (app f c s)))"

lemma calls_ok:
  assumes "rep st as ag" "agenda_ok ag" "list_all legal_call cs" "\<And>n. clock n \<noteq> 0"
  shows "\<exists>st' as'. make_calls clock cs st = Ok st' \<and> rep st' as' (a_calls clock cs ag) \<and> moves st as st' as'"
  using assms(1-3)
proof (induction cs arbitrary: st as ag)
  case (Cons call cs)
  have "\<exists>r st1 as1 ag1. make_calls clock (call # cs) st = make_calls clock cs st1 \<and> a_calls clock (call # cs) ag = a_calls clock cs ag1 \<and>
      rep st1 as1 ag1 \<and> agenda_ok ag1 \<and> moves st as st1 as1"
  proof (cases call)
    case (Request f c delay)
    then show ?thesis
      using request_ok [of st as ag delay clock f c] Cons.prems assms(4) a_request_keeps [of ag clock f c delay] by fastforce
  next
    case (Cancel f c)
    then show ?thesis
      using cancel_ok [of st as ag clock f c] Cons.prems a_cancel_keeps [of ag clock f c] by fastforce
  qed
  with Cons.IH Cons.prems(3) show ?case by (metis list.pred_inject(2) moves_trans)
qed auto

text \<open>One turn of the loop is one turn on the agenda.\<close>

lemma first_timer:
  assumes "rep st as ag"
  shows "FIRST_TIMER st = Ok (case ag_queue ag of [] \<Rightarrow> None | t # q \<Rightarrow> Some (hd as, t))"
proof -
  have ring: "ring_holds (ev_rings st) 0 as" using assms by (simp add: rep_def)
  show ?thesis
  proof (cases as)
    case Nil
    then show ?thesis using assms ring_first [OF ring] by (simp add: rep_def FIRST_TIMER_def deref_def)
  next
    case (Cons a as')
    then obtain t q where "ag_queue ag = t # q" "ev_heap st a = Some t" using assms by (auto simp: rep_def Cons_eq_map_conv map_eq_Cons_conv)
    moreover have "a \<noteq> 0" using ring Cons by (simp add: ring_holds_def)
    ultimately show ?thesis using Cons ring_first [OF ring] by (simp add: FIRST_TIMER_def deref_def read_timer_def)
  qed
qed

lemma deliver_ok:
  assumes "rep st as ag" "agenda_ok ag" "legal_app app" "\<And>n. clock n \<noteq> 0"
  shows "\<exists>log st' as' ag' s'. deliver_loop clock app st s log0 = Some (Ok (log0 @ log, st', s')) \<and>
    a_deliver clock app ag s = (log, ag', s') \<and> rep st' as' ag' \<and> agenda_ok ag'"
  using assms(1,2)
proof (induction "length (older ag)" arbitrary: ag st as s log0 rule: less_induct)
  case (less ag)
  note first = first_timer [OF less.prems(1)]
  have pr: "ev_present st = ag_present ag" "ev_loop_instance st = ag_instance ag" using less.prems(1) by (auto simp: rep_def)
  show ?case
  proof (cases "\<exists>t q. ag_queue ag = t # q \<and> tm_when t \<le> ag_present ag \<and> tm_loop_instance t \<noteq> ag_instance ag")
    case False
    then have "deliver_step clock app st s = Ok None" "a_deliver clock app ag s = ([], ag, s)"
      using first pr by (auto simp: deliver_step_def a_deliver.simps [of clock app ag s] split: list.split)
    then show ?thesis using less.prems by (auto simp: deliver_loop.simps [of clock app st s])
  next
    case True
    then obtain t q where q: "ag_queue ag = t # q" "tm_when t \<le> ag_present ag" "tm_loop_instance t \<noteq> ag_instance ag" by blast
    obtain a as1 where as: "as = a # as1" using less.prems(1) q(1) by (cases as) (auto simp: rep_def)
    obtain h where h: "ring_detach (ev_rings st) a = Ok h" "rep (st\<lparr>ev_rings := h\<rparr>) as1 (ag\<lparr>ag_queue := q\<rparr>)"
      using rep_detach [of st "[]" a as1 ag "[]" t q] less.prems(1) as q(1) by auto
    obtain s1 calls where app: "app (tm_callback t) (tm_context t) s = (s1, calls)" by (cases "app (tm_callback t) (tm_context t) s")
    have "list_all legal_call calls" using assms(3) app by (metis legal_app_def snd_conv)
    moreover have "agenda_ok (ag\<lparr>ag_queue := q\<rparr>)" using less.prems(2) q(1) by (simp add: agenda_ok_def)
    ultimately obtain st1 as2 where st1: "make_calls clock calls (st\<lparr>ev_rings := h\<rparr>) = Ok st1"
      "rep st1 as2 (a_calls clock calls (ag\<lparr>ag_queue := q\<rparr>))" "moves (st\<lparr>ev_rings := h\<rparr>) as1 st1 as2"
      "agenda_ok (a_calls clock calls (ag\<lparr>ag_queue := q\<rparr>))"
      using calls_ok [of "st\<lparr>ev_rings := h\<rparr>" as1 "ag\<lparr>ag_queue := q\<rparr>" calls clock] h(2) assms(4) a_calls_keeps by blast
    have "a \<notin> set as2" using st1(3) less.prems(1) as by (auto simp: moves_def rep_def ring_holds_def)
    note rep' = rep_frame [OF st1(2) this, of None]
    from less.hyps [OF deliver_shorter [OF q(1,3)] rep' st1(4), of s1 "log0 @ [t]"]
    obtain log st' as' ag' s' where rest: "deliver_loop clock app (st1\<lparr>ev_heap := (ev_heap st1)(a := None)\<rparr>) s1 (log0 @ [t]) = Some (Ok ((log0 @ [t]) @ log, st', s'))"
      "a_deliver clock app (a_calls clock calls (ag\<lparr>ag_queue := q\<rparr>)) s1 = (log, ag', s')" "rep st' as' ag'" "agenda_ok ag'" by blast
    have "deliver_step clock app st s = Ok (Some (t, st1\<lparr>ev_heap := (ev_heap st1)(a := None)\<rparr>, s1))"
      using first q pr as h(1) app st1(1) by (simp add: deliver_step_def)
    moreover have "a_deliver clock app ag s = (t # log, ag', s')"
      using q app rest(2) by (simp add: a_deliver.simps [of clock app ag s])
    ultimately show ?thesis using rest by (auto simp: deliver_loop.simps [of clock app st s])
  qed
qed

section \<open>The event manager as a state machine\<close>

datatype ('f, 'c, 's) event_op = Time | Call "('f, 'c) timer_call" | Loop int "('f, 'c, 's) wait"

datatype ('f, 'c) event_result = Returned int | Delivered int "('f, 'c) event_timer list"

fun event_step ::
  "(nat \<Rightarrow> int) \<Rightarrow> ('f, 'c, 's) application \<Rightarrow> ('f, 'c) events \<times> 's \<Rightarrow> ('f, 'c, 's) event_op \<Rightarrow>
   ((('f, 'c) events \<times> 's) \<times> ('f, 'c) event_result) outcome" where
  "event_step clock app (st, s) Time = obind (event_time clock st) (\<lambda>(r, st). Ok ((st, s), Returned r))"
| "event_step clock app (st, s) (Call (Request f c delay)) =
     obind (event_request_timer clock f c delay st) (\<lambda>(r, st). Ok ((st, s), Returned r))"
| "event_step clock app (st, s) (Call (Cancel f c)) =
     obind (event_cancel_timer clock f c st) (\<lambda>(r, st). Ok ((st, s), Returned r))"
| "event_step clock app (st, s) (Loop delay wait) =
     obind (event_loop clock app delay wait st s) (\<lambda>(d, log, st, s). Ok ((st, s), Delivered d log))"

definition a_delay :: "(nat \<Rightarrow> int) \<Rightarrow> int \<Rightarrow> ('f, 'c) agenda \<Rightarrow> int \<times> ('f, 'c) agenda" where
  "a_delay clock delay ag =
     (case ag_queue ag of
        [] \<Rightarrow> (delay, ag)
      | t # _ \<Rightarrow>
          let ag = a_read clock ag; d = max 0 (to_int (tm_when t - ag_present ag)) in
          (if delay < 0 then d else min d delay, ag))"

text \<open>A turn of the loop: the old requests that are due, and then the calls for descriptors.\<close>

definition a_turn ::
  "(nat \<Rightarrow> int) \<Rightarrow> ('f, 'c, 's) application \<Rightarrow> ('s \<Rightarrow> 's \<times> ('f, 'c) timer_call list) \<Rightarrow> ('f, 'c) agenda \<Rightarrow> 's \<Rightarrow>
   ('f, 'c) event_timer list \<times> ('f, 'c) agenda \<times> 's" where
  "a_turn clock app io ag s =
     (let ag = a_read clock ag;
          (log, ag, s) = a_deliver clock app (ag\<lparr>ag_instance := ag_instance ag + 1\<rparr>) s;
          (s, calls) = io s
      in (log, a_calls clock calls ag, s))"

definition a_loop ::
  "(nat \<Rightarrow> int) \<Rightarrow> ('f, 'c, 's) application \<Rightarrow> int \<Rightarrow> ('f, 'c, 's) wait \<Rightarrow> ('f, 'c) agenda \<Rightarrow> 's \<Rightarrow>
   int \<times> ('f, 'c) event_timer list \<times> ('f, 'c) agenda \<times> 's" where
  "a_loop clock app delay wait ag s =
     (let (d, ag) = a_delay clock delay (a_init clock ag) in
      (d, case wait of Ready io \<Rightarrow> a_turn clock app io ag s | _ \<Rightarrow> ([], ag, s)))"

fun agenda_step ::
  "(nat \<Rightarrow> int) \<Rightarrow> ('f, 'c, 's) application \<Rightarrow> ('f, 'c) agenda \<times> 's \<Rightarrow> ('f, 'c, 's) event_op \<Rightarrow>
   (('f, 'c) agenda \<times> 's) \<times> ('f, 'c) event_result" where
  "agenda_step clock app (ag, s) Time = (let ag = a_init clock ag in ((ag, s), Returned (ag_present ag)))"
| "agenda_step clock app (ag, s) (Call (Request f c delay)) =
     (let (r, ag) = a_request clock f c delay ag in ((ag, s), Returned r))"
| "agenda_step clock app (ag, s) (Call (Cancel f c)) =
     (let (r, ag) = a_cancel clock f c ag in ((ag, s), Returned r))"
| "agenda_step clock app (ag, s) (Loop delay wait) =
     (let (d, log, ag, s) = a_loop clock app delay wait ag s in ((ag, s), Delivered d log))"

definition agenda_start :: "('f, 'c) agenda" where
  "agenda_start = \<lparr>ag_queue = [], ag_present = 0, ag_instance = 0, ag_ticks = 0\<rparr>"

text \<open>The wait must not fail, and every request must have a legal delay.\<close>

fun legal_op :: "('f, 'c, 's) event_op \<Rightarrow> bool" where
  "legal_op Time \<longleftrightarrow> True"
| "legal_op (Call call) \<longleftrightarrow> legal_call call"
| "legal_op (Loop delay (Ready io)) \<longleftrightarrow> (\<forall>s. list_all legal_call (snd (io s)))"
| "legal_op (Loop delay Interrupted) \<longleftrightarrow> True"
| "legal_op (Loop delay Failed) \<longleftrightarrow> False"

text \<open>Before the first operation there is no ring yet.\<close>

definition unused :: "('f, 'c) events \<Rightarrow> ('f, 'c) agenda \<Rightarrow> bool" where
  "unused st ag \<longleftrightarrow> ev_present st = 0 \<and> 0 < ev_brk st \<and> ag_queue ag = [] \<and> ag_present ag = 0 \<and>
     ev_loop_instance st = ag_instance ag \<and> ev_ticks st = ag_ticks ag"

definition tracks :: "('f, 'c) events \<Rightarrow> ('f, 'c) agenda \<Rightarrow> bool" where
  "tracks st ag \<longleftrightarrow> agenda_ok ag \<and> (unused st ag \<or> (\<exists>as. rep st as ag))"

lemma tracks_start: "tracks events_start agenda_start"
  by (simp add: tracks_def unused_def events_start_def agenda_start_def agenda_ok_def)

lemma initialised_tracks:
  assumes "tracks st ag" "\<And>n. clock n \<noteq> 0"
  obtains st' as where "initialised clock st = Ok st'" "initialised clock st' = Ok st'" "rep st' as (a_init clock ag)"
    "agenda_ok (a_init clock ag)" "a_init clock (a_init clock ag) = a_init clock ag"
proof -
  have "\<exists>st' as. initialised clock st = Ok st' \<and> rep st' as (a_init clock ag)"
  proof (cases "unused st ag")
    case True
    then show ?thesis using assms(2) ring_init_ok [of "ev_rings st" 0]
      by (intro exI [of _ "read_time clock (st\<lparr>ev_rings := ring_init (ev_rings st) 0\<rparr>)"] exI [of _ "[]"])
        (simp add: initialised_def EVENT_INIT_NEEDED_def event_init_def unused_def rep_def a_init_def a_read_def read_time_def Let_def)
  next
    case False
    then obtain as where "rep st as ag" using assms(1) by (auto simp: tracks_def)
    then show ?thesis by (intro exI [of _ st] exI [of _ as]) (auto simp: rep_def initialised_def EVENT_INIT_NEEDED_def a_init_def)
  qed
  then obtain st' as where r: "initialised clock st = Ok st'" "rep st' as (a_init clock ag)" by blast
  moreover have "agenda_ok (a_init clock ag)" using assms(1) by (simp add: tracks_def)
  moreover have "initialised clock st' = Ok st'" using r(2) by (simp add: rep_def initialised_def EVENT_INIT_NEEDED_def)
  moreover have "a_init clock (a_init clock ag) = a_init clock ag" using assms(2) by (simp add: a_init_def a_read_def)
  ultimately show thesis using that by blast
qed

lemma repI: "rep st as ag \<Longrightarrow> agenda_ok ag \<Longrightarrow> tracks st ag"
  by (auto simp: tracks_def)

lemma request_tracks:
  assumes "tracks st ag" "\<And>n. clock n \<noteq> 0" "0 \<le> delay"
  shows "returns (event_request_timer clock f c delay st) (\<lambda>(r, st').
    r = fst (a_request clock f c delay ag) \<and> tracks st' (snd (a_request clock f c delay ag)))"
proof -
  obtain st1 as where i: "initialised clock st = Ok st1" "initialised clock st1 = Ok st1" "rep st1 as (a_init clock ag)"
    "agenda_ok (a_init clock ag)" "a_init clock (a_init clock ag) = a_init clock ag" using initialised_tracks assms(1,2) by metis
  have "event_request_timer clock f c delay st = event_request_timer clock f c delay st1" using i(1,2) by (simp add: event_request_timer_def)
  moreover have "a_request clock f c delay ag = a_request clock f c delay (a_init clock ag)" using i(5) by (simp add: a_request_def)
  ultimately show ?thesis using request_ok [of st1 as "a_init clock ag" delay clock f c] a_request_keeps [OF i(4), of clock f c delay] i(3,4) assms(2,3)
    by (auto simp: returns_def intro: repI)
qed

lemma cancel_tracks:
  assumes "tracks st ag" "\<And>n. clock n \<noteq> 0"
  shows "returns (event_cancel_timer clock f c st) (\<lambda>(r, st').
    r = fst (a_cancel clock f c ag) \<and> tracks st' (snd (a_cancel clock f c ag)))"
proof -
  obtain st1 as where i: "initialised clock st = Ok st1" "initialised clock st1 = Ok st1" "rep st1 as (a_init clock ag)"
    "agenda_ok (a_init clock ag)" "a_init clock (a_init clock ag) = a_init clock ag" using initialised_tracks assms(1,2) by metis
  have "event_cancel_timer clock f c st = event_cancel_timer clock f c st1" using i(1,2) by (simp add: event_cancel_timer_def)
  moreover have "a_cancel clock f c ag = a_cancel clock f c (a_init clock ag)" using i(5) by (simp add: a_cancel_def)
  ultimately show ?thesis using cancel_ok [of st1 as "a_init clock ag" clock f c] a_cancel_keeps [OF i(4), of clock f c] i(3,4)
    by (auto simp: returns_def intro: repI)
qed

lemma delay_ok:
  assumes "rep st as ag" "\<And>n. clock n \<noteq> 0"
  obtains st' where "select_delay clock delay st = Ok (fst (a_delay clock delay ag), st')" "rep st' as (snd (a_delay clock delay ag))"
proof (cases "ag_queue ag")
  case Nil
  then show ?thesis using that [of st] assms first_timer [OF assms(1)] by (simp add: select_delay_def a_delay_def)
next
  case (Cons t q)
  have "rep (read_time clock st) as (a_read clock ag)" using rep_read [OF assms(1), of clock] assms(2) by simp
  moreover from this have "ev_present (read_time clock st) = ag_present (a_read clock ag)" by (simp add: rep_def)
  ultimately show ?thesis using that [of "read_time clock st"] Cons first_timer [OF assms(1)]
    by (simp add: select_delay_def a_delay_def Let_def max_def min_def)
qed

lemma a_delay_simps [simp]: "ag_queue (snd (a_delay clock delay ag)) = ag_queue ag" "ag_instance (snd (a_delay clock delay ag)) = ag_instance ag"
  by (simp_all add: a_delay_def Let_def split: list.split)

lemma turn_ok:
  assumes "rep st as ag" "agenda_ok ag" "legal_app app" "\<And>n. clock n \<noteq> 0" "\<forall>s. list_all legal_call (snd (io s))"
  shows "\<exists>log st1 s1 st2 ag'.
    deliver_loop clock app ((read_time clock st)\<lparr>ev_loop_instance := ev_loop_instance (read_time clock st) + 1\<rparr>) s [] = Some (Ok (log, st1, s1)) \<and>
    make_calls clock (snd (io s1)) st1 = Ok st2 \<and> a_turn clock app io ag s = (log, ag', fst (io s1)) \<and> tracks st2 ag'"
proof -
  let ?st = "(read_time clock st)\<lparr>ev_loop_instance := ev_loop_instance (read_time clock st) + 1\<rparr>"
  let ?ag = "(a_read clock ag)\<lparr>ag_instance := ag_instance (a_read clock ag) + 1\<rparr>"
  have r: "rep ?st as ?ag" "agenda_ok ?ag"
    using rep_read [OF assms(1), of clock] assms(2,4) by (auto simp: rep_def agenda_ok_def)
  from deliver_ok [OF r assms(3), where clock = clock and s = s and ?log0.0 = "[]"] assms(4)
  obtain log st2 as2 ag2 s1 where d: "deliver_loop clock app ?st s [] = Some (Ok (log, st2, s1))"
    "a_deliver clock app ?ag s = (log, ag2, s1)" "rep st2 as2 ag2" "agenda_ok ag2" by auto
  from calls_ok [of st2 as2 ag2 "snd (io s1)" clock] d(3,4) assms(4,5)
  obtain st3 as3 where "make_calls clock (snd (io s1)) st2 = Ok st3" "rep st3 as3 (a_calls clock (snd (io s1)) ag2)" by blast
  moreover have "a_turn clock app io ag s = (log, a_calls clock (snd (io s1)) ag2, fst (io s1))"
    using d(2) by (simp add: a_turn_def Let_def split_def)
  ultimately show ?thesis using d(1) a_calls_keeps [OF d(4), of clock "snd (io s1)"] by (blast intro: repI)
qed

lemma loop_tracks:
  assumes "tracks st ag" "\<And>n. clock n \<noteq> 0" "legal_app app" "legal_op (Loop delay wait)"
  shows "returns (event_loop clock app delay wait st s) (\<lambda>(d, log, st', s').
    \<exists>ag'. a_loop clock app delay wait ag s = (d, log, ag', s') \<and> tracks st' ag')"
proof -
  obtain st1 as where i: "initialised clock st = Ok st1" "rep st1 as (a_init clock ag)" "agenda_ok (a_init clock ag)"
    using initialised_tracks assms(1,2) by metis
  obtain st2 where st2: "select_delay clock delay st1 = Ok (fst (a_delay clock delay (a_init clock ag)), st2)"
    "rep st2 as (snd (a_delay clock delay (a_init clock ag)))" by (rule delay_ok [OF i(2) assms(2)])
  have ok: "agenda_ok (snd (a_delay clock delay (a_init clock ag)))" using i(3) by (simp add: agenda_ok_def)
  show ?thesis
  proof (cases wait)
    case (Ready io)
    have "\<forall>s. list_all legal_call (snd (io s))" using assms(4) Ready by simp
    from turn_ok [OF st2(2) ok assms(3), where clock = clock and io = io and s = s] assms(2) this Ready i(1) st2(1) show ?thesis
      by (auto simp: event_loop_def a_loop_def returns_def Let_def split_def intro: repI)
  next
    case Interrupted
    then show ?thesis using i(1) st2 ok by (auto simp: event_loop_def a_loop_def returns_def Let_def split_def intro: repI)
  next
    case Failed
    then show ?thesis using assms(4) by simp
  qed
qed

definition manages :: "('f, 'c) events \<times> 's \<Rightarrow> ('f, 'c) agenda \<times> 's \<Rightarrow> bool" where
  "manages x y \<longleftrightarrow> tracks (fst x) (fst y) \<and> snd x = snd y"

interpretation timers: legal_simulation
  "\<lambda>x y. manages x y \<and> legal_app app \<and> (\<forall>n. clock n \<noteq> 0)" "event_step clock app" "agenda_step clock app" legal_op
  for clock and app :: "('f, 'c, 's) application"
proof
  fix x :: "('f, 'c) events \<times> 's" and y and op :: "('f, 'c, 's) event_op"
  assume a: "manages x y \<and> legal_app app \<and> (\<forall>n. clock n \<noteq> 0)" "legal_op op"
  obtain st ag s where xy: "x = (st, s)" "y = (ag, s)" "tracks st ag" using a(1) by (cases x, cases y) (auto simp: manages_def)
  show "returns (event_step clock app x op) (\<lambda>(x', r). (manages x' (fst (agenda_step clock app y op)) \<and> legal_app app \<and> (\<forall>n. clock n \<noteq> 0)) \<and>
    r = snd (agenda_step clock app y op))"
  proof (cases "(clock, app, x, op)" rule: event_step.cases)
    case 1
    obtain st1 as where "initialised clock st = Ok st1" "rep st1 as (a_init clock ag)" "agenda_ok (a_init clock ag)"
      using initialised_tracks [OF xy(3), of clock] a(1) by metis
    moreover from this have "ev_present st1 = ag_present (a_init clock ag)" by (simp add: rep_def)
    ultimately show ?thesis using 1 xy a by (auto simp: event_time_def returns_def manages_def Let_def intro: repI)
  next
    case (2 clock' app' st' s' f c delay)
    then show ?thesis using a xy request_tracks [of st ag clock delay f c]
      by (auto simp: returns_def manages_def Let_def split_def)
  next
    case (3 clock' app' st' s' f c)
    then show ?thesis using a xy cancel_tracks [of st ag clock f c]
      by (auto simp: returns_def manages_def Let_def split_def)
  next
    case (4 clock' app' st' s' delay wait)
    then show ?thesis using a xy loop_tracks [of st ag clock app delay wait s]
      by (auto simp: returns_def manages_def Let_def split_def)
  qed
qed

section \<open>What a turn of the loop delivers\<close>

text \<open>The queue starts with a request for the future, or with one made in this turn.\<close>

definition settled :: "('f, 'c) agenda \<Rightarrow> bool" where
  "settled ag \<longleftrightarrow> (case ag_queue ag of [] \<Rightarrow> True | t # _ \<Rightarrow> ag_present ag < tm_when t \<or> tm_loop_instance t = ag_instance ag)"

lemma a_deliver_cases [case_names settled due]:
  assumes "a_deliver clock app ag s = (log, ag', s')"
  obtains "settled ag" "log = []" "ag' = ag" "s' = s"
  | t q log1 where "ag_queue ag = t # q" "tm_when t \<le> ag_present ag" "tm_loop_instance t \<noteq> ag_instance ag" "log = t # log1"
    "a_deliver clock app (a_calls clock (snd (app (tm_callback t) (tm_context t) s)) (ag\<lparr>ag_queue := q\<rparr>))
       (fst (app (tm_callback t) (tm_context t) s)) = (log1, ag', s')"
  using assms by (subst (asm) a_deliver.simps) (auto simp: settled_def Let_def not_less split: list.splits prod.splits if_splits)

lemma a_deliver_older:
  "a_deliver clock app ag s = (log, ag', s') \<Longrightarrow>
   subseq (log @ older ag') (older ag) \<and> ag_instance ag' = ag_instance ag \<and> settled ag'"
proof (induction "length (older ag)" arbitrary: ag s log rule: less_induct)
  case less
  from less.prems show ?case
  proof (cases rule: a_deliver_cases)
    case settled
    then show ?thesis by simp
  next
    case (due t q log1)
    let ?ag = "a_calls clock (snd (app (tm_callback t) (tm_context t) s)) (ag\<lparr>ag_queue := q\<rparr>)"
    have "subseq (log1 @ older ag') (older ?ag) \<and> ag_instance ag' = ag_instance ?ag \<and> settled ag'"
      by (rule less.hyps [OF deliver_shorter [OF due(1,3)] due(5)])
    moreover have "subseq (older ?ag) (older (ag\<lparr>ag_queue := q\<rparr>))" "ag_instance ?ag = ag_instance ag" using a_calls_older [of clock _ "ag\<lparr>ag_queue := q\<rparr>"] by simp_all
    moreover have "older ag = t # older (ag\<lparr>ag_queue := q\<rparr>)" using due(1,3) by (simp add: older_def)
    ultimately show ?thesis using due(4) by (auto intro: subseq_order.trans)
  qed
qed

text \<open>A turn is legal on any agenda: when it begins, every request is an old one.\<close>

lemma new_turn_older: "agenda_ok ag \<Longrightarrow> older (ag\<lparr>ag_instance := ag_instance ag + 1\<rparr>) = ag_queue ag"
  by (auto simp: older_def agenda_ok_def filter_id_conv)

lemma a_turn_older:
  assumes "agenda_ok ag" "a_turn clock app io ag s = (log, ag', s')"
  shows "subseq (log @ older ag') (ag_queue ag)" "(\<forall>s. snd (io s) = []) \<Longrightarrow> settled ag'"
proof -
  let ?ag = "(a_read clock ag)\<lparr>ag_instance := ag_instance (a_read clock ag) + 1\<rparr>"
  obtain ag1 s1 where d: "a_deliver clock app ?ag s = (log, ag1, s1)" "ag' = a_calls clock (snd (io s1)) ag1"
    using assms(2) by (auto simp: a_turn_def Let_def split: prod.splits)
  have "subseq (log @ older ag1) (ag_queue ag)" "settled ag1" using a_deliver_older [OF d(1)] new_turn_older [of "a_read clock ag"] assms(1) by simp_all
  moreover have "subseq (older ag') (older ag1)" using a_calls_older d(2) by blast
  ultimately show "subseq (log @ older ag') (ag_queue ag)" by (meson list_emb_append_mono subseq_order.refl subseq_order.trans)
  show "settled ag'" if "\<forall>s. snd (io s) = []" using that \<open>settled ag1\<close> d(2) by simp
qed

lemma a_delay_bounds: "ag_queue ag \<noteq> [] \<Longrightarrow> 0 \<le> fst (a_delay clock delay ag) \<and> (0 \<le> delay \<longrightarrow> fst (a_delay clock delay ag) \<le> delay)"
  by (auto simp: a_delay_def Let_def split: list.split)

text \<open>An application whose call-backs leave the timers alone.\<close>

lemma a_deliver_due:
  assumes "\<forall>f c s. snd (app f c s) = []" "\<forall>t \<in> set (ag_queue ag). tm_loop_instance t \<noteq> ag_instance ag"
  shows "a_deliver clock app ag s =
    (let due = takeWhile (\<lambda>t. tm_when t \<le> ag_present ag) (ag_queue ag) in
     (due, ag\<lparr>ag_queue := dropWhile (\<lambda>t. tm_when t \<le> ag_present ag) (ag_queue ag)\<rparr>,
      foldl (\<lambda>s t. fst (app (tm_callback t) (tm_context t) s)) s due))"
  using assms(2)
proof (induction "ag_queue ag" arbitrary: ag s)
  case Nil
  then show ?case by (simp add: a_deliver.simps)
next
  case (Cons t q)
  show ?case
  proof (cases "tm_when t \<le> ag_present ag")
    case True
    have "a_deliver clock app ag s =
      (let (log, ag, s) = a_deliver clock app (ag\<lparr>ag_queue := q\<rparr>) (fst (app (tm_callback t) (tm_context t) s)) in (t # log, ag, s))"
      using Cons.prems True assms(1) by (subst a_deliver.simps) (simp add: Cons.hyps(2) [symmetric] split_def Let_def)
    also have "a_deliver clock app (ag\<lparr>ag_queue := q\<rparr>) s1 =
      (let due = takeWhile (\<lambda>t. tm_when t \<le> ag_present ag) q in
       (due, ag\<lparr>ag_queue := dropWhile (\<lambda>t. tm_when t \<le> ag_present ag) q\<rparr>,
        foldl (\<lambda>s t. fst (app (tm_callback t) (tm_context t) s)) s1 due))" for s1
      using Cons.hyps(1) [of "ag\<lparr>ag_queue := q\<rparr>"] Cons.prems by (simp add: Cons.hyps(2) [symmetric])
    finally show ?thesis using True by (simp add: Cons.hyps(2) [symmetric] Let_def)
  next
    case False
    then show ?thesis by (subst a_deliver.simps) (simp add: Cons.hyps(2) [symmetric])
  qed
qed

lemma a_turn_due:
  assumes "agenda_ok ag" "\<forall>f c s. snd (app f c s) = []" "\<forall>s. snd (io s) = []" "a_turn clock app io ag s = (log, ag', s')"
  shows "log = takeWhile (\<lambda>t. tm_when t \<le> ag_present ag') (ag_queue ag) \<and>
    ag_queue ag' = dropWhile (\<lambda>t. tm_when t \<le> ag_present ag') (ag_queue ag) \<and>
    s' = fst (io (foldl (\<lambda>s t. fst (app (tm_callback t) (tm_context t) s)) s log))"
proof -
  have "\<forall>t \<in> set (ag_queue ag). tm_loop_instance t \<noteq> ag_instance ag + 1" using assms(1) by (auto simp: agenda_ok_def)
  then show ?thesis
    using assms(3,4) a_deliver_due [OF assms(2), of "(a_read clock ag)\<lparr>ag_instance := ag_instance ag + 1\<rparr>" clock s]
    by (auto simp: a_turn_def Let_def split_def)
qed

lemma loop_turn:
  assumes "tracks st ag" "\<forall>n. clock n \<noteq> 0" "legal_app app" "\<forall>s. list_all legal_call (snd (io s))"
  obtains log st' ag' s' where
    "event_loop clock app delay (Ready io) st s = Ok (fst (a_delay clock delay (a_init clock ag)), log, st', s')" "tracks st' ag'"
    "a_turn clock app io (snd (a_delay clock delay (a_init clock ag))) s = (log, ag', s')"
  using loop_tracks [of st ag clock app delay "Ready io" s] assms that
  by (auto simp: returns_def a_loop_def split_def Let_def)

text \<open>One request, of a program that has just started.\<close>

definition one_tick :: "(string, nat) agenda" where
  "one_tick = \<lparr>ag_queue = [\<lparr>tm_when = 100, tm_callback = ''tick'', tm_context = 0, tm_loop_instance = 0\<rparr>],
     ag_present = 100, ag_instance = 0, ag_ticks = 2\<rparr>"

lemma one_tick:
  obtains st where "event_request_timer (\<lambda>n. 100) ''tick'' (0::nat) 0 events_start = Ok (100, st)" "tracks st one_tick"
proof -
  have "a_request (\<lambda>n. 100) ''tick'' (0::nat) 0 agenda_start = (100, one_tick)"
    by (simp add: a_request_def a_init_def a_read_def agenda_start_def one_tick_def q_insert_def q_remove_def Let_def)
  with request_tracks [OF tracks_start, of "\<lambda>n. 100" 0 "''tick''" "0::nat"] that show thesis by (auto simp: returns_def)
qed

section \<open>Properties\<close>

text \<open>
  C6: Refinement. Take any program that asks for the time, requests and cancels timers and runs the event
  loop, with legal delays, and whose call-backs do the same. Every operation returns, with the result of the
  agenda: a list of requests sorted by time, first come first served, with at most one request for
  a call-back and its context. So the timers are delivered in the order of the agenda.
\<close>

theorem timers_refine_agenda:
  assumes "legal_app app" "\<forall>n. clock n \<noteq> 0" "list_all legal_op ops"
  shows "\<exists>st ag s' rs. spec_steps (agenda_step clock app) (agenda_start, s) ops = ((ag, s'), rs) \<and>
    run_steps (event_step clock app) (events_start, s) ops = Ok ((st, s'), rs) \<and> tracks st ag \<and> sorted (map tm_when (ag_queue ag)) \<and> distinct (map (\<lambda>t. (tm_callback t, tm_context t)) (ag_queue ag))"
proof -
  have "manages (events_start, s) (agenda_start, s) \<and> legal_app app \<and> (\<forall>n. clock n \<noteq> 0)"
    using assms tracks_start by (simp add: manages_def)
  from timers.run_law [OF this assms(3)] show ?thesis
    by (cases "spec_steps (agenda_step clock app) (agenda_start, s) ops") (auto simp: returns_def manages_def tracks_def agenda_ok_def)
qed

text \<open>Two requests for the same call-back, the second a new time for the first; a later one is cancelled.\<close>

theorem timers_refine_agenda_witness:
  "\<exists>x. run_steps (event_step (\<lambda>n. 100 + int n) (\<lambda>f c s. (s @ [c], []))) (events_start, [])
     [Call (Request ''wake'' (1::nat) 9), Call (Request ''wake'' 2 20), Call (Request ''wake'' 1 0), Call (Cancel ''wake'' 2),
      Loop 5 (Ready (\<lambda>s. (s, []))), Time] =
   Ok ((x, [1]), [Returned 110, Returned 122, Returned 103, Returned 19,
     Delivered 0 [\<lparr>tm_when = 103, tm_callback = ''wake'', tm_context = 1, tm_loop_instance = 0\<rparr>], Returned 105])"
proof -
  let ?clock = "\<lambda>n. 100 + int n" and ?app = "\<lambda>f c s. (s @ [c], [])"
  let ?ops = "[Call (Request ''wake'' (1::nat) 9), Call (Request ''wake'' 2 20), Call (Request ''wake'' 1 0), Call (Cancel ''wake'' 2),
      Loop 5 (Ready (\<lambda>s. (s, []))), Time]"
  have spec: "spec_steps (agenda_step ?clock ?app) (agenda_start, []) ?ops =
    ((\<lparr>ag_queue = [], ag_present = 105, ag_instance = 1, ag_ticks = 6\<rparr>, [1]), [Returned 110, Returned 122, Returned 103, Returned 19,
     Delivered 0 [\<lparr>tm_when = 103, tm_callback = ''wake'', tm_context = 1, tm_loop_instance = 0\<rparr>], Returned 105])"
    by code_simp
  have "legal_app ?app" "\<forall>n. ?clock n \<noteq> 0" "list_all legal_op ?ops" by (simp_all add: legal_app_def)
  from timers_refine_agenda [OF this, of "[]"] show ?thesis unfolding spec by auto
qed

text \<open>
  C10: A turn of the event loop always ends, even if call-backs request new timers without delay. It delivers
  requests that were in the queue when it began, each at most once and in the order of the queue, and those that
  are left come later in the queue. If nothing else touches the timers, the queue then starts with a request for
  the future or one made in this turn. With a timer in the queue the wait has a limit, and never exceeds the caller's.
\<close>

theorem event_loop_delivers:
  assumes "tracks st ag" "\<forall>n. clock n \<noteq> 0" "legal_app app" "\<forall>s. list_all legal_call (snd (io s))"
  shows "\<exists>d log st' ag' s'. event_loop clock app delay (Ready io) st s = Ok (d, log, st', s') \<and> tracks st' ag' \<and>
    subseq (log @ older ag') (ag_queue ag) \<and> ((\<forall>s. snd (io s) = []) \<longrightarrow> settled ag') \<and>
    (ag_queue ag \<noteq> [] \<longrightarrow> 0 \<le> d \<and> (0 \<le> delay \<longrightarrow> d \<le> delay))"
proof -
  obtain log st' ag' s' where turn: "event_loop clock app delay (Ready io) st s = Ok (fst (a_delay clock delay (a_init clock ag)), log, st', s')"
    "tracks st' ag'" "a_turn clock app io (snd (a_delay clock delay (a_init clock ag))) s = (log, ag', s')" by (rule loop_turn [OF assms])
  have "agenda_ok (snd (a_delay clock delay (a_init clock ag)))" using assms(1) by (simp add: tracks_def agenda_ok_def)
  from a_turn_older [OF this turn(3)] turn(1,2) a_delay_bounds [of "a_init clock ag" clock delay] show ?thesis by auto
qed

text \<open>A call-back that requests itself again without delay, from a queue with one request.\<close>

theorem event_loop_delivers_witness:
  "\<exists>st d log st' ag' s'. event_request_timer (\<lambda>n. 100) ''tick'' (0::nat) 0 events_start = Ok (100, st) \<and>
     event_loop (\<lambda>n. 100) (\<lambda>f c s. (s, [Request f c 0])) (-1) (Ready (\<lambda>s. (s, []))) st () = Ok (d, log, st', s') \<and> tracks st' ag' \<and>
     subseq (log @ older ag') [\<lparr>tm_when = 100, tm_callback = ''tick'', tm_context = 0, tm_loop_instance = 0\<rparr>] \<and> settled ag' \<and> 0 \<le> d"
proof -
  obtain st where "event_request_timer (\<lambda>n. 100) ''tick'' (0::nat) 0 events_start = Ok (100, st)" "tracks st one_tick"
    by (rule one_tick)
  with event_loop_delivers [OF this(2), of "\<lambda>n. 100" "\<lambda>f c s. (s, [Request f c 0])" "\<lambda>s. (s, [])" "-1" "()"] show ?thesis
    by (auto simp: legal_app_def one_tick_def)
qed

text \<open>
  C28: If call-backs leave the timers alone, a turn of the event loop delivers exactly the requests that are due
  at the time it reads, in the order of the queue, and leaves the others; the call-backs run in that order.
\<close>

theorem event_loop_due:
  assumes "tracks st ag" "\<forall>n. clock n \<noteq> 0" "\<forall>f c s. snd (app f c s) = []" "\<forall>s. snd (io s) = []"
  shows "\<exists>d log st' ag' s'. event_loop clock app delay (Ready io) st s = Ok (d, log, st', s') \<and> tracks st' ag' \<and>
    log = takeWhile (\<lambda>t. tm_when t \<le> ag_present ag') (ag_queue ag) \<and>
    ag_queue ag' = dropWhile (\<lambda>t. tm_when t \<le> ag_present ag') (ag_queue ag) \<and>
    s' = fst (io (foldl (\<lambda>s t. fst (app (tm_callback t) (tm_context t) s)) s log))"
proof -
  have "legal_app app" "\<forall>s. list_all legal_call (snd (io s))" using assms(3,4) by (simp_all add: legal_app_def)
  from loop_turn [OF assms(1,2) this, of delay s] obtain log st' ag' s' where
    turn: "event_loop clock app delay (Ready io) st s = Ok (fst (a_delay clock delay (a_init clock ag)), log, st', s')"
    "tracks st' ag'" "a_turn clock app io (snd (a_delay clock delay (a_init clock ag))) s = (log, ag', s')" by metis
  have "agenda_ok (snd (a_delay clock delay (a_init clock ag)))" using assms(1) by (simp add: tracks_def agenda_ok_def)
  from a_turn_due [OF this assms(3,4) turn(3)] turn(1,2) show ?thesis by auto
qed

theorem event_loop_due_witness:
  "\<exists>st st' ag'. event_request_timer (\<lambda>n. 100) ''tick'' (0::nat) 0 events_start = Ok (100, st) \<and> tracks st' ag' \<and>
     (\<exists>d log s'. event_loop (\<lambda>n. 100) (\<lambda>f c s. (s @ [f], [])) 1 (Ready (\<lambda>s. (s, []))) st [] = Ok (d, log, st', s') \<and>
     log = takeWhile (\<lambda>t. tm_when t \<le> ag_present ag') [\<lparr>tm_when = 100, tm_callback = ''tick'', tm_context = 0, tm_loop_instance = 0\<rparr>] \<and>
     ag_queue ag' = dropWhile (\<lambda>t. tm_when t \<le> ag_present ag') [\<lparr>tm_when = 100, tm_callback = ''tick'', tm_context = 0, tm_loop_instance = 0\<rparr>] \<and>
     s' = foldl (\<lambda>s t. s @ [tm_callback t]) [] log)"
proof -
  obtain st where "event_request_timer (\<lambda>n. 100) ''tick'' (0::nat) 0 events_start = Ok (100, st)" "tracks st one_tick"
    by (rule one_tick)
  with event_loop_due [OF this(2), of "\<lambda>n. 100" "\<lambda>f c s. (s @ [f], [])" "\<lambda>s. (s, [])" 1 "[]"] show ?thesis
    unfolding one_tick_def by (simp del: takeWhile.simps dropWhile.simps) blast
qed

end
