(* ===== verification/Rbtree.thy ===== *)
theory Rbtree
  imports Util_Prelude
begin

text \<open>
  The red-black tree of \<open>src/linuxdemo/rbtree.c\<close>: nodes with parent pointers and one shared
  sentinel node \<open>nil\<close>, in an explicit store that gives every address the fields of its node.

  The loops of the source are partial functions, so that a cyclic structure would make them
  diverge. The theory holds the program, the functional trees it is related to, with a zipper for
  the path from a node to the root, and what rotations and changes of color do to them.
\<close>

section \<open>The program\<close>

datatype color = RED | BLACK

record 'v rbtree =
  root :: nat
  nil :: nat
  color :: "nat \<Rightarrow> color"
  right :: "nat \<Rightarrow> nat"
  left :: "nat \<Rightarrow> nat"
  parent :: "nat \<Rightarrow> nat"
  key :: "nat \<Rightarrow> int"
  val :: "nat \<Rightarrow> 'v"

text \<open>Assignments to one field of a node.\<close>

definition set_color :: "nat \<Rightarrow> color \<Rightarrow> 'v rbtree \<Rightarrow> 'v rbtree" where
  "set_color a c T = T\<lparr>color := (color T)(a := c)\<rparr>"

definition set_right :: "nat \<Rightarrow> nat \<Rightarrow> 'v rbtree \<Rightarrow> 'v rbtree" where
  "set_right a p T = T\<lparr>right := (right T)(a := p)\<rparr>"

definition set_left :: "nat \<Rightarrow> nat \<Rightarrow> 'v rbtree \<Rightarrow> 'v rbtree" where
  "set_left a p T = T\<lparr>left := (left T)(a := p)\<rparr>"

definition set_parent :: "nat \<Rightarrow> nat \<Rightarrow> 'v rbtree \<Rightarrow> 'v rbtree" where
  "set_parent a p T = T\<lparr>parent := (parent T)(a := p)\<rparr>"

partial_function (option) mini_loop :: "'v rbtree \<Rightarrow> nat \<Rightarrow> nat option" where
  "mini_loop T x = (if left T x \<noteq> nil T then mini_loop T (left T x) else Some x)"

partial_function (option) maxi_loop :: "'v rbtree \<Rightarrow> nat \<Rightarrow> nat option" where
  "maxi_loop T x = (if right T x \<noteq> nil T then maxi_loop T (right T x) else Some x)"

definition rbtree_mini :: "'v rbtree \<Rightarrow> nat \<Rightarrow> nat outcome" where
  "rbtree_mini T x = run (map_option Ok (mini_loop T x))"

definition rbtree_maxi :: "'v rbtree \<Rightarrow> nat \<Rightarrow> nat outcome" where
  "rbtree_maxi T x = run (map_option Ok (maxi_loop T x))"

partial_function (option) ascend_loop :: "'v rbtree \<Rightarrow> nat \<Rightarrow> nat \<Rightarrow> nat option" where
  "ascend_loop T x y = (if y \<noteq> nil T \<and> x = right T y then ascend_loop T y (parent T y) else Some y)"

definition rbtree_successor :: "'v rbtree \<Rightarrow> nat \<Rightarrow> nat outcome" where
  "rbtree_successor T x =
     (let y = parent T x in
      if right T x \<noteq> nil T then rbtree_mini T (right T x) else run (map_option Ok (ascend_loop T x y)))"

text \<open>
  The common parts of the rotations: a subtree that is not empty gets a new parent, and the node
  above, or the tree, gets a new child. The two rotations look at the sides in opposite order.
\<close>

definition adopt :: "nat \<Rightarrow> nat \<Rightarrow> 'v rbtree \<Rightarrow> 'v rbtree" where
  "adopt p x T = (if p \<noteq> nil T then set_parent p x T else T)"

definition replace_left :: "nat \<Rightarrow> nat \<Rightarrow> nat \<Rightarrow> 'v rbtree \<Rightarrow> 'v rbtree" where
  "replace_left up x y T =
     (if up = nil T then T\<lparr>root := y\<rparr>
      else if x = left T up then set_left up y T
      else set_right up y T)"

definition replace_right :: "nat \<Rightarrow> nat \<Rightarrow> nat \<Rightarrow> 'v rbtree \<Rightarrow> 'v rbtree" where
  "replace_right up y x T =
     (if up = nil T then T\<lparr>root := x\<rparr>
      else if y = right T up then set_right up x T
      else set_left up x T)"

definition rbtree_left_rotate :: "'v rbtree \<Rightarrow> nat \<Rightarrow> 'v rbtree" where
  "rbtree_left_rotate T x =
     (let y = right T x;
          T = set_right x (left T y) T;
          T = adopt (left T y) x T;
          T = set_parent y (parent T x) T;
          T = replace_left (parent T x) x y T;
          T = set_left y x T
      in set_parent x y T)"

definition rbtree_right_rotate :: "'v rbtree \<Rightarrow> nat \<Rightarrow> 'v rbtree" where
  "rbtree_right_rotate T y =
     (let x = left T y;
          T = set_left y (right T x) T;
          T = adopt (right T x) y T;
          T = set_parent x (parent T y) T;
          T = replace_right (parent T y) y x T;
          T = set_right x y T
      in set_parent y x T)"

text \<open>One pass through the loop of \<open>rbtree_insert_fixup\<close>: the tree and the new position \<open>z\<close>.\<close>

definition insert_fixup_step :: "'v rbtree \<Rightarrow> nat \<Rightarrow> 'v rbtree \<times> nat" where
  "insert_fixup_step T z =
     (if parent T z = left T (parent T (parent T z)) then
        let y = right T (parent T (parent T z)) in
        if color T y = RED then
          let T = set_color (parent T z) BLACK T;
              T = set_color y BLACK T;
              T = set_color (parent T (parent T z)) RED T
          in (T, parent T (parent T z))
        else
          let (T, z) = (if z = right T (parent T z) then (rbtree_left_rotate T (parent T z), parent T z) else (T, z));
              T = set_color (parent T z) BLACK T;
              T = set_color (parent T (parent T z)) RED T
          in (rbtree_right_rotate T (parent T (parent T z)), z)
      else
        let y = left T (parent T (parent T z)) in
        if color T y = RED then
          let T = set_color (parent T z) BLACK T;
              T = set_color y BLACK T;
              T = set_color (parent T (parent T z)) RED T
          in (T, parent T (parent T z))
        else
          let (T, z) = (if z = left T (parent T z) then (rbtree_right_rotate T (parent T z), parent T z) else (T, z));
              T = set_color (parent T z) BLACK T;
              T = set_color (parent T (parent T z)) RED T
          in (rbtree_left_rotate T (parent T (parent T z)), z))"

partial_function (option) insert_fixup_loop :: "'v rbtree \<Rightarrow> nat \<Rightarrow> 'v rbtree option" where
  "insert_fixup_loop T z =
     (if color T (parent T z) = RED
      then insert_fixup_loop (fst (insert_fixup_step T z)) (snd (insert_fixup_step T z))
      else Some (set_color (root T) BLACK T))"

definition rbtree_insert_fixup :: "'v rbtree \<Rightarrow> nat \<Rightarrow> 'v rbtree outcome" where
  "rbtree_insert_fixup T z = run (map_option Ok (insert_fixup_loop T z))"

text \<open>The search for the place of a key: the last node passed, or \<open>None\<close> when the key exists.\<close>

partial_function (option) insert_search :: "'v rbtree \<Rightarrow> int \<Rightarrow> nat \<Rightarrow> nat \<Rightarrow> nat option option" where
  "insert_search T k y x =
     (if x = nil T then Some (Some y)
      else if k < key T x then insert_search T k x (left T x)
      else if k > key T x then insert_search T k x (right T x)
      else Some None)"

definition rbtree_insert :: "'v rbtree \<Rightarrow> nat \<Rightarrow> 'v rbtree outcome" where
  "rbtree_insert T z =
     obind (run (map_option Ok (insert_search T (key T z) (nil T) (root T)))) (\<lambda>place.
     case place of
       None \<Rightarrow> Ok T
     | Some y \<Rightarrow>
         let T = set_parent z y T;
             T = (if y = nil T then T\<lparr>root := z\<rparr>
                  else if key T z < key T y then set_left y z T
                  else set_right y z T);
             T = set_left z (nil T) T;
             T = set_right z (nil T) T;
             T = set_color z RED T
         in rbtree_insert_fixup T z)"

text \<open>
  One pass through the loop of \<open>rbtree_delete_fixup\<close>. First a red sibling \<open>w\<close> is rotated away,
  then the sibling is colored red, or one or two rotations end the loop with \<open>x\<close> at the root.
\<close>

definition right_sibling :: "'v rbtree \<Rightarrow> nat \<Rightarrow> 'v rbtree \<times> nat" where
  "right_sibling T x =
     (let w = right T (parent T x) in
      if color T w = RED then
        let T = set_color w BLACK T;
            T = set_color (parent T x) RED T;
            T = rbtree_left_rotate T (parent T x)
        in (T, right T (parent T x))
      else (T, w))"

definition left_sibling :: "'v rbtree \<Rightarrow> nat \<Rightarrow> 'v rbtree \<times> nat" where
  "left_sibling T x =
     (let w = left T (parent T x) in
      if color T w = RED then
        let T = set_color w BLACK T;
            T = set_color (parent T x) RED T;
            T = rbtree_right_rotate T (parent T x)
        in (T, left T (parent T x))
      else (T, w))"

definition fix_right_sibling :: "'v rbtree \<Rightarrow> nat \<Rightarrow> nat \<Rightarrow> 'v rbtree \<times> nat" where
  "fix_right_sibling T x w =
     (if color T (left T w) = BLACK \<and> color T (right T w) = BLACK then (set_color w RED T, parent T x)
      else
        let (T, w) =
              (if color T (right T w) = BLACK then
                 let T = set_color (left T w) BLACK T;
                     T = set_color w RED T;
                     T = rbtree_right_rotate T w
                 in (T, right T (parent T x))
               else (T, w));
            T = set_color w (color T (parent T x)) T;
            T = set_color (parent T x) BLACK T;
            T = set_color (right T w) BLACK T;
            T = rbtree_left_rotate T (parent T x)
        in (T, root T))"

definition fix_left_sibling :: "'v rbtree \<Rightarrow> nat \<Rightarrow> nat \<Rightarrow> 'v rbtree \<times> nat" where
  "fix_left_sibling T x w =
     (if color T (left T w) = BLACK \<and> color T (right T w) = BLACK then (set_color w RED T, parent T x)
      else
        let (T, w) =
              (if color T (left T w) = BLACK then
                 let T = set_color (right T w) BLACK T;
                     T = set_color w RED T;
                     T = rbtree_left_rotate T w
                 in (T, left T (parent T x))
               else (T, w));
            T = set_color w (color T (parent T x)) T;
            T = set_color (parent T x) BLACK T;
            T = set_color (left T w) BLACK T;
            T = rbtree_right_rotate T (parent T x)
        in (T, root T))"

definition delete_fixup_step :: "'v rbtree \<Rightarrow> nat \<Rightarrow> 'v rbtree \<times> nat" where
  "delete_fixup_step T x =
     (if x = left T (parent T x) then let (T, w) = right_sibling T x in fix_right_sibling T x w
      else let (T, w) = left_sibling T x in fix_left_sibling T x w)"

partial_function (option) delete_fixup_loop :: "'v rbtree \<Rightarrow> nat \<Rightarrow> 'v rbtree option" where
  "delete_fixup_loop T x =
     (if x \<noteq> root T \<and> color T x = BLACK
      then delete_fixup_loop (fst (delete_fixup_step T x)) (snd (delete_fixup_step T x))
      else Some (set_color x BLACK T))"

definition rbtree_delete_fixup :: "'v rbtree \<Rightarrow> nat \<Rightarrow> 'v rbtree outcome" where
  "rbtree_delete_fixup T x = run (map_option Ok (delete_fixup_loop T x))"

text \<open>\<open>rbtree_delete\<close> returns the node that left the tree, which need not be the node it is given.\<close>

definition move_payload :: "nat \<Rightarrow> nat \<Rightarrow> 'v rbtree \<Rightarrow> 'v rbtree" where
  "move_payload y z T =
     (if y \<noteq> z then T\<lparr>key := (key T)(z := key T y), val := (val T)(z := val T y)\<rparr> else T)"

definition rbtree_delete :: "'v rbtree \<Rightarrow> nat \<Rightarrow> ('v rbtree \<times> nat) outcome" where
  "rbtree_delete T z =
     obind (if left T z = nil T \<or> right T z = nil T then Ok z else rbtree_successor T z) (\<lambda>y.
     let x = (if left T y \<noteq> nil T then left T y else if right T y \<noteq> nil T then right T y else nil T);
         T = set_parent x (parent T y) T;
         T = replace_left (parent T y) y x T;
         T = move_payload y z T
     in if color T y = BLACK then obind (rbtree_delete_fixup T x) (\<lambda>T. Ok (T, y))
        else Ok (T, y))"

partial_function (option) search_loop :: "'v rbtree \<Rightarrow> int \<Rightarrow> nat \<Rightarrow> nat option" where
  "search_loop T k node =
     (if node \<noteq> nil T then
        if k < key T node then search_loop T k (left T node)
        else if k > key T node then search_loop T k (right T node)
        else Some node
      else Some (nil T))"

definition rbtree_search :: "'v rbtree \<Rightarrow> int \<Rightarrow> nat outcome" where
  "rbtree_search T k = run (map_option Ok (search_loop T k (root T)))"

text \<open>The keys and the colors \<open>rbtree_traversal\<close> prints, one pair per line.\<close>

partial_function (option) traversal_loop :: "'v rbtree \<Rightarrow> nat \<Rightarrow> (int \<times> color) list option" where
  "traversal_loop T node =
     (if node \<noteq> nil T then
        Option.bind (traversal_loop T (left T node)) (\<lambda>before.
        Option.bind (traversal_loop T (right T node)) (\<lambda>after.
        Some (before @ (key T node, color T node) # after)))
      else Some [])"

definition rbtree_traversal :: "'v rbtree \<Rightarrow> nat \<Rightarrow> (int \<times> color) list outcome" where
  "rbtree_traversal T node = run (map_option Ok (traversal_loop T node))"

text \<open>
  The program itself. The store before it starts is arbitrary; \<open>brk\<close> is the address of the next node
  that is allocated, the sentinel first. Every traversal is one item of the output.
\<close>

definition keyArray :: "int list" where
  "keyArray = [24, 25, 13, 35, 23, 26, 67, 47, 38, 98, 20, 19, 17, 49, 12, 21, 9, 18, 14, 15]"

fun insert_keys :: "unit rbtree \<Rightarrow> nat \<Rightarrow> int list \<Rightarrow> unit rbtree outcome" where
  "insert_keys T brk [] = Ok T"
| "insert_keys T brk (k # ks) =
     obind (rbtree_insert (T\<lparr>key := (key T)(brk := k), val := (val T)(brk := ())\<rparr>) brk) (\<lambda>T. insert_keys T (brk + 1) ks)"

fun delete_keys :: "unit rbtree \<Rightarrow> int list \<Rightarrow> (int \<times> color) list list outcome" where
  "delete_keys T [] = Ok []"
| "delete_keys T (k # ks) =
     obind (rbtree_search T k) (\<lambda>node.
     obind (rbtree_delete T node) (\<lambda>(T, cur).
     obind (rbtree_traversal T (root T)) (\<lambda>out.
     obind (delete_keys T ks) (\<lambda>outs. Ok (out # outs)))))"

definition rbtree_main :: "unit rbtree \<Rightarrow> nat \<Rightarrow> int list \<Rightarrow> (int \<times> color) list list outcome" where
  "rbtree_main T brk ks =
     (let T = set_color brk BLACK (T\<lparr>nil := brk, root := brk\<rparr>) in
      obind (insert_keys T (brk + 1) ks) (\<lambda>T.
      obind (rbtree_traversal T (root T)) (\<lambda>out.
      obind (delete_keys T ks) (\<lambda>outs. Ok (out # outs)))))"

section \<open>Trees in the store\<close>

text \<open>A tree with the address, the color and the key of every node.\<close>

datatype rbt = Lf | Nd rbt nat color int rbt

fun addrs :: "rbt \<Rightarrow> nat list" where
  "addrs Lf = []"
| "addrs (Nd l a c k r) = addrs l @ a # addrs r"

fun keys :: "rbt \<Rightarrow> int list" where
  "keys Lf = []"
| "keys (Nd l a c k r) = keys l @ k # keys r"

fun tree_at :: "'v rbtree \<Rightarrow> nat \<Rightarrow> nat \<Rightarrow> rbt \<Rightarrow> bool" where
  "tree_at T up p Lf \<longleftrightarrow> p = nil T"
| "tree_at T up p (Nd l a c k r) \<longleftrightarrow>
     p = a \<and> a \<noteq> nil T \<and> parent T a = up \<and> color T a = c \<and> key T a = k \<and>
     tree_at T a (left T a) l \<and> tree_at T a (right T a) r"

text \<open>
  The path from a position to the root, innermost step first: the node above, its other subtree,
  and on which side the position is.
\<close>

datatype step = LStep nat color int rbt | RStep rbt nat color int

fun step_addrs :: "step \<Rightarrow> nat list" where
  "step_addrs (LStep a c k r) = a # addrs r"
| "step_addrs (RStep l a c k) = addrs l @ [a]"

fun path_addrs :: "step list \<Rightarrow> nat list" where
  "path_addrs [] = []"
| "path_addrs (s # ss) = step_addrs s @ path_addrs ss"

fun path_at :: "'v rbtree \<Rightarrow> step list \<Rightarrow> nat \<Rightarrow> nat \<Rightarrow> bool" where
  "path_at T [] p up \<longleftrightarrow> root T = p \<and> up = nil T"
| "path_at T (LStep a c k r # ss) p up \<longleftrightarrow>
     up = a \<and> a \<noteq> nil T \<and> left T a = p \<and> color T a = c \<and> key T a = k \<and>
     tree_at T a (right T a) r \<and> path_at T ss a (parent T a)"
| "path_at T (RStep l a c k # ss) p up \<longleftrightarrow>
     up = a \<and> a \<noteq> nil T \<and> right T a = p \<and> color T a = c \<and> key T a = k \<and>
     tree_at T a (left T a) l \<and> path_at T ss a (parent T a)"

fun plug :: "rbt \<Rightarrow> step list \<Rightarrow> rbt" where
  "plug t [] = t"
| "plug t (LStep a c k r # ss) = plug (Nd t a c k r) ss"
| "plug t (RStep l a c k # ss) = plug (Nd l a c k t) ss"

text \<open>A position in the tree: the subtree at \<open>p\<close> below \<open>up\<close>, and the path above it.\<close>

definition at_pos :: "'v rbtree \<Rightarrow> rbt \<Rightarrow> step list \<Rightarrow> nat \<Rightarrow> nat \<Rightarrow> bool" where
  "at_pos T t ss p up \<longleftrightarrow>
     tree_at T up p t \<and> path_at T ss p up \<and> distinct (addrs t @ path_addrs ss) \<and>
     nil T \<notin> set (addrs t @ path_addrs ss) \<and> color T (nil T) = BLACK"

lemma tree_at_cong:
  assumes "nil T' = nil T"
    and "\<And>a. a \<in> set (addrs t) \<Longrightarrow> left T' a = left T a \<and> right T' a = right T a \<and> parent T' a = parent T a \<and> color T' a = color T a \<and> key T' a = key T a"
  shows "tree_at T' up p t = tree_at T up p t"
  using assms
proof (induction t arbitrary: up p)
  case (Nd l a c k r)
  have "left T' a = left T a \<and> right T' a = right T a \<and> parent T' a = parent T a \<and> color T' a = color T a \<and> key T' a = key T a"
    using Nd.prems(2) by simp
  then show ?case using Nd.IH Nd.prems by simp
qed simp

text \<open>The same when the root of the subtree gets a new parent.\<close>

lemma tree_at_reparent:
  assumes "tree_at T up p t" "nil T' = nil T" "distinct (addrs t)" "p \<noteq> nil T \<Longrightarrow> parent T' p = up'"
    and "\<And>a. a \<in> set (addrs t) \<Longrightarrow> left T' a = left T a \<and> right T' a = right T a \<and> color T' a = color T a \<and> key T' a = key T a"
    and "\<And>a. a \<in> set (addrs t) \<Longrightarrow> a \<noteq> p \<Longrightarrow> parent T' a = parent T a"
  shows "tree_at T' up' p t"
proof (cases t)
  case (Nd l a c k r)
  then have p: "p = a" using assms(1) by simp
  have "left T' a = left T a \<and> right T' a = right T a \<and> color T' a = color T a \<and> key T' a = key T a" using assms(5) Nd by simp
  moreover have "tree_at T' a q l = tree_at T a q l" for q
    by (rule tree_at_cong) (use assms(2,3,5,6) Nd p in auto)
  moreover have "tree_at T' a q r = tree_at T a q r" for q
    by (rule tree_at_cong) (use assms(2,3,5,6) Nd p in auto)
  ultimately show ?thesis using assms(1,2,4) Nd by simp
qed (use assms in simp)

lemma path_at_cong:
  assumes "nil T' = nil T" "ss \<noteq> [] \<or> root T' = root T"
    and "\<And>a. a \<in> set (path_addrs ss) \<Longrightarrow> left T' a = left T a \<and> right T' a = right T a \<and> parent T' a = parent T a \<and> color T' a = color T a \<and> key T' a = key T a"
    and "root T' = root T"
  shows "path_at T' ss p up = path_at T ss p up"
  using assms
proof (induction T ss p up rule: path_at.induct)
  case (2 T a c k r ss p up)
  have "left T' a = left T a \<and> right T' a = right T a \<and> parent T' a = parent T a \<and> color T' a = color T a \<and> key T' a = key T a"
    using "2.prems"(3) by simp
  moreover have "tree_at T' a q r = tree_at T a q r" for q by (rule tree_at_cong) (use "2.prems" in auto)
  ultimately show ?case using 2 by simp
next
  case (3 T l a c k ss p up)
  have "left T' a = left T a \<and> right T' a = right T a \<and> parent T' a = parent T a \<and> color T' a = color T a \<and> key T' a = key T a"
    using "3.prems"(3) by simp
  moreover have "tree_at T' a q l = tree_at T a q l" for q by (rule tree_at_cong) (use "3.prems" in auto)
  ultimately show ?case using 3 by simp
qed simp

lemma node_fields [simp]:
  "root (set_color a c T) = root T" "nil (set_color a c T) = nil T" "color (set_color a c T) = (color T)(a := c)"
  "right (set_color a c T) = right T" "left (set_color a c T) = left T" "parent (set_color a c T) = parent T" "key (set_color a c T) = key T"
  "root (set_right a p T) = root T" "nil (set_right a p T) = nil T" "color (set_right a p T) = color T"
  "right (set_right a p T) = (right T)(a := p)" "left (set_right a p T) = left T" "parent (set_right a p T) = parent T" "key (set_right a p T) = key T"
  "root (set_left a p T) = root T" "nil (set_left a p T) = nil T" "color (set_left a p T) = color T"
  "right (set_left a p T) = right T" "left (set_left a p T) = (left T)(a := p)" "parent (set_left a p T) = parent T" "key (set_left a p T) = key T"
  "root (set_parent a p T) = root T" "nil (set_parent a p T) = nil T" "color (set_parent a p T) = color T"
  "right (set_parent a p T) = right T" "left (set_parent a p T) = left T" "parent (set_parent a p T) = (parent T)(a := p)" "key (set_parent a p T) = key T"
  by (simp_all add: set_color_def set_right_def set_left_def set_parent_def)

lemma adopt_fields [simp]:
  "root (adopt p x T) = root T" "nil (adopt p x T) = nil T" "color (adopt p x T) = color T" "right (adopt p x T) = right T"
  "left (adopt p x T) = left T" "parent (adopt p x T) = (if p \<noteq> nil T then (parent T)(p := x) else parent T)" "key (adopt p x T) = key T"
  by (simp_all add: adopt_def)

lemma replace_left_fields [simp]:
  "root (replace_left up x y T) = (if up = nil T then y else root T)" "nil (replace_left up x y T) = nil T"
  "color (replace_left up x y T) = color T" "parent (replace_left up x y T) = parent T" "key (replace_left up x y T) = key T"
  "left (replace_left up x y T) = (if up \<noteq> nil T \<and> x = left T up then (left T)(up := y) else left T)"
  "right (replace_left up x y T) = (if up \<noteq> nil T \<and> x \<noteq> left T up then (right T)(up := y) else right T)"
  by (simp_all add: replace_left_def)

lemma replace_right_fields [simp]:
  "root (replace_right up y x T) = (if up = nil T then x else root T)" "nil (replace_right up y x T) = nil T"
  "color (replace_right up y x T) = color T" "parent (replace_right up y x T) = parent T" "key (replace_right up y x T) = key T"
  "right (replace_right up y x T) = (if up \<noteq> nil T \<and> y = right T up then (right T)(up := x) else right T)"
  "left (replace_right up y x T) = (if up \<noteq> nil T \<and> y \<noteq> right T up then (left T)(up := x) else left T)"
  by (simp_all add: replace_right_def)

text \<open>What the rotations do to each field.\<close>

lemma left_rotate_fields:
  assumes "right T x = y" "left T y = b" "parent T x = up" "x \<noteq> y" "b \<noteq> x" "b \<noteq> y" "x \<noteq> nil T" "y \<noteq> nil T"
  shows "nil (rbtree_left_rotate T x) = nil T" "color (rbtree_left_rotate T x) = color T" "key (rbtree_left_rotate T x) = key T"
    "parent (rbtree_left_rotate T x) = ((if b \<noteq> nil T then (parent T)(b := x) else parent T)(y := up))(x := y)"
    "left (rbtree_left_rotate T x) = (if up \<noteq> nil T \<and> x = left T up then (left T)(up := y) else left T)(y := x)"
    "right (rbtree_left_rotate T x) = (if up \<noteq> nil T \<and> x \<noteq> left T up then (right T)(x := b, up := y) else (right T)(x := b))"
    "root (rbtree_left_rotate T x) = (if up = nil T then y else root T)"
proof -
  have "rbtree_left_rotate T x = set_parent x y (set_left y x (replace_left up x y (set_parent y up (adopt b x (set_right x b T)))))"
    using assms by (simp add: rbtree_left_rotate_def Let_def)
  note eq = this
  show "nil (rbtree_left_rotate T x) = nil T" "color (rbtree_left_rotate T x) = color T" "key (rbtree_left_rotate T x) = key T"
    "parent (rbtree_left_rotate T x) = ((if b \<noteq> nil T then (parent T)(b := x) else parent T)(y := up))(x := y)"
    "left (rbtree_left_rotate T x) = (if up \<noteq> nil T \<and> x = left T up then (left T)(up := y) else left T)(y := x)"
    "right (rbtree_left_rotate T x) = (if up \<noteq> nil T \<and> x \<noteq> left T up then (right T)(x := b, up := y) else (right T)(x := b))"
    "root (rbtree_left_rotate T x) = (if up = nil T then y else root T)"
    unfolding eq by (simp_all only: node_fields adopt_fields replace_left_fields)
qed

lemma right_rotate_fields:
  assumes "left T y = x" "right T x = b" "parent T y = up" "x \<noteq> y" "b \<noteq> x" "b \<noteq> y" "x \<noteq> nil T" "y \<noteq> nil T"
  shows "nil (rbtree_right_rotate T y) = nil T" "color (rbtree_right_rotate T y) = color T" "key (rbtree_right_rotate T y) = key T"
    "parent (rbtree_right_rotate T y) = ((if b \<noteq> nil T then (parent T)(b := y) else parent T)(x := up))(y := x)"
    "right (rbtree_right_rotate T y) = (if up \<noteq> nil T \<and> y = right T up then (right T)(up := x) else right T)(x := y)"
    "left (rbtree_right_rotate T y) = (if up \<noteq> nil T \<and> y \<noteq> right T up then (left T)(y := b, up := x) else (left T)(y := b))"
    "root (rbtree_right_rotate T y) = (if up = nil T then x else root T)"
proof -
  have "rbtree_right_rotate T y = set_parent y x (set_right x y (replace_right up y x (set_parent x up (adopt b y (set_left y b T)))))"
    using assms by (simp add: rbtree_right_rotate_def Let_def)
  note eq = this
  show "nil (rbtree_right_rotate T y) = nil T" "color (rbtree_right_rotate T y) = color T" "key (rbtree_right_rotate T y) = key T"
    "parent (rbtree_right_rotate T y) = ((if b \<noteq> nil T then (parent T)(b := y) else parent T)(x := up))(y := x)"
    "right (rbtree_right_rotate T y) = (if up \<noteq> nil T \<and> y = right T up then (right T)(up := x) else right T)(x := y)"
    "left (rbtree_right_rotate T y) = (if up \<noteq> nil T \<and> y \<noteq> right T up then (left T)(y := b, up := x) else (left T)(y := b))"
    "root (rbtree_right_rotate T y) = (if up = nil T then x else root T)"
    unfolding eq by (simp_all only: node_fields adopt_fields replace_right_fields)
qed

text \<open>The path above a position whose subtree gets a new root \<open>q\<close>.\<close>

fun on_left :: "step list \<Rightarrow> bool" where
  "on_left (LStep _ _ _ _ # _) = True"
| "on_left _ = False"

lemma path_replace:
  assumes path: "path_at T ss p up" and "distinct (path_addrs ss)" "nil T' = nil T"
    and "ss = [] \<Longrightarrow> root T' = q" "ss \<noteq> [] \<Longrightarrow> root T' = root T"
    and fields: "\<And>a. a \<in> set (path_addrs ss) \<Longrightarrow> parent T' a = parent T a \<and> color T' a = color T a \<and> key T' a = key T a \<and>
      left T' a = (if a = up \<and> on_left ss then q else left T a) \<and>
      right T' a = (if a = up \<and> \<not> on_left ss then q else right T a)"
  shows "path_at T' ss q up"
proof (cases ss)
  case Nil
  then show ?thesis using assms by simp
next
  case (Cons s rest)
  show ?thesis
  proof (cases s)
    case (LStep a c k r)
    have up: "up = a" using path Cons LStep by simp
    have "a \<notin> set (addrs r)" "a \<notin> set (path_addrs rest)" using assms(2) Cons LStep by auto
    then have "tree_at T' a x r = tree_at T a x r" for x by (intro tree_at_cong) (use assms(3) fields up Cons LStep in auto)
    moreover have "path_at T' rest a y = path_at T rest a y" for y
      using \<open>a \<notin> set (path_addrs rest)\<close> by (intro path_at_cong) (use assms(3,5) fields up Cons LStep in auto)
    ultimately show ?thesis using path fields [of a] assms(3) up Cons LStep by auto
  next
    case (RStep l a c k)
    have up: "up = a" using path Cons RStep by simp
    have "a \<notin> set (addrs l)" "a \<notin> set (path_addrs rest)" using assms(2) Cons RStep by auto
    then have "tree_at T' a x l = tree_at T a x l" for x by (intro tree_at_cong) (use assms(3) fields up Cons RStep in auto)
    moreover have "path_at T' rest a y = path_at T rest a y" for y
      using \<open>a \<notin> set (path_addrs rest)\<close> by (intro path_at_cong) (use assms(3,5) fields up Cons RStep in auto)
    ultimately show ?thesis using path fields [of a] assms(3) up Cons RStep by auto
  qed
qed

lemma tree_root: "tree_at T up p t \<Longrightarrow> p = nil T \<or> p \<in> set (addrs t)"
  by (cases t) auto

text \<open>On which side of the node above a position is can be told from the pointers.\<close>

lemma path_side:
  assumes "at_pos T t ss p up" "t \<noteq> Lf"
  shows "ss = [] \<longleftrightarrow> up = nil T" "ss \<noteq> [] \<Longrightarrow> p = left T up \<longleftrightarrow> on_left ss" "ss \<noteq> [] \<Longrightarrow> p = right T up \<longleftrightarrow> \<not> on_left ss"
    "ss \<noteq> [] \<Longrightarrow> up \<in> set (path_addrs ss)"
proof -
  have p: "p \<noteq> nil T" "p \<in> set (addrs t)" using assms by (cases t; auto simp: at_pos_def)+
  have path: "path_at T ss p up" and d: "distinct (addrs t @ path_addrs ss)" using assms(1) by (auto simp: at_pos_def)
  show "ss = [] \<longleftrightarrow> up = nil T" using path by (cases "(T, ss, p, up)" rule: path_at.cases) auto
  have other: "(on_left ss \<longrightarrow> p = left T up \<and> p \<noteq> right T up) \<and> (\<not> on_left ss \<longrightarrow> p = right T up \<and> p \<noteq> left T up) \<and> up \<in> set (path_addrs ss)" if ne: "ss \<noteq> []"
  proof -
    obtain s rest where ss: "ss = s # rest" using ne by (cases ss) auto
    show ?thesis
    proof (cases s)
      case (LStep a c k r)
      then have "tree_at T a (right T a) r" using path ss by simp
      from tree_root [OF this] show ?thesis using path p d LStep ss by auto
    next
      case (RStep l a c k)
      then have "tree_at T a (left T a) l" using path ss by simp
      from tree_root [OF this] show ?thesis using path p d RStep ss by auto
    qed
  qed
  show "ss \<noteq> [] \<Longrightarrow> p = left T up \<longleftrightarrow> on_left ss" "ss \<noteq> [] \<Longrightarrow> p = right T up \<longleftrightarrow> \<not> on_left ss"
    "ss \<noteq> [] \<Longrightarrow> up \<in> set (path_addrs ss)" using other by auto
qed

lemma left_rotate_ok:
  assumes pos: "at_pos T (Nd ta x cx kx (Nd tb y cy ky td)) ss x up"
  shows "at_pos (rbtree_left_rotate T x) (Nd (Nd ta x cx kx tb) y cy ky td) ss y up"
proof -
  let ?T = "rbtree_left_rotate T x"
  have t: "tree_at T up x (Nd ta x cx kx (Nd tb y cy ky td))" "path_at T ss x up"
    and d: "distinct (addrs ta @ x # (addrs tb @ y # addrs td) @ path_addrs ss)"
    and n: "nil T \<notin> set (addrs ta @ x # (addrs tb @ y # addrs td) @ path_addrs ss)" and cn: "color T (nil T) = BLACK"
    using pos by (auto simp: at_pos_def)
  define b where "b = left T y"
  have b: "b = nil T \<or> b \<in> set (addrs tb)" using t tree_root by (auto simp: b_def)
  note side = path_side [OF pos, simplified]
  have xy: "right T x = y" "left T y = b" "parent T x = up" "x \<noteq> y" "b \<noteq> x" "b \<noteq> y" "x \<noteq> nil T" "y \<noteq> nil T"
    using t d n b by (auto simp: b_def)
  note f = left_rotate_fields [OF xy]
  have up: "up = nil T \<or> up \<in> set (path_addrs ss)" using side(1,4) by blast
  have out: "\<And>z. z \<in> set (path_addrs ss) \<Longrightarrow> z \<noteq> x \<and> z \<noteq> y \<and> z \<noteq> b" "\<And>z. z \<in> set (addrs ta @ addrs td) \<Longrightarrow> z \<noteq> x \<and> z \<noteq> y \<and> z \<noteq> b \<and> z \<noteq> up"
    "\<And>z. z \<in> set (addrs tb) \<Longrightarrow> z \<noteq> x \<and> z \<noteq> y \<and> z \<noteq> up"
    using d n b up by auto
  have ta: "tree_at ?T x p ta = tree_at T x p ta" for p by (rule tree_at_cong) (use out(2) in \<open>auto simp: f\<close>)
  have td: "tree_at ?T y p td = tree_at T y p td" for p by (rule tree_at_cong) (use out(2) in \<open>auto simp: f\<close>)
  have "tree_at T y b tb" using t by (simp add: b_def)
  then have tb: "tree_at ?T x b tb" by (rule tree_at_reparent) (use d out(3) xy in \<open>auto simp: f\<close>)
  have path: "path_at ?T ss y up"
    by (rule path_replace [OF t(2)]) (use d out(1) up n side in \<open>auto simp: f\<close>)
  have "x \<noteq> up" "y \<noteq> up" using up out(1) xy(7,8) by metis+
  then have "tree_at ?T up y (Nd (Nd ta x cx kx tb) y cy ky td)" using t xy ta td tb by (auto simp: f)
  then show ?thesis using path d n cn unfolding at_pos_def by (auto simp: f)
qed

lemma right_rotate_ok:
  assumes pos: "at_pos T (Nd (Nd ta x cx kx tb) y cy ky td) ss y up"
  shows "at_pos (rbtree_right_rotate T y) (Nd ta x cx kx (Nd tb y cy ky td)) ss x up"
proof -
  let ?T = "rbtree_right_rotate T y"
  have t: "tree_at T up y (Nd (Nd ta x cx kx tb) y cy ky td)" "path_at T ss y up"
    and d: "distinct (addrs ta @ x # (addrs tb @ y # addrs td) @ path_addrs ss)"
    and n: "nil T \<notin> set (addrs ta @ x # (addrs tb @ y # addrs td) @ path_addrs ss)" and cn: "color T (nil T) = BLACK"
    using pos by (auto simp: at_pos_def)
  define b where "b = right T x"
  have b: "b = nil T \<or> b \<in> set (addrs tb)" using t tree_root by (auto simp: b_def)
  note side = path_side [OF pos, simplified]
  have xy: "left T y = x" "right T x = b" "parent T y = up" "x \<noteq> y" "b \<noteq> x" "b \<noteq> y" "x \<noteq> nil T" "y \<noteq> nil T"
    using t d n b by (auto simp: b_def)
  note f = right_rotate_fields [OF xy]
  have up: "up = nil T \<or> up \<in> set (path_addrs ss)" using side(1,4) by blast
  have out: "\<And>z. z \<in> set (path_addrs ss) \<Longrightarrow> z \<noteq> x \<and> z \<noteq> y \<and> z \<noteq> b" "\<And>z. z \<in> set (addrs ta @ addrs td) \<Longrightarrow> z \<noteq> x \<and> z \<noteq> y \<and> z \<noteq> b \<and> z \<noteq> up"
    "\<And>z. z \<in> set (addrs tb) \<Longrightarrow> z \<noteq> x \<and> z \<noteq> y \<and> z \<noteq> up"
    using d n b up by auto
  have ta: "tree_at ?T x p ta = tree_at T x p ta" for p by (rule tree_at_cong) (use out(2) in \<open>auto simp: f\<close>)
  have td: "tree_at ?T y p td = tree_at T y p td" for p by (rule tree_at_cong) (use out(2) in \<open>auto simp: f\<close>)
  have "tree_at T x b tb" using t by (simp add: b_def)
  then have tb: "tree_at ?T y b tb" by (rule tree_at_reparent) (use d out(3) xy in \<open>auto simp: f\<close>)
  have path: "path_at ?T ss x up"
    by (rule path_replace [OF t(2)]) (use d out(1) up n side in \<open>auto simp: f\<close>)
  have "x \<noteq> up" "y \<noteq> up" using up out(1) xy(7,8) by metis+
  then have "tree_at ?T up x (Nd ta x cx kx (Nd tb y cy ky td))" using t xy ta td tb by (auto simp: f)
  then show ?thesis using path d n cn unfolding at_pos_def by (auto simp: f)
qed

section \<open>Moving the position and changing colors\<close>

fun plug1 :: "rbt \<Rightarrow> step \<Rightarrow> rbt" where
  "plug1 t (LStep a c k r) = Nd t a c k r"
| "plug1 t (RStep l a c k) = Nd l a c k t"

lemma plug_Cons [simp]: "plug t (s # ss) = plug (plug1 t s) ss"
  by (cases s) auto

lemma at_pos_up:
  assumes "at_pos T t (s # ss) p up"
  shows "at_pos T (plug1 t s) ss up (parent T up)"
  using assms by (cases s) (auto simp: at_pos_def)

lemma at_pos_left:
  assumes "at_pos T (Nd l a c k r) ss a up"
  shows "at_pos T l (LStep a c k r # ss) (left T a) a"
  using assms by (auto simp: at_pos_def)

lemma at_pos_right:
  assumes "at_pos T (Nd l a c k r) ss a up"
  shows "at_pos T r (RStep l a c k # ss) (right T a) a"
  using assms by (auto simp: at_pos_def)

lemma at_pos_plug: "at_pos T t ss p up \<Longrightarrow> at_pos T (plug t ss) [] (root T) (nil T)"
proof (induction ss arbitrary: t p up)
  case Nil
  then show ?case by (auto simp: at_pos_def)
next
  case (Cons s ss)
  from Cons.IH [OF at_pos_up [OF Cons.prems]] show ?case by simp
qed

fun recolor :: "nat \<Rightarrow> color \<Rightarrow> rbt \<Rightarrow> rbt" where
  "recolor a c Lf = Lf"
| "recolor a c (Nd l b d k r) = Nd (recolor a c l) b (if b = a then c else d) k (recolor a c r)"

lemma recolor_id [simp]: "a \<notin> set (addrs t) \<Longrightarrow> recolor a c t = t"
  by (induction t) auto

lemma recolor_addrs [simp]: "addrs (recolor a c t) = addrs t"
  by (induction t) auto

lemma recolor_keys [simp]: "keys (recolor a c t) = keys t"
  by (induction t) auto

lemma recolor_tree_at:
  "tree_at T up p t \<Longrightarrow> nil T \<notin> set (addrs t) \<Longrightarrow> tree_at (set_color a c T) up p (recolor a c t)"
  by (induction t arbitrary: up p) auto

lemma recolor_ok:
  assumes "at_pos T t ss p up" "a \<in> set (addrs t)"
  shows "at_pos (set_color a c T) (recolor a c t) ss p up"
proof -
  have "path_at (set_color a c T) ss p up = path_at T ss p up"
    by (rule path_at_cong) (use assms in \<open>auto simp: at_pos_def\<close>)
  then show ?thesis using assms recolor_tree_at [of T up p t a c] by (auto simp: at_pos_def)
qed

text \<open>The step above a position is the node above it.\<close>

fun step_addr :: "step \<Rightarrow> nat" where
  "step_addr (LStep a c k r) = a"
| "step_addr (RStep l a c k) = a"

fun step_color :: "step \<Rightarrow> color" where
  "step_color (LStep a c k r) = c"
| "step_color (RStep l a c k) = c"

lemma at_pos_step:
  assumes "at_pos T t (s # ss) p up"
  shows "up = step_addr s" "color T up = step_color s"
  using assms by (cases s; auto simp: at_pos_def)+

section \<open>The invariants\<close>

fun black :: "rbt \<Rightarrow> bool" where
  "black Lf = True"
| "black (Nd l a c k r) = (c = BLACK)"

fun invc :: "rbt \<Rightarrow> bool" where
  "invc Lf = True"
| "invc (Nd l a c k r) \<longleftrightarrow> invc l \<and> invc r \<and> (c = RED \<longrightarrow> black l \<and> black r)"

fun bheight :: "rbt \<Rightarrow> nat" where
  "bheight Lf = 0"
| "bheight (Nd l a c k r) = bheight l + (if c = BLACK then 1 else 0)"

fun invh :: "rbt \<Rightarrow> bool" where
  "invh Lf = True"
| "invh (Nd l a c k r) \<longleftrightarrow> invh l \<and> invh r \<and> bheight l = bheight r"

fun sibling :: "step \<Rightarrow> rbt" where
  "sibling (LStep a c k r) = r"
| "sibling (RStep l a c k) = l"

fun path_c :: "step list \<Rightarrow> bool" where
  "path_c [] = True"
| "path_c (s # ss) \<longleftrightarrow> invc (sibling s) \<and> path_c ss \<and>
     (step_color s = RED \<longrightarrow> black (sibling s) \<and> ss \<noteq> [] \<and> step_color (hd ss) = BLACK)"

fun path_h :: "step list \<Rightarrow> nat \<Rightarrow> bool" where
  "path_h [] n = True"
| "path_h (s # ss) n \<longleftrightarrow> invh (sibling s) \<and> bheight (sibling s) = n \<and> path_h ss (n + (if step_color s = BLACK then 1 else 0))"

lemma plug1_c: "invc t \<Longrightarrow> invc (sibling s) \<Longrightarrow> (step_color s = RED \<Longrightarrow> black t \<and> black (sibling s)) \<Longrightarrow> invc (plug1 t s)"
  by (cases s) auto

lemma plug1_black: "black (plug1 t s) \<longleftrightarrow> step_color s = BLACK"
  by (cases s) auto

lemma plug1_h: "invh t \<Longrightarrow> invh (sibling s) \<Longrightarrow> bheight (sibling s) = bheight t \<Longrightarrow>
  invh (plug1 t s) \<and> bheight (plug1 t s) = bheight t + (if step_color s = BLACK then 1 else 0)"
  by (cases s) auto

lemma plug_c: "invc t \<Longrightarrow> path_c ss \<Longrightarrow> (ss \<noteq> [] \<and> step_color (hd ss) = RED \<Longrightarrow> black t) \<Longrightarrow> invc (plug t ss)"
proof (induction ss arbitrary: t)
  case (Cons s ss)
  have "invc (plug1 t s)" by (rule plug1_c) (use Cons.prems in auto)
  moreover have "ss \<noteq> [] \<and> step_color (hd ss) = RED \<Longrightarrow> black (plug1 t s)"
    using Cons.prems(2) plug1_black [of t s] by (cases "step_color s") auto
  ultimately show ?case using Cons.IH [of "plug1 t s"] Cons.prems(2) by simp
qed simp

lemma plug_h: "invh t \<Longrightarrow> path_h ss (bheight t) \<Longrightarrow> invh (plug t ss)"
proof (induction ss arbitrary: t)
  case (Cons s ss)
  then have "invh (plug1 t s)" "bheight (plug1 t s) = bheight t + (if step_color s = BLACK then 1 else 0)"
    using plug1_h [of t s] by auto
  then show ?case using Cons.IH [of "plug1 t s"] Cons.prems(2) by simp
qed simp

text \<open>Coloring the root black keeps the invariants.\<close>

fun root_black :: "rbt \<Rightarrow> rbt" where
  "root_black Lf = Lf"
| "root_black (Nd l a c k r) = Nd l a BLACK k r"

lemma root_black_inv: "invc t \<Longrightarrow> invc (root_black t)" "invh t \<Longrightarrow> invh (root_black t)" "black (root_black t)"
  "keys (root_black t) = keys t" "addrs (root_black t) = addrs t"
  by (cases t; auto)+

lemma root_black_recolor: "distinct (addrs (Nd l a c k r)) \<Longrightarrow> recolor a BLACK (Nd l a c k r) = root_black (Nd l a c k r)"
  by auto

end
