(* ===== verification/Rbtree_insert.thy ===== *)
theory Rbtree_insert
  imports Rbtree
begin

text \<open>
  Insertion and search in the tree of \<open>src/linuxdemo/rbtree.c\<close>: every pass of the repair loop, the
  whole loop, the search for the place of the new node, and the height of a red-black tree.
\<close>

section \<open>The passes of the repair loop\<close>

lemma at_pos_parent: "at_pos T (Nd l a c k r) ss p up \<Longrightarrow> p = a \<and> parent T a = up"
  by (simp add: at_pos_def)

lemma at_pos_distinct: "at_pos T t ss p up \<Longrightarrow> distinct (addrs t)"
  by (simp add: at_pos_def)

text \<open>Uncle red: three nodes change color and the problem moves up two levels.\<close>

lemma step_uncle_red:
  assumes pos: "at_pos T (Nd l z RED kz r) (s1 # s2 # rest) z p"
    and uncle: "sibling s2 = Nd ul ua RED uk ur"
  defines "g \<equiv> step_addr s2"
  defines "T' \<equiv> set_color g RED (set_color ua BLACK (set_color p BLACK T))"
  shows "insert_fixup_step T z = (T', g)"
    "at_pos T' (recolor g RED (recolor ua BLACK (recolor p BLACK (plug1 (plug1 (Nd l z RED kz r) s1) s2)))) rest g (parent T g)"
proof -
  note pz = at_pos_parent [OF pos]
  note up1 = at_pos_up [OF pos]
  have pg: "parent T p = g" using at_pos_step(1) [OF up1] by (simp add: g_def)
  have p: "p = step_addr s1" using at_pos_step(1) [OF pos] .
  have ne: "plug1 (Nd l z RED kz r) s1 \<noteq> Lf" by (cases s1) auto
  note side = path_side [OF up1 ne, simplified, unfolded pg]
  note up2 = at_pos_up [OF up1, unfolded pg]
  have ua: "color T ua = RED" "on_left (s2 # rest) \<Longrightarrow> right T g = ua" "\<not> on_left (s2 # rest) \<Longrightarrow> left T g = ua"
    using up2 uncle by (cases s2; auto simp: at_pos_def g_def)+
  show "insert_fixup_step T z = (T', g)"
    unfolding insert_fixup_step_def T'_def using side pz pg ua by (cases "on_left (s2 # rest)") (simp_all add: Let_def)
  let ?t = "plug1 (plug1 (Nd l z RED kz r) s1) s2"
  have "p \<in> set (addrs ?t)" "ua \<in> set (addrs ?t)" "g \<in> set (addrs ?t)"
    using p uncle by (cases s1; cases s2; auto simp: g_def)+
  then have "at_pos T' (recolor g RED (recolor ua BLACK (recolor p BLACK ?t))) rest g (parent T g)"
    unfolding T'_def using up2 by (intro recolor_ok) auto
  then show "at_pos T' (recolor g RED (recolor ua BLACK (recolor p BLACK ?t))) rest g (parent T g)" .
qed

text \<open>The final rotation on either side.\<close>

lemma finish_right:
  assumes pos: "at_pos T (Nd (Nd t1 q cq kq t2) g cg kg u) rest g up"
  defines "T' \<equiv> rbtree_right_rotate (set_color g RED (set_color q BLACK T)) g"
  shows "at_pos T' t1 (LStep q BLACK kq (Nd t2 g RED kg u) # rest) (left T' q) q"
proof -
  have d: "distinct (addrs (Nd (Nd t1 q cq kq t2) g cg kg u))" by (rule at_pos_distinct [OF pos])
  have "at_pos (set_color g RED (set_color q BLACK T)) (recolor g RED (recolor q BLACK (Nd (Nd t1 q cq kq t2) g cg kg u))) rest g up"
    using pos by (intro recolor_ok) auto
  then have "at_pos (set_color g RED (set_color q BLACK T)) (Nd (Nd t1 q BLACK kq t2) g RED kg u) rest g up" using d by auto
  from at_pos_left [OF right_rotate_ok [OF this]] show ?thesis by (simp add: T'_def)
qed

lemma finish_left:
  assumes pos: "at_pos T (Nd u g cg kg (Nd t2 q cq kq t1)) rest g up"
  defines "T' \<equiv> rbtree_left_rotate (set_color g RED (set_color q BLACK T)) g"
  shows "at_pos T' t1 (RStep (Nd u g RED kg t2) q BLACK kq # rest) (right T' q) q"
proof -
  have d: "distinct (addrs (Nd u g cg kg (Nd t2 q cq kq t1)))" by (rule at_pos_distinct [OF pos])
  have "at_pos (set_color g RED (set_color q BLACK T)) (recolor g RED (recolor q BLACK (Nd u g cg kg (Nd t2 q cq kq t1)))) rest g up"
    using pos by (intro recolor_ok) auto
  then have "at_pos (set_color g RED (set_color q BLACK T)) (Nd u g RED kg (Nd t2 q BLACK kq t1)) rest g up" using d by auto
  from at_pos_right [OF left_rotate_ok [OF this]] show ?thesis by (simp add: T'_def)
qed

lemma black_uncle: "tree_at T up p u \<Longrightarrow> black u \<Longrightarrow> color T (nil T) = BLACK \<Longrightarrow> color T p = BLACK"
  by (cases u) auto

text \<open>Uncle black, on the right: one or two rotations.\<close>

lemma step_uncle_black_left:
  assumes pos: "at_pos T (Nd l z RED kz r) (s1 # LStep g cg kg u # rest) z p" and u: "black u"
  shows "\<exists>T' z' t' ss'. insert_fixup_step T z = (T', z') \<and> at_pos T' t' (ss' # rest) z' (step_addr ss') \<and>
    (case s1 of
       LStep _ c1 k1 r1 \<Rightarrow> t' = Nd l z RED kz r \<and> z' = z \<and> ss' = LStep p BLACK k1 (Nd r1 g RED kg u)
     | RStep l1 _ c1 k1 \<Rightarrow> t' = Nd l1 p c1 k1 l \<and> z' = p \<and> ss' = LStep z BLACK kz (Nd r g RED kg u))"
proof -
  note pz = at_pos_parent [OF pos]
  note up1 = at_pos_up [OF pos]
  have p: "p = step_addr s1" using at_pos_step(1) [OF pos] .
  have pg: "parent T p = g" using at_pos_step(1) [OF up1] by simp
  have ne: "plug1 (Nd l z RED kz r) s1 \<noteq> Lf" by (cases s1) auto
  have pl: "p = left T g" using path_side(2) [OF up1 ne] pg by simp
  note up2 = at_pos_up [OF up1, unfolded pg]
  have uc: "color T (right T g) \<noteq> RED" using up2 black_uncle [of T g "right T g" u] u by (auto simp: at_pos_def)
  have zr: "z = right T p \<longleftrightarrow> \<not> on_left (s1 # LStep g cg kg u # rest)" using path_side(3) [OF pos] by simp
  show ?thesis
  proof (cases s1)
    case (LStep a c1 k1 r1)
    then have a: "a = p" using p by simp
    let ?T = "rbtree_right_rotate (set_color g RED (set_color p BLACK T)) g"
    have step: "insert_fixup_step T z = (?T, z)"
      unfolding insert_fixup_step_def using pz pg pl uc zr LStep by (simp add: Let_def)
    have "at_pos ?T (Nd l z RED kz r) (LStep p BLACK k1 (Nd r1 g RED kg u) # rest) (left ?T p) p"
      using finish_right up2 LStep a by simp
    moreover from this have "left ?T p = z" by (simp add: at_pos_def)
    ultimately show ?thesis using step LStep by auto
  next
    case (RStep l1 a c1 k1)
    then have a: "a = p" using p by simp
    let ?T1 = "rbtree_left_rotate T p"
    have "at_pos T (Nd l1 p c1 k1 (Nd l z RED kz r)) (LStep g cg kg u # rest) p g" using up1 pg RStep a by simp
    from left_rotate_ok [OF this] have pos1: "at_pos ?T1 (Nd (Nd l1 p c1 k1 l) z RED kz r) (LStep g cg kg u # rest) z g" .
    then have f1: "parent ?T1 p = z" "parent ?T1 z = g" by (auto simp: at_pos_def)
    let ?T = "rbtree_right_rotate (set_color g RED (set_color z BLACK ?T1)) g"
    have step: "insert_fixup_step T z = (?T, p)"
      unfolding insert_fixup_step_def using pz pg pl uc zr RStep f1 by (simp add: Let_def)
    have "at_pos ?T1 (Nd (Nd (Nd l1 p c1 k1 l) z RED kz r) g cg kg u) rest g (parent ?T1 g)" using at_pos_up [OF pos1] by simp
    from finish_right [OF this] have "at_pos ?T (Nd l1 p c1 k1 l) (LStep z BLACK kz (Nd r g RED kg u) # rest) (left ?T z) z" .
    moreover from this have "left ?T z = p" by (simp add: at_pos_def)
    ultimately show ?thesis using step RStep by auto
  qed
qed

lemma step_uncle_black_right:
  assumes pos: "at_pos T (Nd l z RED kz r) (s1 # RStep u g cg kg # rest) z p" and u: "black u"
  shows "\<exists>T' z' t' ss'. insert_fixup_step T z = (T', z') \<and> at_pos T' t' (ss' # rest) z' (step_addr ss') \<and>
    (case s1 of
       RStep l1 _ c1 k1 \<Rightarrow> t' = Nd l z RED kz r \<and> z' = z \<and> ss' = RStep (Nd u g RED kg l1) p BLACK k1
     | LStep _ c1 k1 r1 \<Rightarrow> t' = Nd r p c1 k1 r1 \<and> z' = p \<and> ss' = RStep (Nd u g RED kg l) z BLACK kz)"
proof -
  note pz = at_pos_parent [OF pos]
  note up1 = at_pos_up [OF pos]
  have p: "p = step_addr s1" using at_pos_step(1) [OF pos] .
  have pg: "parent T p = g" using at_pos_step(1) [OF up1] by simp
  have ne: "plug1 (Nd l z RED kz r) s1 \<noteq> Lf" by (cases s1) auto
  have pl: "p \<noteq> left T g" using path_side(2) [OF up1 ne] pg by simp
  note up2 = at_pos_up [OF up1, unfolded pg]
  have uc: "color T (left T g) \<noteq> RED" using up2 black_uncle [of T g "left T g" u] u by (auto simp: at_pos_def)
  have zl: "z = left T p \<longleftrightarrow> on_left (s1 # RStep u g cg kg # rest)" using path_side(2) [OF pos] by simp
  show ?thesis
  proof (cases s1)
    case (RStep l1 a c1 k1)
    then have a: "a = p" using p by simp
    let ?T = "rbtree_left_rotate (set_color g RED (set_color p BLACK T)) g"
    have step: "insert_fixup_step T z = (?T, z)"
      unfolding insert_fixup_step_def using pz pg pl uc zl RStep by (simp add: Let_def)
    have "at_pos ?T (Nd l z RED kz r) (RStep (Nd u g RED kg l1) p BLACK k1 # rest) (right ?T p) p"
      using finish_left up2 RStep a by simp
    moreover from this have "right ?T p = z" by (simp add: at_pos_def)
    ultimately show ?thesis using step RStep by auto
  next
    case (LStep a c1 k1 r1)
    then have a: "a = p" using p by simp
    let ?T1 = "rbtree_right_rotate T p"
    have "at_pos T (Nd (Nd l z RED kz r) p c1 k1 r1) (RStep u g cg kg # rest) p g" using up1 pg LStep a by simp
    from right_rotate_ok [OF this] have pos1: "at_pos ?T1 (Nd l z RED kz (Nd r p c1 k1 r1)) (RStep u g cg kg # rest) z g" .
    then have f1: "parent ?T1 p = z" "parent ?T1 z = g" by (auto simp: at_pos_def)
    let ?T = "rbtree_left_rotate (set_color g RED (set_color z BLACK ?T1)) g"
    have step: "insert_fixup_step T z = (?T, p)"
      unfolding insert_fixup_step_def using pz pg pl uc zl LStep f1 by (simp add: Let_def)
    have "at_pos ?T1 (Nd u g cg kg (Nd l z RED kz (Nd r p c1 k1 r1))) rest g (parent ?T1 g)" using at_pos_up [OF pos1] by simp
    from finish_left [OF this] have "at_pos ?T (Nd r p c1 k1 r1) (RStep (Nd u g RED kg l) z BLACK kz # rest) (right ?T z) z" .
    moreover from this have "right ?T z = p" by (simp add: at_pos_def)
    ultimately show ?thesis using step LStep by auto
  qed
qed

lemma set_val [simp]:
  "val (set_color a c T) = val T" "val (set_right a p T) = val T" "val (set_left a p T) = val T" "val (set_parent a p T) = val T"
  "val (adopt p x T) = val T" "val (replace_left up x y T) = val T" "val (replace_right up x y T) = val T"
  by (simp_all add: set_color_def set_right_def set_left_def set_parent_def adopt_def replace_left_def replace_right_def)

lemma rotate_same [simp]:
  "nil (rbtree_left_rotate T x) = nil T" "key (rbtree_left_rotate T x) = key T" "val (rbtree_left_rotate T x) = val T"
  "nil (rbtree_right_rotate T x) = nil T" "key (rbtree_right_rotate T x) = key T" "val (rbtree_right_rotate T x) = val T"
  by (simp_all add: rbtree_left_rotate_def rbtree_right_rotate_def Let_def)

lemma fixup_step_same [simp]:
  "nil (fst (insert_fixup_step T z)) = nil T" "key (fst (insert_fixup_step T z)) = key T" "val (fst (insert_fixup_step T z)) = val T"
  by (auto simp: insert_fixup_step_def Let_def split: prod.splits if_splits)

lemma plug_same: "keys t = keys t' \<Longrightarrow> keys (plug t ss) = keys (plug t' ss)" "addrs t = addrs t' \<Longrightarrow> addrs (plug t ss) = addrs (plug t' ss)"
proof -
  show "keys t = keys t' \<Longrightarrow> keys (plug t ss) = keys (plug t' ss)"
  proof (induction ss arbitrary: t t')
    case (Cons s ss)
    then show ?case using Cons.IH [of "plug1 t s" "plug1 t' s"] by (cases s) auto
  qed simp
  show "addrs t = addrs t' \<Longrightarrow> addrs (plug t ss) = addrs (plug t' ss)"
  proof (induction ss arbitrary: t t')
    case (Cons s ss)
    then show ?case using Cons.IH [of "plug1 t s" "plug1 t' s"] by (cases s) auto
  qed simp
qed

text \<open>The state of the loop: a red node whose only fault is a red node above it.\<close>

definition fix_inv :: "rbt \<Rightarrow> step list \<Rightarrow> nat \<Rightarrow> bool" where
  "fix_inv t ss z \<longleftrightarrow> (\<exists>l k r. t = Nd l z RED k r) \<and> invc t \<and> path_c ss \<and> invh t \<and> path_h ss (bheight t)"

text \<open>What the loop has achieved when it ends.\<close>

definition fixed :: "'v rbtree \<Rightarrow> rbt \<Rightarrow> step list \<Rightarrow> 'v rbtree option \<Rightarrow> bool" where
  "fixed T t ss res \<longleftrightarrow> (\<exists>T' t'. res = Some T' \<and> at_pos T' t' [] (root T') (nil T') \<and>
     keys t' = keys (plug t ss) \<and> addrs t' = addrs (plug t ss) \<and> invc t' \<and> invh t' \<and> black t' \<and>
     nil T' = nil T \<and> key T' = key T \<and> val T' = val T)"

lemma plug_nonempty: "t \<noteq> Lf \<Longrightarrow> plug t ss \<noteq> Lf"
proof (induction ss arbitrary: t)
  case (Cons s ss)
  have "plug1 t s \<noteq> Lf" by (cases s) auto
  then show ?case using Cons.IH by simp
qed simp

lemma fixup_done:
  assumes pos: "at_pos T t ss z up" and inv: "fix_inv t ss z" and blk: "ss = [] \<or> step_color (hd ss) = BLACK"
  shows "fixed T t ss (insert_fixup_loop T z)"
proof -
  obtain l k r where t: "t = Nd l z RED k r" using inv by (auto simp: fix_inv_def)
  have up: "parent T z = up" using at_pos_parent pos t by blast
  have "color T up = BLACK"
  proof (cases ss)
    case Nil
    then show ?thesis using pos by (simp add: at_pos_def)
  next
    case (Cons s rest)
    then show ?thesis using at_pos_step(2) pos blk by fastforce
  qed
  then have loop: "insert_fixup_loop T z = Some (set_color (root T) BLACK T)"
    using up by (subst insert_fixup_loop.simps) simp
  note whole = at_pos_plug [OF pos]
  obtain l' a' c' k' r' where w: "plug t ss = Nd l' a' c' k' r'" using plug_nonempty [of t ss] t by (cases "plug t ss") auto
  have ra: "root T = a'" using whole w by (simp add: at_pos_def)
  let ?T = "set_color (root T) BLACK T"
  have "at_pos ?T (recolor a' BLACK (plug t ss)) [] (root T) (nil T)" unfolding ra using whole w ra by (intro recolor_ok) auto
  moreover have "recolor a' BLACK (plug t ss) = root_black (plug t ss)"
    unfolding w by (rule root_black_recolor) (use at_pos_distinct [OF whole] w in simp)
  moreover have "invc (plug t ss)" by (rule plug_c) (use inv blk in \<open>auto simp: fix_inv_def\<close>)
  moreover have "invh (plug t ss)" by (rule plug_h) (use inv in \<open>auto simp: fix_inv_def\<close>)
  ultimately show ?thesis unfolding loop fixed_def using root_black_inv [of "plug t ss"]
    by (intro exI [of _ ?T] exI [of _ "root_black (plug t ss)"]) auto
qed

lemma fixup_step_ok:
  assumes pos: "at_pos T t (s1 # ss1) z p" and inv: "fix_inv t (s1 # ss1) z" and red: "step_color s1 = RED"
  shows "\<exists>T' z' t' ss' up'. insert_fixup_step T z = (T', z') \<and> at_pos T' t' ss' z' up' \<and> fix_inv t' ss' z' \<and>
    keys (plug t' ss') = keys (plug t (s1 # ss1)) \<and> addrs (plug t' ss') = addrs (plug t (s1 # ss1)) \<and>
    (length ss' < length ss1 \<or> step_color (hd ss') = BLACK)"
proof -
  obtain l kz r where t: "t = Nd l z RED kz r" using inv by (auto simp: fix_inv_def)
  obtain s2 rest where ss1: "ss1 = s2 # rest" and blk: "step_color s2 = BLACK"
    using inv red by (cases ss1) (auto simp: fix_inv_def)
  have i: "invc t" "invh t" "invc (sibling s1)" "black (sibling s1)" "invc (sibling s2)" "path_c rest" "invh (sibling s1)" "invh (sibling s2)"
    "bheight (sibling s1) = bheight t" "bheight (sibling s2) = bheight t" "path_h rest (bheight t + 1)"
    using inv red blk ss1 by (auto simp: fix_inv_def)
  show ?thesis
  proof (cases "black (sibling s2)")
    case False
    then obtain ul ua uk ur where u: "sibling s2 = Nd ul ua RED uk ur" by (cases "sibling s2") (auto, metis color.exhaust)
    define g where "g = step_addr s2"
    have pos': "at_pos T (Nd l z RED kz r) (s1 # s2 # rest) z p" using pos t ss1 by simp
    note step = step_uncle_red [OF pos' u, folded g_def]
    let ?t = "plug1 (plug1 t s1) s2"
    let ?t' = "recolor g RED (recolor ua BLACK (recolor p BLACK ?t))"
    have dist: "distinct (addrs ?t)" using at_pos_distinct [OF at_pos_up [OF at_pos_up [OF pos']]] t by simp
    have p: "p = step_addr s1" using at_pos_step(1) [OF pos] .
    have "(\<exists>l' k' r'. ?t' = Nd l' g RED k' r') \<and> invc ?t' \<and> invh ?t' \<and> bheight ?t' = bheight t + 1"
      using dist i u blk red t by (cases s1; cases s2) (auto simp: g_def p)
    then have "fix_inv ?t' rest g" using i by (simp add: fix_inv_def)
    moreover have "keys (plug ?t' rest) = keys (plug t (s1 # ss1))" "addrs (plug ?t' rest) = addrs (plug t (s1 # ss1))"
      using plug_same [of ?t' ?t rest] ss1 by simp_all
    ultimately show ?thesis using step t ss1 by fastforce
  next
    case True
    show ?thesis
    proof (cases s2)
      case (LStep g cg kg u)
      have pos': "at_pos T (Nd l z RED kz r) (s1 # LStep g cg kg u # rest) z p" using pos t ss1 LStep by simp
      obtain T' z' t' ss' where s: "insert_fixup_step T z = (T', z')" "at_pos T' t' (ss' # rest) z' (step_addr ss')"
        "case s1 of LStep _ c1 k1 r1 \<Rightarrow> t' = Nd l z RED kz r \<and> z' = z \<and> ss' = LStep p BLACK k1 (Nd r1 g RED kg u)
         | RStep l1 _ c1 k1 \<Rightarrow> t' = Nd l1 p c1 k1 l \<and> z' = p \<and> ss' = LStep z BLACK kz (Nd r g RED kg u)"
        using step_uncle_black_left [OF pos'] True LStep by auto
      have "fix_inv t' (ss' # rest) z' \<and> keys (plug1 t' ss') = keys (plug1 (plug1 t s1) s2) \<and>
        addrs (plug1 t' ss') = addrs (plug1 (plug1 t s1) s2) \<and> step_color ss' = BLACK"
        using s(3) i t red blk LStep True at_pos_step(1) [OF pos] by (cases s1) (auto simp: fix_inv_def)
      then show ?thesis using s(1,2) ss1 plug_same [of "plug1 t' ss'" "plug1 (plug1 t s1) s2" rest] by fastforce
    next
      case (RStep u g cg kg)
      have pos': "at_pos T (Nd l z RED kz r) (s1 # RStep u g cg kg # rest) z p" using pos t ss1 RStep by simp
      obtain T' z' t' ss' where s: "insert_fixup_step T z = (T', z')" "at_pos T' t' (ss' # rest) z' (step_addr ss')"
        "case s1 of RStep l1 _ c1 k1 \<Rightarrow> t' = Nd l z RED kz r \<and> z' = z \<and> ss' = RStep (Nd u g RED kg l1) p BLACK k1
         | LStep _ c1 k1 r1 \<Rightarrow> t' = Nd r p c1 k1 r1 \<and> z' = p \<and> ss' = RStep (Nd u g RED kg l) z BLACK kz"
        using step_uncle_black_right [OF pos'] True RStep by auto
      have "fix_inv t' (ss' # rest) z' \<and> keys (plug1 t' ss') = keys (plug1 (plug1 t s1) s2) \<and>
        addrs (plug1 t' ss') = addrs (plug1 (plug1 t s1) s2) \<and> step_color ss' = BLACK"
        using s(3) i t red blk RStep True at_pos_step(1) [OF pos] by (cases s1) (auto simp: fix_inv_def)
      then show ?thesis using s(1,2) ss1 plug_same [of "plug1 t' ss'" "plug1 (plug1 t s1) s2" rest] by fastforce
    qed
  qed
qed

lemma fixup_loop_ok:
  assumes "at_pos T t ss z up" "fix_inv t ss z"
  shows "fixed T t ss (insert_fixup_loop T z)"
  using assms
proof (induction "length ss" arbitrary: T t ss z up rule: less_induct)
  case less
  show ?case
  proof (cases "ss = [] \<or> step_color (hd ss) = BLACK")
    case True
    then show ?thesis using fixup_done less.prems by blast
  next
    case False
    then obtain s1 ss1 where ss: "ss = s1 # ss1" and red: "step_color s1 = RED"
      by (cases ss) (auto, metis color.exhaust)
    obtain T' z' t' ss' up' where s: "insert_fixup_step T z = (T', z')" "at_pos T' t' ss' z' up'" "fix_inv t' ss' z'"
      "keys (plug t' ss') = keys (plug t ss)" "addrs (plug t' ss') = addrs (plug t ss)" "length ss' < length ss1 \<or> step_color (hd ss') = BLACK"
      using fixup_step_ok less.prems red unfolding ss by blast
    have "fixed T' t' ss' (insert_fixup_loop T' z')"
      using s(6) less.hyps [OF _ s(2,3)] fixup_done [OF s(2,3)] ss by auto
    moreover have "nil T' = nil T" "key T' = key T" "val T' = val T" using fixup_step_same [of T z] s(1) by simp_all
    moreover obtain l k r where "t = Nd l z RED k r" using less.prems(2) by (auto simp: fix_inv_def)
    then have "parent T z = up" using at_pos_parent less.prems(1) by blast
    then have "color T (parent T z) = RED" using at_pos_step(2) less.prems(1) ss red by fastforce
    then have "insert_fixup_loop T z = insert_fixup_loop T' z'" using s(1) by (subst insert_fixup_loop.simps) simp
    ultimately show ?thesis using s(4,5) by (simp add: fixed_def)
  qed
qed

section \<open>Insertion\<close>

lemma plug_append: "plug t (ss @ ss') = plug (plug t ss) ss'"
  by (induction ss arbitrary: t) auto

lemma plug_inv_c: "invc (plug t ss) \<Longrightarrow> black (plug t ss) \<Longrightarrow>
  invc t \<and> path_c ss \<and> (if ss = [] then black t else step_color (hd ss) = RED \<longrightarrow> black t)"
proof (induction ss arbitrary: t)
  case (Cons s ss)
  then have IH: "invc (plug1 t s)" "path_c ss" "if ss = [] then black (plug1 t s) else step_color (hd ss) = RED \<longrightarrow> black (plug1 t s)"
    by auto
  have "invc t" "invc (sibling s)" "step_color s = RED \<longrightarrow> black t \<and> black (sibling s)" using IH(1) by (cases s; auto)+
  moreover have "step_color s = RED \<longrightarrow> ss \<noteq> [] \<and> step_color (hd ss) = BLACK"
    using IH(3) plug1_black [of t s] by (auto split: if_splits) (metis color.exhaust)
  ultimately show ?case using IH(2) by simp
qed simp

lemma plug_inv_h: "invh (plug t ss) \<Longrightarrow> invh t \<and> path_h ss (bheight t)"
proof (induction ss arbitrary: t)
  case (Cons s ss)
  then have IH: "invh (plug1 t s)" "path_h ss (bheight (plug1 t s))" by auto
  then show ?case by (cases s) auto
qed simp

lemma on_left_app [simp]: "on_left (s # ss @ ss') = on_left (s # ss)"
  by (cases s) auto

definition bst :: "rbt \<Rightarrow> bool" where
  "bst t \<longleftrightarrow> sorted_wrt (<) (keys t)"

lemma bst_Nd: "bst (Nd l a c k r) \<longleftrightarrow> bst l \<and> bst r \<and> (\<forall>x \<in> set (keys l). x < k) \<and> (\<forall>x \<in> set (keys r). k < x)"
  by (auto simp: bst_def sorted_wrt_append intro: less_trans)

text \<open>The search ends at the place of a new key, on the side the keys ask for, or finds the key.\<close>

definition new_leaf :: "'v rbtree \<Rightarrow> int \<Rightarrow> nat \<Rightarrow> rbt \<Rightarrow> step list \<Rightarrow> nat \<Rightarrow> step list \<Rightarrow> bool" where
  "new_leaf T k y t ss y' ss' \<longleftrightarrow>
     at_pos T Lf (ss' @ ss) (nil T) y' \<and> plug Lf ss' = t \<and>
     (if ss' = [] then y' = y else (k < key T y') = on_left ss') \<and>
     (\<forall>z c. set (keys (plug (Nd Lf z c k Lf) ss')) = insert k (set (keys t)) \<and> bst (plug (Nd Lf z c k Lf) ss'))"

lemma insert_search_ok:
  assumes "at_pos T t ss x y" "bst t"
  shows "if k \<in> set (keys t) then insert_search T k y x = Some None
    else \<exists>y' ss'. insert_search T k y x = Some (Some y') \<and> new_leaf T k y t ss y' ss'"
  using assms
proof (induction t arbitrary: ss x y)
  case Lf
  then have "x = nil T" by (simp add: at_pos_def)
  then have "insert_search T k y x = Some (Some y)" by (subst insert_search.simps) simp
  moreover have "new_leaf T k y Lf ss y []" using Lf \<open>x = nil T\<close> by (simp add: new_leaf_def bst_def)
  ultimately show ?case by auto
next
  case (Nd l a c ka r)
  have x: "x = a" "x \<noteq> nil T" "key T a = ka" using Nd.prems(1) by (auto simp: at_pos_def)
  note b = Nd.prems(2) [unfolded bst_Nd]
  show ?case
  proof (cases k ka rule: linorder_cases)
    case less
    then have step: "insert_search T k y x = insert_search T k a (left T a)" using x by (subst insert_search.simps) simp
    have pos: "at_pos T l (LStep a c ka r # ss) (left T a) a" using at_pos_left Nd.prems(1) x by blast
    have mem: "k \<in> set (keys (Nd l a c ka r)) \<longleftrightarrow> k \<in> set (keys l)" using less b by auto
    show ?thesis
    proof (cases "k \<in> set (keys l)")
      case True
      then show ?thesis using Nd.IH(1) [OF pos] b step mem by simp
    next
      case False
      then obtain y' ss' where s: "insert_search T k a (left T a) = Some (Some y')" "new_leaf T k a l (LStep a c ka r # ss) y' ss'"
        using Nd.IH(1) [OF pos] b by auto
      have "new_leaf T k y (Nd l a c ka r) ss y' (ss' @ [LStep a c ka r])"
        using s(2) less x b by (cases ss') (auto simp: new_leaf_def plug_append bst_Nd)
      then show ?thesis using s(1) step mem False by auto
    qed
  next
    case equal
    then have "insert_search T k y x = Some None" using x by (subst insert_search.simps) simp
    then show ?thesis using equal by simp
  next
    case greater
    then have step: "insert_search T k y x = insert_search T k a (right T a)" using x by (subst insert_search.simps) simp
    have pos: "at_pos T r (RStep l a c ka # ss) (right T a) a" using at_pos_right Nd.prems(1) x by blast
    have mem: "k \<in> set (keys (Nd l a c ka r)) \<longleftrightarrow> k \<in> set (keys r)" using greater b by auto
    show ?thesis
    proof (cases "k \<in> set (keys r)")
      case True
      then show ?thesis using Nd.IH(2) [OF pos] b step mem by simp
    next
      case False
      then obtain y' ss' where s: "insert_search T k a (right T a) = Some (Some y')" "new_leaf T k a r (RStep l a c ka # ss) y' ss'"
        using Nd.IH(2) [OF pos] b by auto
      have "new_leaf T k y (Nd l a c ka r) ss y' (ss' @ [RStep l a c ka])"
        using s(2) greater x b by (cases ss') (auto simp: new_leaf_def plug_append bst_Nd)
      then show ?thesis using s(1) step mem False by auto
    qed
  qed
qed

text \<open>The red-black tree in the store.\<close>

definition rb_rep :: "'v rbtree \<Rightarrow> rbt \<Rightarrow> bool" where
  "rb_rep T t \<longleftrightarrow> at_pos T t [] (root T) (nil T) \<and> bst t \<and> invc t \<and> invh t \<and> black t"

text \<open>Linking the new node.\<close>

definition link_node :: "'v rbtree \<Rightarrow> nat \<Rightarrow> nat \<Rightarrow> 'v rbtree" where
  "link_node T z y =
     (let T = set_parent z y T;
          T = (if y = nil T then T\<lparr>root := z\<rparr> else if key T z < key T y then set_left y z T else set_right y z T);
          T = set_left z (nil T) T;
          T = set_right z (nil T) T
      in set_color z RED T)"

lemma link_node_fields:
  "nil (link_node T z y) = nil T" "key (link_node T z y) = key T" "val (link_node T z y) = val T"
  "color (link_node T z y) = (color T)(z := RED)" "parent (link_node T z y) = (parent T)(z := y)"
  "root (link_node T z y) = (if y = nil T then z else root T)"
  "left (link_node T z y) = (if y \<noteq> nil T \<and> key T z < key T y then (left T)(y := z) else left T)(z := nil T)"
  "right (link_node T z y) = (if y \<noteq> nil T \<and> \<not> key T z < key T y then (right T)(y := z) else right T)(z := nil T)"
  by (simp_all add: link_node_def Let_def)

lemma path_up: "path_at T ss p up \<Longrightarrow> (ss = [] \<longleftrightarrow> up = nil T) \<and> (ss \<noteq> [] \<longrightarrow> up \<in> set (path_addrs ss))"
  by (cases "(T, ss, p, up)" rule: path_at.cases) auto

lemma link_node_ok:
  assumes pos: "at_pos T Lf ss (nil T) y" and z: "z \<noteq> nil T" "z \<notin> set (path_addrs ss)"
    and side: "ss \<noteq> [] \<Longrightarrow> (key T z < key T y) = on_left ss"
  shows "at_pos (link_node T z y) (Nd Lf z RED (key T z) Lf) ss z y"
proof -
  have p: "path_at T ss (nil T) y" "distinct (path_addrs ss)" "nil T \<notin> set (path_addrs ss)" "color T (nil T) = BLACK"
    using pos by (auto simp: at_pos_def)
  note up = path_up [OF p(1)]
  have "path_at (link_node T z y) ss z y"
    by (rule path_replace [OF p(1,2)]) (use up z(2) side in \<open>auto simp: link_node_fields\<close>)
  then show ?thesis using z p unfolding at_pos_def by (auto simp: link_node_fields)
qed

lemma insert_ok:
  assumes rep: "rb_rep T t" and z: "z \<noteq> nil T" "z \<notin> set (addrs t)"
  shows "if key T z \<in> set (keys t) then rbtree_insert T z = Ok T
    else returns (rbtree_insert T z) (\<lambda>T'. \<exists>t'. rb_rep T' t' \<and> set (keys t') = insert (key T z) (set (keys t)) \<and>
      set (addrs t') = insert z (set (addrs t)) \<and> nil T' = nil T \<and> key T' = key T \<and> val T' = val T)"
proof -
  let ?k = "key T z"
  have pos: "at_pos T t [] (root T) (nil T)" and b: "bst t" and c: "invc t" "invh t" "black t" using rep by (auto simp: rb_rep_def)
  show ?thesis
  proof (cases "?k \<in> set (keys t)")
    case True
    then show ?thesis using insert_search_ok [OF pos b, of ?k] by (simp add: rbtree_insert_def)
  next
    case False
    obtain y ss where s: "insert_search T ?k (nil T) (root T) = Some (Some y)" "new_leaf T ?k (nil T) t [] y ss"
      using insert_search_ok [OF pos b, of ?k] False by auto
    have leaf: "at_pos T Lf ss (nil T) y" "plug Lf ss = t" "ss \<noteq> [] \<Longrightarrow> (?k < key T y) = on_left ss"
      "\<And>c. set (keys (plug (Nd Lf z c ?k Lf) ss)) = insert ?k (set (keys t))" "\<And>c. bst (plug (Nd Lf z c ?k Lf) ss)"
      using s(2) by (auto simp: new_leaf_def)
    have "set (addrs (plug t1 ss)) = set (addrs t1) \<union> set (path_addrs ss)" for t1
    proof (induction ss arbitrary: t1)
      case (Cons s ss)
      then show ?case by (cases s) auto
    qed simp
    note sets = this
    have zp: "z \<notin> set (path_addrs ss)" using sets [of Lf] leaf(2) z(2) by simp
    let ?t = "Nd Lf z RED ?k Lf" and ?T = "link_node T z y"
    have at: "at_pos ?T ?t ss z y" by (rule link_node_ok [OF leaf(1) z(1) zp leaf(3)])
    have "path_c ss \<and> path_h ss 0" using plug_inv_c [of Lf ss] plug_inv_h [of Lf ss] c leaf(2) by simp
    then have "fix_inv ?t ss z" by (simp add: fix_inv_def)
    from fixup_loop_ok [OF at this] obtain T' t' where f: "insert_fixup_loop ?T z = Some T'" "at_pos T' t' [] (root T') (nil T')"
      "keys t' = keys (plug ?t ss)" "addrs t' = addrs (plug ?t ss)" "invc t'" "invh t'" "black t'"
      "nil T' = nil ?T" "key T' = key ?T" "val T' = val ?T" by (auto simp: fixed_def)
    have "rbtree_insert T z = rbtree_insert_fixup ?T z"
      using s(1) by (simp add: rbtree_insert_def link_node_def Let_def)
    then have "rbtree_insert T z = Ok T'" using f(1) by (simp add: rbtree_insert_fixup_def)
    moreover have "rb_rep T' t'" using f leaf(5) [of RED] by (simp add: rb_rep_def bst_def)
    moreover have "set (keys t') = insert ?k (set (keys t))" using f(3) leaf(4) by simp
    moreover have "set (addrs t') = insert z (set (addrs t))" using f(4) sets [of ?t] sets [of Lf] leaf(2) by auto
    ultimately show ?thesis using False f by (auto simp: link_node_fields)
  qed
qed

section \<open>Search\<close>

lemma search_loop_ok:
  assumes "tree_at T up x t" "bst t"
  shows "\<exists>a. search_loop T k x = Some a \<and> (if k \<in> set (keys t) then a \<in> set (addrs t) \<and> key T a = k else a = nil T)"
  using assms
proof (induction t arbitrary: up x)
  case Lf
  then show ?case by (subst search_loop.simps) simp
next
  case (Nd l a c ka r)
  have x: "x = a" "a \<noteq> nil T" "key T a = ka" "tree_at T a (left T a) l" "tree_at T a (right T a) r" using Nd.prems(1) by auto
  note b = Nd.prems(2) [unfolded bst_Nd]
  show ?case
  proof (cases k ka rule: linorder_cases)
    case less
    then have "search_loop T k x = search_loop T k (left T a)" using x by (subst search_loop.simps) simp
    moreover have "k \<in> set (keys (Nd l a c ka r)) \<longleftrightarrow> k \<in> set (keys l)" using less b by auto
    ultimately show ?thesis using Nd.IH(1) [OF x(4)] b by (cases "k \<in> set (keys l)") auto
  next
    case equal
    then show ?thesis using x by (subst search_loop.simps) simp
  next
    case greater
    then have "search_loop T k x = search_loop T k (right T a)" using x by (subst search_loop.simps) simp
    moreover have "k \<in> set (keys (Nd l a c ka r)) \<longleftrightarrow> k \<in> set (keys r)" using greater b by auto
    ultimately show ?thesis using Nd.IH(2) [OF x(5)] b by (cases "k \<in> set (keys r)") auto
  qed
qed

section \<open>Height\<close>

fun rb_height :: "rbt \<Rightarrow> nat" where
  "rb_height Lf = 0"
| "rb_height (Nd l a c k r) = Suc (max (rb_height l) (rb_height r))"

lemma height_bheight: "invc t \<Longrightarrow> invh t \<Longrightarrow> rb_height t \<le> 2 * bheight t + (if black t then 0 else 1)"
proof (induction t)
  case (Nd l a c k r)
  then show ?case by (cases c) (auto split: if_splits)
qed simp

lemma bheight_size: "invh t \<Longrightarrow> 2 ^ bheight t \<le> length (keys t) + 1"
proof (induction t)
  case (Nd l a c k r)
  then have "2 ^ bheight l \<le> length (keys l) + 1" "(2::nat) ^ bheight l \<le> length (keys r) + 1" by auto
  then show ?case by (cases c) auto
qed simp

end
