(* ===== verification/Rbtree_delete.thy ===== *)
theory Rbtree_delete
  imports Rbtree_insert
begin

text \<open>
  Deletion in the tree of \<open>src/linuxdemo/rbtree.c\<close>: the passes of the repair loop, which moves a
  missing black node up the tree or settles it by rotations, the loop as a whole, the node that
  leaves (the node itself or its successor, whose key and value move), and \<open>rbtree_delete\<close>.
\<close>

section \<open>Positions whose parent pointer is right even at the sentinel\<close>

definition del_pos :: "'v rbtree \<Rightarrow> rbt \<Rightarrow> step list \<Rightarrow> nat \<Rightarrow> nat \<Rightarrow> bool" where
  "del_pos T t ss x up \<longleftrightarrow> at_pos T t ss x up \<and> parent T x = up"

lemma del_pos_Nd: "del_pos T (Nd l a c k r) ss x up \<longleftrightarrow> at_pos T (Nd l a c k r) ss x up"
  by (auto simp: del_pos_def dest: at_pos_parent)

lemma del_posI:
  assumes "at_pos T t ss x up" "t = Lf \<Longrightarrow> parent T (nil T) = up"
  shows "del_pos T t ss x up"
  using assms by (cases t) (auto simp: del_pos_def at_pos_def)

lemma rotate_nil_parent:
  "at_pos T (Nd ta x cx kx (Nd tb y cy ky td)) ss x up \<Longrightarrow> parent (rbtree_left_rotate T x) (nil T) = parent T (nil T)"
  "at_pos T (Nd (Nd ta x cx kx tb) y cy ky td) ss y up \<Longrightarrow> parent (rbtree_right_rotate T y) (nil T) = parent T (nil T)"
  by (auto simp: at_pos_def rbtree_left_rotate_def rbtree_right_rotate_def Let_def)

lemma same_place:
  assumes "tree_at T up x t" "tree_at T' up' x' t" "nil T' = nil T"
  shows "x' = x"
  using assms by (cases t) auto

text \<open>
  The deficit that deletion repairs: the subtree is one black node short. A red root of the subtree may
  have a red child, because it is colored black next.
\<close>

lemma root_black_id [simp]: "black t \<Longrightarrow> root_black t = t"
  by (cases t) auto

definition del_inv :: "rbt \<Rightarrow> step list \<Rightarrow> bool" where
  "del_inv t ss \<longleftrightarrow> invc (root_black t) \<and> invh t \<and> path_c ss \<and> path_h ss (bheight t + 1)"

text \<open>A red sibling is rotated away: the new sibling is black and the node above is red.\<close>

lemma right_sibling_red:
  assumes pos: "del_pos T t (LStep p cp kp (Nd wl w RED kw wr) # ss) x p"
  shows "\<exists>T'. right_sibling T x = (T', right T' p) \<and> del_pos T' t (LStep p RED kp wl # LStep w BLACK kw wr # ss) x p"
proof -
  let ?T = "set_color p RED (set_color w BLACK T)"
  let ?T' = "rbtree_left_rotate ?T p"
  have at: "at_pos T t (LStep p cp kp (Nd wl w RED kw wr) # ss) x p" and px: "parent T x = p" using pos by (auto simp: del_pos_def)
  note up = at_pos_up [OF at, simplified]
  have d: "distinct (addrs (Nd t p cp kp (Nd wl w RED kw wr)))" by (rule at_pos_distinct [OF up])
  have "at_pos ?T (recolor p RED (recolor w BLACK (Nd t p cp kp (Nd wl w RED kw wr)))) ss p (parent T p)"
    using up by (intro recolor_ok) auto
  then have up': "at_pos ?T (Nd t p RED kp (Nd wl w BLACK kw wr)) ss p (parent T p)" using d by auto
  have w: "right T p = w" "color T w = RED" using at by (auto simp: at_pos_def)
  from at_pos_left [OF left_rotate_ok [OF up']]
  have at1: "at_pos ?T' (Nd t p RED kp wl) (LStep w BLACK kw wr # ss) p w" by (auto simp: at_pos_def)
  from at_pos_left [OF this] have at2: "at_pos ?T' t (LStep p RED kp wl # LStep w BLACK kw wr # ss) (left ?T' p) p" .
  have "left ?T' p = x" using same_place [of T p x t ?T' p "left ?T' p"] at at2 by (simp add: at_pos_def)
  then have "at_pos ?T' t (LStep p RED kp wl # LStep w BLACK kw wr # ss) x p" using at2 by simp
  moreover have "parent ?T' (nil T) = parent T (nil T)" using rotate_nil_parent(1) [OF up'] by simp
  ultimately have new: "del_pos ?T' t (LStep p RED kp wl # LStep w BLACK kw wr # ss) x p"
    using at px by (intro del_posI) (auto simp: at_pos_def)
  then have "parent ?T' x = p" by (simp add: del_pos_def)
  then have "right_sibling T x = (?T', right ?T' p)" using w px by (simp add: right_sibling_def Let_def)
  then show ?thesis using new by blast
qed

lemma left_sibling_red:
  assumes pos: "del_pos T t (RStep (Nd wl w RED kw wr) p cp kp # ss) x p"
  shows "\<exists>T'. left_sibling T x = (T', left T' p) \<and> del_pos T' t (RStep wr p RED kp # RStep wl w BLACK kw # ss) x p"
proof -
  let ?T = "set_color p RED (set_color w BLACK T)"
  let ?T' = "rbtree_right_rotate ?T p"
  have at: "at_pos T t (RStep (Nd wl w RED kw wr) p cp kp # ss) x p" and px: "parent T x = p" using pos by (auto simp: del_pos_def)
  note up = at_pos_up [OF at, simplified]
  have d: "distinct (addrs (Nd (Nd wl w RED kw wr) p cp kp t))" by (rule at_pos_distinct [OF up])
  have "at_pos ?T (recolor p RED (recolor w BLACK (Nd (Nd wl w RED kw wr) p cp kp t))) ss p (parent T p)"
    using up by (intro recolor_ok) auto
  then have up': "at_pos ?T (Nd (Nd wl w BLACK kw wr) p RED kp t) ss p (parent T p)" using d by auto
  have w: "left T p = w" "color T w = RED" using at by (auto simp: at_pos_def)
  from at_pos_right [OF right_rotate_ok [OF up']]
  have at1: "at_pos ?T' (Nd wr p RED kp t) (RStep wl w BLACK kw # ss) p w" by (auto simp: at_pos_def)
  from at_pos_right [OF this] have at2: "at_pos ?T' t (RStep wr p RED kp # RStep wl w BLACK kw # ss) (right ?T' p) p" .
  have "right ?T' p = x" using same_place [of T p x t ?T' p "right ?T' p"] at at2 by (simp add: at_pos_def)
  then have "at_pos ?T' t (RStep wr p RED kp # RStep wl w BLACK kw # ss) x p" using at2 by simp
  moreover have "parent ?T' (nil T) = parent T (nil T)" using rotate_nil_parent(2) [OF up'] by simp
  ultimately have new: "del_pos ?T' t (RStep wr p RED kp # RStep wl w BLACK kw # ss) x p"
    using at px by (intro del_posI) (auto simp: at_pos_def)
  then have "parent ?T' x = p" by (simp add: del_pos_def)
  then have "left_sibling T x = (?T', left ?T' p)" using w px by (simp add: left_sibling_def Let_def)
  then show ?thesis using new by blast
qed

lemma color_black: "tree_at T up a t \<Longrightarrow> color T (nil T) = BLACK \<Longrightarrow> color T a = BLACK \<longleftrightarrow> black t"
  by (cases t) auto

lemma not_black: "\<not> black t \<Longrightarrow> \<exists>l a k r. t = Nd l a RED k r"
  by (cases t) (auto, metis color.exhaust)

text \<open>The last rotation: the sibling takes the place and the color of the node above.\<close>

lemma delete_last_left:
  assumes at: "at_pos T t (LStep p cp kp (Nd wl w cw kw (Nd a v cv kv b)) # ss) x p"
  defines "T' \<equiv> rbtree_left_rotate (set_color v BLACK (set_color p BLACK (set_color w cp T))) p"
  shows "at_pos T' (Nd (Nd t p BLACK kp wl) w cp kw (Nd a v BLACK kv b)) ss w (parent T p)"
proof -
  let ?t = "Nd t p cp kp (Nd wl w cw kw (Nd a v cv kv b))" and ?T = "set_color v BLACK (set_color p BLACK (set_color w cp T))"
  note up = at_pos_up [OF at, simplified]
  have d: "distinct (addrs ?t)" by (rule at_pos_distinct [OF up])
  have "at_pos ?T (recolor v BLACK (recolor p BLACK (recolor w cp ?t))) ss p (parent T p)"
    using up by (intro recolor_ok) auto
  then have "at_pos ?T (Nd t p BLACK kp (Nd wl w cp kw (Nd a v BLACK kv b))) ss p (parent T p)" using d by auto
  from left_rotate_ok [OF this] show ?thesis by (simp add: T'_def)
qed

lemma delete_last_right:
  assumes at: "at_pos T t (RStep (Nd (Nd a v cv kv b) w cw kw wr) p cp kp # ss) x p"
  defines "T' \<equiv> rbtree_right_rotate (set_color v BLACK (set_color p BLACK (set_color w cp T))) p"
  shows "at_pos T' (Nd (Nd a v BLACK kv b) w cp kw (Nd wr p BLACK kp t)) ss w (parent T p)"
proof -
  let ?t = "Nd (Nd (Nd a v cv kv b) w cw kw wr) p cp kp t" and ?T = "set_color v BLACK (set_color p BLACK (set_color w cp T))"
  note up = at_pos_up [OF at, simplified]
  have d: "distinct (addrs ?t)" by (rule at_pos_distinct [OF up])
  have "at_pos ?T (recolor v BLACK (recolor p BLACK (recolor w cp ?t))) ss p (parent T p)"
    using up by (intro recolor_ok) auto
  then have "at_pos ?T (Nd (Nd (Nd a v BLACK kv b) w cp kw wr) p BLACK kp t) ss p (parent T p)" using d by auto
  from right_rotate_ok [OF this] show ?thesis by (simp add: T'_def)
qed

text \<open>The rotation at the sibling that brings its red child to the outside.\<close>

lemma sibling_rotate_right:
  assumes pos: "del_pos T t (LStep p cp kp (Nd (Nd a v cv kv b) w cw kw wr) # ss) x p"
  defines "T' \<equiv> rbtree_right_rotate (set_color w RED (set_color v BLACK T)) w"
  shows "del_pos T' t (LStep p cp kp (Nd a v BLACK kv (Nd b w RED kw wr)) # ss) x p"
proof -
  let ?t = "Nd (Nd a v cv kv b) w cw kw wr" and ?T = "set_color w RED (set_color v BLACK T)"
  have at: "at_pos T t (LStep p cp kp ?t # ss) x p" and px: "parent T x = p" using pos by (auto simp: del_pos_def)
  have sib: "at_pos T ?t (RStep t p cp kp # ss) w p"
    using at_pos_right [OF at_pos_up [OF at, simplified]] by (auto simp: at_pos_def)
  have d: "distinct (addrs ?t)" by (rule at_pos_distinct [OF sib])
  have "at_pos ?T (recolor w RED (recolor v BLACK ?t)) (RStep t p cp kp # ss) w p" using sib by (intro recolor_ok) auto
  then have s1: "at_pos ?T (Nd (Nd a v BLACK kv b) w RED kw wr) (RStep t p cp kp # ss) w p" using d by auto
  from at_pos_up [OF right_rotate_ok [OF this]]
  have "at_pos T' (Nd t p cp kp (Nd a v BLACK kv (Nd b w RED kw wr))) ss p (parent T' p)" by (simp add: T'_def)
  from at_pos_left [OF this] have at2: "at_pos T' t (LStep p cp kp (Nd a v BLACK kv (Nd b w RED kw wr)) # ss) (left T' p) p" .
  have nil: "nil T' = nil T" by (simp add: T'_def)
  have "left T' p = x" using same_place [of T p x t T' p "left T' p"] at at2 nil by (simp add: at_pos_def)
  moreover have "parent T' (nil T) = parent T (nil T)" using rotate_nil_parent(2) [OF s1] by (simp add: T'_def)
  ultimately show ?thesis using at at2 px nil by (intro del_posI) (auto simp: at_pos_def)
qed

lemma sibling_rotate_left:
  assumes pos: "del_pos T t (RStep (Nd wl w cw kw (Nd a v cv kv b)) p cp kp # ss) x p"
  defines "T' \<equiv> rbtree_left_rotate (set_color w RED (set_color v BLACK T)) w"
  shows "del_pos T' t (RStep (Nd (Nd wl w RED kw a) v BLACK kv b) p cp kp # ss) x p"
proof -
  let ?t = "Nd wl w cw kw (Nd a v cv kv b)" and ?T = "set_color w RED (set_color v BLACK T)"
  have at: "at_pos T t (RStep ?t p cp kp # ss) x p" and px: "parent T x = p" using pos by (auto simp: del_pos_def)
  have sib: "at_pos T ?t (LStep p cp kp t # ss) w p"
    using at_pos_left [OF at_pos_up [OF at, simplified]] by (auto simp: at_pos_def)
  have d: "distinct (addrs ?t)" by (rule at_pos_distinct [OF sib])
  have "at_pos ?T (recolor w RED (recolor v BLACK ?t)) (LStep p cp kp t # ss) w p" using sib by (intro recolor_ok) auto
  then have s1: "at_pos ?T (Nd wl w RED kw (Nd a v BLACK kv b)) (LStep p cp kp t # ss) w p" using d by auto
  from at_pos_up [OF left_rotate_ok [OF this]]
  have "at_pos T' (Nd (Nd (Nd wl w RED kw a) v BLACK kv b) p cp kp t) ss p (parent T' p)" by (simp add: T'_def)
  from at_pos_right [OF this] have at2: "at_pos T' t (RStep (Nd (Nd wl w RED kw a) v BLACK kv b) p cp kp # ss) (right T' p) p" .
  have nil: "nil T' = nil T" by (simp add: T'_def)
  have "right T' p = x" using same_place [of T p x t T' p "right T' p"] at at2 nil by (simp add: at_pos_def)
  moreover have "parent T' (nil T) = parent T (nil T)" using rotate_nil_parent(1) [OF s1] by (simp add: T'_def)
  ultimately show ?thesis using at at2 px nil by (intro del_posI) (auto simp: at_pos_def)
qed

text \<open>The colors and the pointers that the code reads.\<close>

lemma right_sibling_reads:
  assumes "del_pos T t (LStep p cp kp (Nd wl w cw kw wr) # ss) x p"
  shows "right T p = w" "left T p = x" "parent T x = p" "color T w = cw" "color T p = cp" "w \<noteq> p"
    "color T (left T w) = BLACK \<longleftrightarrow> black wl" "color T (right T w) = BLACK \<longleftrightarrow> black wr"
    "tree_at T w (left T w) wl" "tree_at T w (right T w) wr"
proof -
  have at: "at_pos T t (LStep p cp kp (Nd wl w cw kw wr) # ss) x p" and "parent T x = p" using assms by (auto simp: del_pos_def)
  then show "right T p = w" "left T p = x" "parent T x = p" "color T w = cw" "color T p = cp" "w \<noteq> p" by (auto simp: at_pos_def)
  show t: "tree_at T w (left T w) wl" "tree_at T w (right T w) wr" using at by (auto simp: at_pos_def)
  have "color T (nil T) = BLACK" using at by (simp add: at_pos_def)
  then show "color T (left T w) = BLACK \<longleftrightarrow> black wl" "color T (right T w) = BLACK \<longleftrightarrow> black wr" using t color_black by blast+
qed

lemma left_sibling_reads:
  assumes "del_pos T t (RStep (Nd wl w cw kw wr) p cp kp # ss) x p"
  shows "left T p = w" "right T p = x" "parent T x = p" "color T w = cw" "color T p = cp" "w \<noteq> p" "x \<noteq> w"
    "color T (left T w) = BLACK \<longleftrightarrow> black wl" "color T (right T w) = BLACK \<longleftrightarrow> black wr"
    "tree_at T w (left T w) wl" "tree_at T w (right T w) wr"
proof -
  have at: "at_pos T t (RStep (Nd wl w cw kw wr) p cp kp # ss) x p" and "parent T x = p" using assms by (auto simp: del_pos_def)
  then show "left T p = w" "right T p = x" "parent T x = p" "color T w = cw" "color T p = cp" "w \<noteq> p" by (auto simp: at_pos_def)
  show "x \<noteq> w" using at by (cases t) (auto simp: at_pos_def)
  show t: "tree_at T w (left T w) wl" "tree_at T w (right T w) wr" using at by (auto simp: at_pos_def)
  have "color T (nil T) = BLACK" using at by (simp add: at_pos_def)
  then show "color T (left T w) = BLACK \<longleftrightarrow> black wl" "color T (right T w) = BLACK \<longleftrightarrow> black wr" using t color_black by blast+
qed

text \<open>
  The outcome of a pass: the same keys and nodes, and either the whole tree is in order and \<open>x\<close> is at
  the root, or the deficit is at a smaller position.
\<close>

definition deficit_size :: "rbt \<Rightarrow> step list \<Rightarrow> nat" where
  "deficit_size t ss = 2 * length ss + (if black t then 1 else 0)"

definition settled :: "'v rbtree \<Rightarrow> rbt \<Rightarrow> step list \<Rightarrow> 'v rbtree \<times> nat \<Rightarrow> bool" where
  "settled T t ss res \<longleftrightarrow> (\<exists>T' t'. res = (T', root T') \<and> t' \<noteq> Lf \<and> at_pos T' t' [] (root T') (nil T') \<and> invc t' \<and> invh t' \<and>
     keys t' = keys (plug t ss) \<and> addrs t' = addrs (plug t ss))"

definition moved_up :: "'v rbtree \<Rightarrow> rbt \<Rightarrow> step list \<Rightarrow> 'v rbtree \<times> nat \<Rightarrow> bool" where
  "moved_up T t ss res \<longleftrightarrow> (\<exists>T' x' t' ss' up'. res = (T', x') \<and> del_pos T' t' ss' x' up' \<and> del_inv t' ss' \<and>
     deficit_size t' ss' < deficit_size t ss \<and> keys (plug t' ss') = keys (plug t ss) \<and> addrs (plug t' ss') = addrs (plug t ss))"

lemma settledI:
  assumes "at_pos T' t' ss' y up" "t' \<noteq> Lf" "invc t'" "path_c ss'" "ss' \<noteq> [] \<and> step_color (hd ss') = RED \<Longrightarrow> black t'"
    "invh t'" "path_h ss' (bheight t')" "keys (plug t' ss') = keys (plug t ss)" "addrs (plug t' ss') = addrs (plug t ss)"
  shows "settled T t ss (T', root T')"
proof -
  have "at_pos T' (plug t' ss') [] (root T') (nil T')" by (rule at_pos_plug [OF assms(1)])
  moreover have "invc (plug t' ss')" by (rule plug_c) (use assms in auto)
  moreover have "invh (plug t' ss')" by (rule plug_h) (use assms in auto)
  moreover have "plug t' ss' \<noteq> Lf" by (rule plug_nonempty [OF assms(2)])
  ultimately show ?thesis unfolding settled_def using assms(8,9) by blast
qed

lemma settled_cong:
  "settled T t ss res \<Longrightarrow> keys (plug t ss) = keys (plug t' ss') \<Longrightarrow> addrs (plug t ss) = addrs (plug t' ss') \<Longrightarrow> settled T' t' ss' res"
  by (simp add: settled_def)

lemma fix_right_black:
  assumes pos: "del_pos T t (LStep p cp kp (Nd wl w BLACK kw wr) # ss) x p"
    and inv: "del_inv t (LStep p cp kp (Nd wl w BLACK kw wr) # ss)" and bt: "black t"
  defines "path \<equiv> LStep p cp kp (Nd wl w BLACK kw wr) # ss"
  shows "if black wl \<and> black wr
    then \<exists>T'. fix_right_sibling T x w = (T', p) \<and> del_pos T' (Nd t p cp kp (Nd wl w RED kw wr)) ss p (parent T p)
    else settled T t path (fix_right_sibling T x w)"
proof (cases "black wl \<and> black wr")
  case True
  note r = right_sibling_reads [OF pos]
  have up: "at_pos T (Nd t p cp kp (Nd wl w BLACK kw wr)) ss p (parent T p)" using pos at_pos_up by (fastforce simp: del_pos_def)
  have d: "distinct (addrs (Nd t p cp kp (Nd wl w BLACK kw wr)))" by (rule at_pos_distinct [OF up])
  have "at_pos (set_color w RED T) (recolor w RED (Nd t p cp kp (Nd wl w BLACK kw wr))) ss p (parent T p)"
    using up by (intro recolor_ok) auto
  then have "at_pos (set_color w RED T) (Nd t p cp kp (Nd wl w RED kw wr)) ss p (parent T p)" using d by auto
  moreover have "fix_right_sibling T x w = (set_color w RED T, p)" using r True by (simp add: fix_right_sibling_def)
  ultimately show ?thesis using True by (simp add: del_pos_Nd)
next
  case False
  note r = right_sibling_reads [OF pos]
  have i: "invc t" "invh t" "invc wl" "invc wr" "invh wl" "invh wr" "bheight wl = bheight t" "bheight wr = bheight t" "path_c ss"
    "path_h ss (bheight t + (if cp = BLACK then 2 else 1))" "cp = RED \<longrightarrow> ss \<noteq> [] \<and> step_color (hd ss) = BLACK"
    using inv bt by (auto simp: del_inv_def split: if_splits)
  have "settled T t path (fix_right_sibling T x w)"
  proof (cases "black wr")
    case True
    then obtain a v kv b where wl: "wl = Nd a v RED kv b" using False not_black by blast
    let ?T1 = "rbtree_right_rotate (set_color w RED (set_color v BLACK T)) w"
    have pos1: "del_pos ?T1 t (LStep p cp kp (Nd a v BLACK kv (Nd b w RED kw wr)) # ss) x p"
      using sibling_rotate_right pos wl by blast
    note r1 = right_sibling_reads [OF pos1]
    let ?T2 = "rbtree_left_rotate (set_color w BLACK (set_color p BLACK (set_color v cp ?T1))) p"
    have "right ?T1 v = w" using r1(10) by simp
    then have eq: "fix_right_sibling T x w = (?T2, root ?T2)"
      using r r1 True wl by (simp add: fix_right_sibling_def Let_def)
    have at2: "at_pos ?T2 (Nd (Nd t p BLACK kp a) v cp kv (Nd b w BLACK kw wr)) ss v (parent ?T1 p)"
      using delete_last_left pos1 by (fastforce simp: del_pos_def)
    show ?thesis unfolding eq by (rule settledI [OF at2]) (use i True wl in \<open>cases cp; auto simp: path_def intro!: plug_same\<close>)+
  next
    case False
    then obtain a v kv b where wr: "wr = Nd a v RED kv b" using not_black by blast
    let ?T2 = "rbtree_left_rotate (set_color v BLACK (set_color p BLACK (set_color w cp T))) p"
    have "right T w = v" using r(10) wr by simp
    then have eq: "fix_right_sibling T x w = (?T2, root ?T2)"
      using r False wr by (simp add: fix_right_sibling_def Let_def)
    have at2: "at_pos ?T2 (Nd (Nd t p BLACK kp wl) w cp kw (Nd a v BLACK kv b)) ss w (parent T p)"
      using delete_last_left pos wr by (fastforce simp: del_pos_def)
    show ?thesis unfolding eq by (rule settledI [OF at2]) (use i wr in \<open>cases cp; auto simp: path_def intro!: plug_same\<close>)+
  qed
  then show ?thesis by (simp only: if_not_P [OF False])
qed

lemma fix_left_black:
  assumes pos: "del_pos T t (RStep (Nd wl w BLACK kw wr) p cp kp # ss) x p"
    and inv: "del_inv t (RStep (Nd wl w BLACK kw wr) p cp kp # ss)" and bt: "black t"
  defines "path \<equiv> RStep (Nd wl w BLACK kw wr) p cp kp # ss"
  shows "if black wl \<and> black wr
    then \<exists>T'. fix_left_sibling T x w = (T', p) \<and> del_pos T' (Nd (Nd wl w RED kw wr) p cp kp t) ss p (parent T p)
    else settled T t path (fix_left_sibling T x w)"
proof (cases "black wl \<and> black wr")
  case True
  note r = left_sibling_reads [OF pos]
  have up: "at_pos T (Nd (Nd wl w BLACK kw wr) p cp kp t) ss p (parent T p)" using pos at_pos_up by (fastforce simp: del_pos_def)
  have d: "distinct (addrs (Nd (Nd wl w BLACK kw wr) p cp kp t))" by (rule at_pos_distinct [OF up])
  have "at_pos (set_color w RED T) (recolor w RED (Nd (Nd wl w BLACK kw wr) p cp kp t)) ss p (parent T p)"
    using up by (intro recolor_ok) auto
  then have "at_pos (set_color w RED T) (Nd (Nd wl w RED kw wr) p cp kp t) ss p (parent T p)" using d by auto
  moreover have "fix_left_sibling T x w = (set_color w RED T, p)" using r True by (simp add: fix_left_sibling_def)
  ultimately show ?thesis using True by (simp add: del_pos_Nd)
next
  case False
  note r = left_sibling_reads [OF pos]
  have i: "invc t" "invh t" "invc wl" "invc wr" "invh wl" "invh wr" "bheight wl = bheight t" "bheight wr = bheight t" "path_c ss"
    "path_h ss (bheight t + (if cp = BLACK then 2 else 1))" "cp = RED \<longrightarrow> ss \<noteq> [] \<and> step_color (hd ss) = BLACK"
    using inv bt by (auto simp: del_inv_def split: if_splits)
  have "settled T t path (fix_left_sibling T x w)"
  proof (cases "black wl")
    case True
    then obtain a v kv b where wr: "wr = Nd a v RED kv b" using False not_black by blast
    let ?T1 = "rbtree_left_rotate (set_color w RED (set_color v BLACK T)) w"
    have pos1: "del_pos ?T1 t (RStep (Nd (Nd wl w RED kw a) v BLACK kv b) p cp kp # ss) x p"
      using sibling_rotate_left pos wr by blast
    note r1 = left_sibling_reads [OF pos1]
    let ?T2 = "rbtree_right_rotate (set_color w BLACK (set_color p BLACK (set_color v cp ?T1))) p"
    have "left ?T1 v = w" using r1(10) by simp
    then have eq: "fix_left_sibling T x w = (?T2, root ?T2)"
      using r r1 True wr by (simp add: fix_left_sibling_def Let_def)
    have at2: "at_pos ?T2 (Nd (Nd wl w BLACK kw a) v cp kv (Nd b p BLACK kp t)) ss v (parent ?T1 p)"
      using delete_last_right pos1 by (fastforce simp: del_pos_def)
    show ?thesis unfolding eq by (rule settledI [OF at2]) (use i True wr in \<open>cases cp; auto simp: path_def intro!: plug_same\<close>)+
  next
    case False
    then obtain a v kv b where wl: "wl = Nd a v RED kv b" using not_black by blast
    let ?T2 = "rbtree_right_rotate (set_color v BLACK (set_color p BLACK (set_color w cp T))) p"
    have "left T w = v" using r(10) wl by simp
    then have eq: "fix_left_sibling T x w = (?T2, root ?T2)"
      using r False wl by (simp add: fix_left_sibling_def Let_def)
    have at2: "at_pos ?T2 (Nd (Nd a v BLACK kv b) w cp kw (Nd wr p BLACK kp t)) ss w (parent T p)"
      using delete_last_right pos wl by (fastforce simp: del_pos_def)
    show ?thesis unfolding eq by (rule settledI [OF at2]) (use i wl in \<open>cases cp; auto simp: path_def intro!: plug_same\<close>)+
  qed
  then show ?thesis by (simp only: if_not_P [OF False])
qed

text \<open>The sibling of a deficit is a node.\<close>

lemma deficit_sibling:
  assumes "del_inv t (s # ss)"
  obtains wl w cw kw wr where "sibling s = Nd wl w cw kw wr"
  using assms by (cases "sibling s") (auto simp: del_inv_def)

lemma deficit_red:
  assumes "del_inv t (LStep p cp kp (Nd wl w RED kw wr) # ss) \<or> del_inv t (RStep (Nd wl w RED kw wr) p cp kp # ss)"
  obtains al a ak ar bl b bk br where "cp = BLACK" "wl = Nd al a BLACK ak ar" "wr = Nd bl b BLACK bk br"
proof -
  have w: "cp = BLACK" "black wl" "black wr" "bheight wl > 0" "bheight wr > 0"
    using assms by (cases cp; auto simp: del_inv_def)+
  obtain al a ak ar bl b bk br where "wl = Nd al a BLACK ak ar" "wr = Nd bl b BLACK bk br" using w by (cases wl; cases wr) auto
  then show thesis using that w(1) by blast
qed

text \<open>Coloring the sibling red moves the deficit to the node above.\<close>

lemma deficit_up:
  "del_inv t (LStep p cp kp (Nd wl w BLACK kw wr) # ss) \<Longrightarrow> black t \<Longrightarrow> black wl \<Longrightarrow> black wr \<Longrightarrow>
     del_inv (Nd t p cp kp (Nd wl w RED kw wr)) ss"
  "del_inv t (RStep (Nd wl w BLACK kw wr) p cp kp # ss) \<Longrightarrow> black t \<Longrightarrow> black wl \<Longrightarrow> black wr \<Longrightarrow>
     del_inv (Nd (Nd wl w RED kw wr) p cp kp t) ss"
  by (auto simp: del_inv_def)

text \<open>The deficit after a red sibling is rotated away.\<close>

lemma deficit_rotate:
  "del_inv t (LStep p BLACK kp (Nd wl w RED kw wr) # ss) \<Longrightarrow> del_inv t (LStep p RED kp wl # LStep w BLACK kw wr # ss)"
  "del_inv t (RStep (Nd wl w RED kw wr) p BLACK kp # ss) \<Longrightarrow> del_inv t (RStep wr p RED kp # RStep wl w BLACK kw # ss)"
  by (auto simp: del_inv_def)

lemma step_left_black:
  assumes pos: "del_pos T t (LStep p cp kp (Nd wl w BLACK kw wr) # ss) x p" and inv: "del_inv t (LStep p cp kp (Nd wl w BLACK kw wr) # ss)" and bt: "black t"
  shows "settled T t (LStep p cp kp (Nd wl w BLACK kw wr) # ss) (fix_right_sibling T x w) \<or> moved_up T t (LStep p cp kp (Nd wl w BLACK kw wr) # ss) (fix_right_sibling T x w)"
proof -
  show ?thesis
  proof (cases "black wl \<and> black wr")
    case True
    then obtain T' where f: "fix_right_sibling T x w = (T', p)" "del_pos T' (Nd t p cp kp (Nd wl w RED kw wr)) ss p (parent T p)"
      using fix_right_black [OF pos inv bt] by auto
    moreover have "keys (plug (Nd t p cp kp (Nd wl w RED kw wr)) ss) = keys (plug t (LStep p cp kp (Nd wl w BLACK kw wr) # ss))"
      "addrs (plug (Nd t p cp kp (Nd wl w RED kw wr)) ss) = addrs (plug t (LStep p cp kp (Nd wl w BLACK kw wr) # ss))"
      by (simp_all add: plug_same [of "Nd t p cp kp (Nd wl w RED kw wr)" "Nd t p cp kp (Nd wl w BLACK kw wr)"])
    moreover have "del_inv (Nd t p cp kp (Nd wl w RED kw wr)) ss" using deficit_up(1) [OF inv bt] True by blast
    moreover have "deficit_size (Nd t p cp kp (Nd wl w RED kw wr)) ss < deficit_size t (LStep p cp kp (Nd wl w BLACK kw wr) # ss)" by (simp add: deficit_size_def)
    ultimately show ?thesis unfolding moved_up_def by blast
  next
    case False
    then show ?thesis using fix_right_black [OF pos inv bt] by simp
  qed
qed

lemma step_left_red:
  assumes pos: "del_pos T t (LStep p cp kp (Nd wl w RED kw wr) # ss) x p" and inv: "del_inv t (LStep p cp kp (Nd wl w RED kw wr) # ss)" and bt: "black t"
  defines "res \<equiv> (case right_sibling T x of (T, w) \<Rightarrow> fix_right_sibling T x w)"
  shows "settled T t (LStep p cp kp (Nd wl w RED kw wr) # ss) res \<or> moved_up T t (LStep p cp kp (Nd wl w RED kw wr) # ss) res"
proof -
  obtain al a ak ar where cp: "cp = BLACK" and wl: "wl = Nd al a BLACK ak ar" using deficit_red inv by metis
  obtain T1 where T1: "right_sibling T x = (T1, right T1 p)"
    and pos1: "del_pos T1 t (LStep p RED kp (Nd al a BLACK ak ar) # LStep w BLACK kw wr # ss) x p"
    using right_sibling_red [OF pos] wl by auto
  have inv1: "del_inv t (LStep p RED kp (Nd al a BLACK ak ar) # LStep w BLACK kw wr # ss)"
    using deficit_rotate(1) inv unfolding wl cp by blast
  have eq: "(case right_sibling T x of (T, w) \<Rightarrow> fix_right_sibling T x w) = fix_right_sibling T1 x a" using T1 right_sibling_reads(1) [OF pos1] by simp
  let ?path1 = "LStep p RED kp (Nd al a BLACK ak ar) # LStep w BLACK kw wr # ss"
  have same: "keys (plug t ?path1) = keys (plug t (LStep p cp kp (Nd wl w RED kw wr) # ss))" "addrs (plug t ?path1) = addrs (plug t (LStep p cp kp (Nd wl w RED kw wr) # ss))"
    using wl by (auto intro!: plug_same)
  show ?thesis
  proof (cases "black al \<and> black ar")
    case True
    let ?t' = "Nd t p RED kp (Nd al a RED ak ar)" and ?ss' = "LStep w BLACK kw wr # ss"
    obtain T' where f: "fix_right_sibling T1 x a = (T', p)" "del_pos T' ?t' ?ss' p (parent T1 p)"
      using fix_right_black [OF pos1 inv1 bt] True by auto
    moreover have "keys (plug ?t' ?ss') = keys (plug t ?path1)" "addrs (plug ?t' ?ss') = addrs (plug t ?path1)"
      by (simp_all add: plug_same [of "Nd (Nd t p RED kp (Nd al a RED ak ar)) w BLACK kw wr" "Nd (Nd t p RED kp (Nd al a BLACK ak ar)) w BLACK kw wr"])
    moreover have "del_inv ?t' ?ss'" using deficit_up(1) [OF inv1 bt] True by blast
    moreover have "deficit_size ?t' ?ss' < deficit_size t (LStep p cp kp (Nd wl w RED kw wr) # ss)" using bt by (simp add: deficit_size_def)
    ultimately show ?thesis unfolding res_def eq moved_up_def using same by metis
  next
    case False
    then have "settled T1 t ?path1 (fix_right_sibling T1 x a)" using fix_right_black [OF pos1 inv1 bt] by simp
    then show ?thesis unfolding res_def eq using settled_cong same by blast
  qed
qed

lemma step_left_ok:
  assumes pos: "del_pos T t (LStep p cp kp wt # ss) x p" and inv: "del_inv t (LStep p cp kp wt # ss)" and bt: "black t"
  shows "settled T t (LStep p cp kp wt # ss) (delete_fixup_step T x) \<or> moved_up T t (LStep p cp kp wt # ss) (delete_fixup_step T x)"
proof -
  obtain wl w cw kw wr where wt: "wt = Nd wl w cw kw wr" using deficit_sibling [OF inv] by (metis sibling.simps(1))
  note r = right_sibling_reads [OF pos [unfolded wt]]
  have step: "delete_fixup_step T x = (case right_sibling T x of (T, w) \<Rightarrow> fix_right_sibling T x w)"
    using r by (simp add: delete_fixup_step_def)
  show ?thesis
  proof (cases cw)
    case BLACK
    then have "delete_fixup_step T x = fix_right_sibling T x w" using step r by (simp add: right_sibling_def)
    then show ?thesis using step_left_black [OF pos [unfolded wt BLACK] inv [unfolded wt BLACK] bt] wt BLACK by simp
  next
    case RED
    then show ?thesis using step_left_red [OF pos [unfolded wt RED] inv [unfolded wt RED] bt] wt step by simp
  qed
qed

lemma step_right_black:
  assumes pos: "del_pos T t (RStep (Nd wl w BLACK kw wr) p cp kp # ss) x p" and inv: "del_inv t (RStep (Nd wl w BLACK kw wr) p cp kp # ss)" and bt: "black t"
  shows "settled T t (RStep (Nd wl w BLACK kw wr) p cp kp # ss) (fix_left_sibling T x w) \<or> moved_up T t (RStep (Nd wl w BLACK kw wr) p cp kp # ss) (fix_left_sibling T x w)"
proof -
  show ?thesis
  proof (cases "black wl \<and> black wr")
    case True
    then obtain T' where f: "fix_left_sibling T x w = (T', p)" "del_pos T' (Nd (Nd wl w RED kw wr) p cp kp t) ss p (parent T p)"
      using fix_left_black [OF pos inv bt] by auto
    moreover have "keys (plug (Nd (Nd wl w RED kw wr) p cp kp t) ss) = keys (plug t (RStep (Nd wl w BLACK kw wr) p cp kp # ss))"
      "addrs (plug (Nd (Nd wl w RED kw wr) p cp kp t) ss) = addrs (plug t (RStep (Nd wl w BLACK kw wr) p cp kp # ss))"
      by (simp_all add: plug_same [of "Nd (Nd wl w RED kw wr) p cp kp t" "Nd (Nd wl w BLACK kw wr) p cp kp t"])
    moreover have "del_inv (Nd (Nd wl w RED kw wr) p cp kp t) ss" using deficit_up(2) [OF inv bt] True by blast
    moreover have "deficit_size (Nd (Nd wl w RED kw wr) p cp kp t) ss < deficit_size t (RStep (Nd wl w BLACK kw wr) p cp kp # ss)" by (simp add: deficit_size_def)
    ultimately show ?thesis unfolding moved_up_def by blast
  next
    case False
    then show ?thesis using fix_left_black [OF pos inv bt] by simp
  qed
qed

lemma step_right_red:
  assumes pos: "del_pos T t (RStep (Nd wl w RED kw wr) p cp kp # ss) x p" and inv: "del_inv t (RStep (Nd wl w RED kw wr) p cp kp # ss)" and bt: "black t"
  defines "res \<equiv> (case left_sibling T x of (T, w) \<Rightarrow> fix_left_sibling T x w)"
  shows "settled T t (RStep (Nd wl w RED kw wr) p cp kp # ss) res \<or> moved_up T t (RStep (Nd wl w RED kw wr) p cp kp # ss) res"
proof -
  obtain al a ak ar where cp: "cp = BLACK" and wr: "wr = Nd al a BLACK ak ar" using deficit_red inv by metis
  obtain T1 where T1: "left_sibling T x = (T1, left T1 p)"
    and pos1: "del_pos T1 t (RStep (Nd al a BLACK ak ar) p RED kp # RStep wl w BLACK kw # ss) x p"
    using left_sibling_red [OF pos] wr by auto
  have inv1: "del_inv t (RStep (Nd al a BLACK ak ar) p RED kp # RStep wl w BLACK kw # ss)"
    using deficit_rotate(2) inv unfolding wr cp by blast
  have eq: "(case left_sibling T x of (T, w) \<Rightarrow> fix_left_sibling T x w) = fix_left_sibling T1 x a" using T1 left_sibling_reads(1) [OF pos1] by simp
  let ?path1 = "RStep (Nd al a BLACK ak ar) p RED kp # RStep wl w BLACK kw # ss"
  have same: "keys (plug t ?path1) = keys (plug t (RStep (Nd wl w RED kw wr) p cp kp # ss))" "addrs (plug t ?path1) = addrs (plug t (RStep (Nd wl w RED kw wr) p cp kp # ss))"
    using wr by (auto intro!: plug_same)
  show ?thesis
  proof (cases "black al \<and> black ar")
    case True
    let ?t' = "Nd (Nd al a RED ak ar) p RED kp t" and ?ss' = "RStep wl w BLACK kw # ss"
    obtain T' where f: "fix_left_sibling T1 x a = (T', p)" "del_pos T' ?t' ?ss' p (parent T1 p)"
      using fix_left_black [OF pos1 inv1 bt] True by auto
    moreover have "keys (plug ?t' ?ss') = keys (plug t ?path1)" "addrs (plug ?t' ?ss') = addrs (plug t ?path1)"
      by (simp_all add: plug_same [of "Nd wl w BLACK kw (Nd (Nd al a RED ak ar) p RED kp t)" "Nd wl w BLACK kw (Nd (Nd al a BLACK ak ar) p RED kp t)"])
    moreover have "del_inv ?t' ?ss'" using deficit_up(2) [OF inv1 bt] True by blast
    moreover have "deficit_size ?t' ?ss' < deficit_size t (RStep (Nd wl w RED kw wr) p cp kp # ss)" using bt by (simp add: deficit_size_def)
    ultimately show ?thesis unfolding res_def eq moved_up_def using same by metis
  next
    case False
    then have "settled T1 t ?path1 (fix_left_sibling T1 x a)" using fix_left_black [OF pos1 inv1 bt] by simp
    then show ?thesis unfolding res_def eq using settled_cong same by blast
  qed
qed

lemma step_right_ok:
  assumes pos: "del_pos T t (RStep wt p cp kp # ss) x p" and inv: "del_inv t (RStep wt p cp kp # ss)" and bt: "black t"
  shows "settled T t (RStep wt p cp kp # ss) (delete_fixup_step T x) \<or> moved_up T t (RStep wt p cp kp # ss) (delete_fixup_step T x)"
proof -
  obtain wl w cw kw wr where wt: "wt = Nd wl w cw kw wr" using deficit_sibling [OF inv] by (metis sibling.simps(2))
  note r = left_sibling_reads [OF pos [unfolded wt]]
  have step: "delete_fixup_step T x = (case left_sibling T x of (T, w) \<Rightarrow> fix_left_sibling T x w)"
    using r by (simp add: delete_fixup_step_def)
  show ?thesis
  proof (cases cw)
    case BLACK
    then have "delete_fixup_step T x = fix_left_sibling T x w" using step r by (simp add: left_sibling_def)
    then show ?thesis using step_right_black [OF pos [unfolded wt BLACK] inv [unfolded wt BLACK] bt] wt BLACK by simp
  next
    case RED
    then show ?thesis using step_right_red [OF pos [unfolded wt RED] inv [unfolded wt RED] bt] wt step by simp
  qed
qed

text \<open>The whole loop.\<close>

lemma root_outside:
  assumes "at_pos T t (s # ss) x up"
  shows "x \<noteq> root T"
proof -
  have "root T \<in> set (path_addrs (s # ss))" using assms unfolding at_pos_def
  proof (induction ss arbitrary: t s x up)
    case Nil
    then show ?case by (cases s) auto
  next
    case (Cons s' ss)
    have "at_pos T t (s # s' # ss) x up" using Cons.prems by (simp add: at_pos_def)
    from at_pos_up [OF this] show ?case using Cons.IH by (fastforce simp: at_pos_def)
  qed
  then show ?thesis using assms by (cases t) (auto simp: at_pos_def)
qed

lemma delete_step_same [simp]:
  "nil (fst (delete_fixup_step T x)) = nil T" "key (fst (delete_fixup_step T x)) = key T" "val (fst (delete_fixup_step T x)) = val T"
  by (auto simp: delete_fixup_step_def right_sibling_def left_sibling_def fix_right_sibling_def fix_left_sibling_def Let_def split: prod.splits if_splits)

text \<open>The loop ends by coloring \<open>x\<close>, which is the root or a red node.\<close>

lemma blacken_ok:
  assumes pos: "at_pos T t ss x up"
  shows "at_pos (set_color x BLACK T) (root_black t) ss x up"
proof (cases t)
  case Lf
  then have "x = nil T" "color T (nil T) = BLACK" using pos by (auto simp: at_pos_def)
  then have "set_color x BLACK T = T" by (simp add: set_color_def fun_upd_idem)
  then show ?thesis using pos Lf by simp
next
  case (Nd l a c k r)
  have "x = a" using pos Nd by (simp add: at_pos_def)
  then have "at_pos (set_color x BLACK T) (recolor a BLACK t) ss x up" using pos Nd by (metis recolor_ok addrs.simps(2) in_set_conv_decomp)
  then show ?thesis using root_black_recolor at_pos_distinct [OF pos] Nd by metis
qed

lemma path_c_last: "path_c (ss @ [s]) \<Longrightarrow> step_color s = BLACK"
proof (induction ss)
  case (Cons s' ss)
  then show ?case by simp
qed (auto intro: color.exhaust)

lemma delete_exit:
  assumes pos: "del_pos T t ss x up" and inv: "del_inv t ss" and out: "x = root T \<or> color T x \<noteq> BLACK"
  shows "fixed T t ss (delete_fixup_loop T x)"
proof -
  have at: "at_pos T t ss x up" using pos by (simp add: del_pos_def)
  have loop: "delete_fixup_loop T x = Some (set_color x BLACK T)" using out by (subst delete_fixup_loop.simps) auto
  let ?T = "set_color x BLACK T"
  have whole: "at_pos ?T (plug (root_black t) ss) [] (root ?T) (nil ?T)" by (rule at_pos_plug [OF blacken_ok [OF at]])
  have red: "\<not> black t" if ne: "ss \<noteq> []"
  proof -
    have "x \<noteq> root T" using root_outside at ne by (cases ss) blast+
    moreover have "tree_at T up x t" "color T (nil T) = BLACK" using at by (auto simp: at_pos_def)
    ultimately show ?thesis using out color_black by blast
  qed
  have rb: "invc (root_black t)" "invh (root_black t)" "black (root_black t)" using inv root_black_inv by (auto simp: del_inv_def)
  have "path_h ss (bheight (root_black t))"
  proof (cases "ss = []")
    case False
    then obtain l a k r where "t = Nd l a RED k r" using red not_black by blast
    then show ?thesis using inv by (auto simp: del_inv_def)
  qed simp
  then have "invh (plug (root_black t) ss)" using rb plug_h by blast
  moreover have "invc (plug (root_black t) ss)" by (rule plug_c) (use inv rb in \<open>auto simp: del_inv_def\<close>)
  moreover have "black (plug (root_black t) ss)"
  proof (cases ss rule: rev_cases)
    case (snoc ss' s)
    have "step_color s = BLACK" using inv snoc path_c_last by (auto simp: del_inv_def)
    then show ?thesis using snoc by (simp add: plug_append plug1_black)
  qed (use rb in simp)
  ultimately show ?thesis unfolding loop fixed_def using whole root_black_inv(4,5) plug_same [of "root_black t" t ss] by fastforce
qed

lemma settled_fixed:
  assumes "settled T t ss (T', x')" "nil T' = nil T" "key T' = key T" "val T' = val T"
  shows "fixed T t ss (delete_fixup_loop T' x')"
proof -
  obtain t' where s: "x' = root T'" "at_pos T' t' [] (root T') (nil T')" "invc t'" "invh t'"
    "keys t' = keys (plug t ss)" "addrs t' = addrs (plug t ss)" using assms(1) by (auto simp: settled_def)
  have "delete_fixup_loop T' x' = Some (set_color (root T') BLACK T')" using s(1) by (subst delete_fixup_loop.simps) simp
  moreover have "at_pos (set_color (root T') BLACK T') (root_black t') [] (root T') (nil T')" by (rule blacken_ok [OF s(2)])
  ultimately show ?thesis unfolding fixed_def using s assms(2-4) root_black_inv [of t'] by fastforce
qed

lemma delete_step_ok:
  assumes pos: "del_pos T t ss x up" and inv: "del_inv t ss" and "x \<noteq> root T" and c: "color T x = BLACK"
  shows "settled T t ss (delete_fixup_step T x) \<or> moved_up T t ss (delete_fixup_step T x)"
proof -
  have at: "at_pos T t ss x up" using pos by (simp add: del_pos_def)
  have bt: "black t" using at c color_black by (auto simp: at_pos_def)
  obtain s rest where ss: "ss = s # rest" using at assms(3) by (cases ss) (auto simp: at_pos_def)
  show ?thesis
  proof (cases s)
    case (LStep p cp kp wt)
    then have "up = p" using at_pos_step(1) at ss by fastforce
    then show ?thesis using step_left_ok pos inv bt ss LStep by metis
  next
    case (RStep wt p cp kp)
    then have "up = p" using at_pos_step(1) at ss by fastforce
    then show ?thesis using step_right_ok pos inv bt ss RStep by metis
  qed
qed

lemma delete_loop_ok:
  assumes "del_pos T t ss x up" "del_inv t ss"
  shows "fixed T t ss (delete_fixup_loop T x)"
  using assms
proof (induction "deficit_size t ss" arbitrary: T t ss x up rule: less_induct)
  case less
  show ?case
  proof (cases "x = root T \<or> color T x \<noteq> BLACK")
    case True
    then show ?thesis using delete_exit less.prems by blast
  next
    case False
    obtain T' x' where s: "delete_fixup_step T x = (T', x')" by fastforce
    have loop: "delete_fixup_loop T x = delete_fixup_loop T' x'" using s False by (subst delete_fixup_loop.simps) simp
    have same: "nil T' = nil T" "key T' = key T" "val T' = val T" using delete_step_same [of T x] s by simp_all
    consider "settled T t ss (T', x')" | "moved_up T t ss (T', x')" using delete_step_ok less.prems False s by metis
    then show ?thesis
    proof cases
      case 1
      then show ?thesis unfolding loop using settled_fixed same by blast
    next
      case 2
      then obtain t' ss' up' where m: "del_pos T' t' ss' x' up'" "del_inv t' ss'" "deficit_size t' ss' < deficit_size t ss"
        "keys (plug t' ss') = keys (plug t ss)" "addrs (plug t' ss') = addrs (plug t ss)" by (auto simp: moved_up_def)
      from less.hyps [OF m(3,1,2)] show ?thesis unfolding loop using m same by (simp add: fixed_def)
    qed
  qed
qed

section \<open>Taking a node out\<close>

lemma splice_ok:
  assumes pos: "at_pos T (Nd l y c k r) ss y up" and child: "l = Lf \<and> t = r \<or> r = Lf \<and> t = l" and x: "tree_at T y x t"
  defines "T' \<equiv> replace_left up y x (set_parent x up T)"
  shows "del_pos T' t ss x up"
proof -
  note side = path_side [OF pos, simplified]
  have p: "path_at T ss y up" and d: "distinct (addrs l @ y # addrs r @ path_addrs ss)"
    and n: "nil T \<notin> set (addrs l @ y # addrs r @ path_addrs ss)" and cn: "color T (nil T) = BLACK"
    using pos by (auto simp: at_pos_def)
  have xm: "x = nil T \<or> x \<in> set (addrs t)" using tree_root x by blast
  have tsub: "set (addrs t) \<subseteq> set (addrs l @ addrs r)" "distinct (addrs t)" using child d by auto
  have xout: "x \<notin> set (path_addrs ss)" using xm tsub d n by auto
  have up: "up = nil T \<or> up \<in> set (path_addrs ss)" using side(1,4) by blast
  have upt: "up \<notin> set (addrs t)" using up tsub d n by auto
  have path: "path_at T' ss x up"
  proof (rule path_replace [OF p])
    show "distinct (path_addrs ss)" using d by simp
    show "nil T' = nil T" by (simp add: T'_def)
    show "root T' = x" if "ss = []" using side(1) that by (simp add: T'_def)
    show "root T' = root T" if "ss \<noteq> []" using side(1) that by (simp add: T'_def)
    fix a
    assume a: "a \<in> set (path_addrs ss)"
    then have ss: "ss \<noteq> []" "up \<noteq> nil T" "a \<noteq> x" using side(1) xout by auto
    have l: "left T' = (if on_left ss then (left T)(up := x) else left T)" using side(2) [OF ss(1)] ss(2) by (simp add: T'_def)
    have r: "right T' = (if on_left ss then right T else (right T)(up := x))" using side(2) [OF ss(1)] ss(2) by (simp add: T'_def)
    have o: "parent T' = (parent T)(x := up)" "color T' = color T" "key T' = key T" by (simp_all add: T'_def)
    show "parent T' a = parent T a \<and> color T' a = color T a \<and> key T' a = key T a \<and>
      left T' a = (if a = up \<and> on_left ss then x else left T a) \<and> right T' a = (if a = up \<and> \<not> on_left ss then x else right T a)"
      unfolding l r o using ss(3) by simp
  qed
  have tree: "tree_at T' up x t"
    by (rule tree_at_reparent [OF x]) (use tsub upt in \<open>auto simp: T'_def\<close>)
  have "nil T' = nil T" "color T' = color T" "parent T' x = up" by (simp_all add: T'_def)
  moreover have "distinct (addrs t @ path_addrs ss)" "nil T \<notin> set (addrs t @ path_addrs ss)" using tsub d n by auto
  ultimately show ?thesis using path tree cn by (simp add: del_pos_def at_pos_def)
qed

text \<open>Changing the key and the value of one node.\<close>

fun rekey :: "nat \<Rightarrow> int \<Rightarrow> rbt \<Rightarrow> rbt" where
  "rekey a k Lf = Lf"
| "rekey a k (Nd l b c kb r) = Nd (rekey a k l) b c (if b = a then k else kb) (rekey a k r)"

fun rekey_step :: "nat \<Rightarrow> int \<Rightarrow> step \<Rightarrow> step" where
  "rekey_step a k (LStep b c kb r) = LStep b c (if b = a then k else kb) (rekey a k r)"
| "rekey_step a k (RStep l b c kb) = RStep (rekey a k l) b c (if b = a then k else kb)"

lemma rekey_id [simp]: "a \<notin> set (addrs t) \<Longrightarrow> rekey a k t = t"
  by (induction t) auto

lemma rekey_addrs [simp]: "addrs (rekey a k t) = addrs t"
  by (induction t) auto

lemma rekey_inv [simp]: "black (rekey a k t) = black t" "invc (rekey a k t) = invc t" "bheight (rekey a k t) = bheight t" "invh (rekey a k t) = invh t"
proof -
  show b: "black (rekey a k t) = black t" for t by (cases t) auto
  show "invc (rekey a k t) = invc t" by (induction t) (auto simp: b)
  show h: "bheight (rekey a k t) = bheight t" for t by (induction t) auto
  show "invh (rekey a k t) = invh t" by (induction t) (auto simp: h)
qed

lemma rekey_step_id [simp]: "a \<notin> set (step_addrs s) \<Longrightarrow> rekey_step a k s = s"
  by (cases s) auto

lemma rekey_step_same [simp]:
  "step_color (rekey_step a k s) = step_color s" "step_addrs (rekey_step a k s) = step_addrs s"
  "sibling (rekey_step a k s) = rekey a k (sibling s)"
  by (cases s; simp)+

lemma rekey_path_addrs [simp]: "path_addrs (map (rekey_step a k) ss) = path_addrs ss"
  by (induction ss) auto

lemma rekey_path_inv [simp]: "path_c (map (rekey_step a k) ss) = path_c ss" "path_h (map (rekey_step a k) ss) n = path_h ss n"
proof -
  show "path_c (map (rekey_step a k) ss) = path_c ss" by (induction ss) (auto simp: hd_map)
  show "path_h (map (rekey_step a k) ss) n = path_h ss n" by (induction ss arbitrary: n) auto
qed

lemma rekey_tree_at: "tree_at T up p t \<Longrightarrow> tree_at (T\<lparr>key := (key T)(a := k), val := f\<rparr>) up p (rekey a k t)"
  by (induction t arbitrary: up p) auto

lemma rekey_ok:
  assumes "at_pos T t ss x up"
  shows "at_pos (T\<lparr>key := (key T)(a := k), val := f\<rparr>) (rekey a k t) (map (rekey_step a k) ss) x up"
proof -
  let ?T = "T\<lparr>key := (key T)(a := k), val := f\<rparr>"
  have "path_at T ss x up \<Longrightarrow> path_at ?T (map (rekey_step a k) ss) x up"
    by (induction T ss x up rule: path_at.induct) (auto intro: rekey_tree_at)
  then show ?thesis using assms rekey_tree_at by (auto simp: at_pos_def)
qed

section \<open>The node that leaves\<close>

text \<open>Descending to the least node of a subtree goes along left steps only.\<close>

lemma mini_ok:
  assumes "at_pos T t ss x up" "t \<noteq> Lf"
  shows "\<exists>y c k r ls up'. mini_loop T x = Some y \<and> at_pos T (Nd Lf y c k r) (ls @ ss) y up' \<and> plug (Nd Lf y c k r) ls = t \<and>
    (\<exists>ks as. \<forall>t'. keys (plug t' ls) = keys t' @ ks \<and> addrs (plug t' ls) = addrs t' @ as)"
  using assms
proof (induction t arbitrary: ss x up)
  case (Nd l a c k r)
  have x: "x = a" using Nd.prems(1) by (simp add: at_pos_def)
  show ?case
  proof (cases "l = Lf")
    case True
    then have "left T a = nil T" using Nd.prems(1) by (simp add: at_pos_def)
    then have "mini_loop T x = Some a" using x by (subst mini_loop.simps) simp
    then show ?thesis using Nd.prems(1) True x by (intro exI [of _ a] exI [of _ c] exI [of _ k] exI [of _ r] exI [of _ "[]"] exI [of _ up]) auto
  next
    case False
    have pos: "at_pos T l (LStep a c k r # ss) (left T a) a" using at_pos_left Nd.prems(1) x by blast
    then have "left T a \<noteq> nil T" using False by (cases l) (auto simp: at_pos_def)
    then have m: "mini_loop T x = mini_loop T (left T a)" using x by (subst mini_loop.simps) simp
    obtain y c' k' r' ls up' ks as where i: "mini_loop T (left T a) = Some y" "at_pos T (Nd Lf y c' k' r') (ls @ LStep a c k r # ss) y up'"
      "plug (Nd Lf y c' k' r') ls = l" "\<And>t'. keys (plug t' ls) = keys t' @ ks" "\<And>t'. addrs (plug t' ls) = addrs t' @ as"
      using Nd.IH(1) [OF pos False] by blast
    have "\<forall>t'. keys (plug t' (ls @ [LStep a c k r])) = keys t' @ (ks @ k # keys r) \<and> addrs (plug t' (ls @ [LStep a c k r])) = addrs t' @ (as @ a # addrs r)"
      using i by (simp add: plug_append)
    moreover have "plug (Nd Lf y c' k' r') (ls @ [LStep a c k r]) = Nd l a c k r" using i(3) by (simp add: plug_append)
    moreover have "at_pos T (Nd Lf y c' k' r') ((ls @ [LStep a c k r]) @ ss) y up'" using i(2) by simp
    ultimately show ?thesis unfolding m using i(1) by blast
  qed
qed simp

text \<open>The place of a node of the tree.\<close>

lemma find_pos:
  assumes "at_pos T t ss x up" "z \<in> set (addrs t)"
  shows "\<exists>l c k r ss' up'. at_pos T (Nd l z c k r) (ss' @ ss) z up' \<and> plug (Nd l z c k r) ss' = t"
  using assms
proof (induction t arbitrary: ss x up)
  case (Nd l a c k r)
  have pos: "at_pos T (Nd l a c k r) ss a up" using Nd.prems(1) by (auto simp: at_pos_def)
  consider "z = a" | "z \<in> set (addrs l)" | "z \<in> set (addrs r)" using Nd.prems(2) by auto
  then show ?case
  proof cases
    case 1
    have "at_pos T (Nd l z c k r) ([] @ ss) z up" "plug (Nd l z c k r) [] = Nd l a c k r" using pos 1 by simp_all
    then show ?thesis by blast
  next
    case 2
    from Nd.IH(1) [OF at_pos_left [OF pos] this] obtain l' c' k' r' ss' up' where
      i: "at_pos T (Nd l' z c' k' r') (ss' @ LStep a c k r # ss) z up'" "plug (Nd l' z c' k' r') ss' = l" by blast
    have "at_pos T (Nd l' z c' k' r') ((ss' @ [LStep a c k r]) @ ss) z up'" "plug (Nd l' z c' k' r') (ss' @ [LStep a c k r]) = Nd l a c k r"
      using i by (simp_all add: plug_append)
    then show ?thesis by blast
  next
    case 3
    from Nd.IH(2) [OF at_pos_right [OF pos] this] obtain l' c' k' r' ss' up' where
      i: "at_pos T (Nd l' z c' k' r') (ss' @ RStep l a c k # ss) z up'" "plug (Nd l' z c' k' r') ss' = r" by blast
    have "at_pos T (Nd l' z c' k' r') ((ss' @ [RStep l a c k]) @ ss) z up'" "plug (Nd l' z c' k' r') (ss' @ [RStep l a c k]) = Nd l a c k r"
      using i by (simp_all add: plug_append)
    then show ?thesis by blast
  qed
qed simp

lemma removed_inv:
  assumes inv: "invc (plug (Nd l y c k r) ss)" "invh (plug (Nd l y c k r) ss)" "black (plug (Nd l y c k r) ss)"
    and child: "l = Lf \<and> t = r \<or> r = Lf \<and> t = l"
  shows "if c = BLACK then del_inv t ss else invc (plug t ss) \<and> invh (plug t ss) \<and> black (plug t ss)"
proof -
  have c: "invc (Nd l y c k r)" "path_c ss" "ss = [] \<longrightarrow> c = BLACK" "ss \<noteq> [] \<longrightarrow> step_color (hd ss) = RED \<longrightarrow> c = BLACK"
    using plug_inv_c [OF inv(1,3)] by (auto split: if_splits)
  have h: "invh (Nd l y c k r)" "path_h ss (bheight (Nd l y c k r))" using plug_inv_h [OF inv(2)] by auto
  have t: "invc t" "invh t" "bheight t = bheight l" using c(1) h(1) child by auto
  show ?thesis
  proof (cases c)
    case BLACK
    then show ?thesis using t c(2) h root_black_inv(1) by (auto simp: del_inv_def)
  next
    case RED
    then have "t = Lf" "bheight l = 0" using c(1) h(1) child by (cases t; auto)+
    moreover obtain ss' s where ss: "ss = ss' @ [s]" using c(3) RED by (cases ss rule: rev_cases) auto
    have "step_color s = BLACK" using path_c_last c(2) ss by blast
    then have "black (plug t ss)" unfolding ss by (simp add: plug_append plug1_black)
    moreover have "invc (plug t ss)" by (rule plug_c) (use c t RED calculation in auto)
    moreover have "invh (plug t ss)" by (rule plug_h) (use h t RED calculation in auto)
    ultimately show ?thesis using RED by simp
  qed
qed

lemma removed_fixed:
  assumes pos: "del_pos T t ss x up" and inv: "if c = BLACK then del_inv t ss else invc (plug t ss) \<and> invh (plug t ss) \<and> black (plug t ss)"
  shows "fixed T t ss (if c = BLACK then delete_fixup_loop T x else Some T)"
proof (cases "c = BLACK")
  case True
  then show ?thesis using delete_loop_ok [OF pos] inv by simp
next
  case False
  have "at_pos T (plug t ss) [] (root T) (nil T)" using at_pos_plug pos by (auto simp: del_pos_def)
  then show ?thesis using False inv by (auto simp: fixed_def)
qed

text \<open>The payload of the node that leaves moves to the node that stays.\<close>

definition moved_path :: "nat \<Rightarrow> nat \<Rightarrow> int \<Rightarrow> step list \<Rightarrow> step list" where
  "moved_path y z k ss = (if y = z then ss else map (rekey_step z k) ss)"

lemma move_payload_same [simp]:
  "nil (move_payload y z T) = nil T" "color (move_payload y z T) = color T" "parent (move_payload y z T) = parent T"
  by (simp_all add: move_payload_def)

lemma move_payload_ok:
  assumes "del_pos T t ss x up" "y \<noteq> z \<Longrightarrow> z \<notin> set (addrs t)"
  shows "del_pos (move_payload y z T) t (moved_path y z (key T y) ss) x up"
proof (cases "y = z")
  case True
  then show ?thesis using assms by (simp add: move_payload_def moved_path_def)
next
  case False
  then have "at_pos (move_payload y z T) (rekey z (key T y) t) (map (rekey_step z (key T y)) ss) x up"
    unfolding move_payload_def using rekey_ok assms(1) by (auto simp: del_pos_def)
  then show ?thesis using False assms by (simp add: del_pos_def moved_path_def)
qed

lemma moved_path_inv:
  "path_c (moved_path y z k ss) = path_c ss" "path_h (moved_path y z k ss) n = path_h ss n"
  by (simp_all add: moved_path_def)

lemma moved_path_nil [simp]: "moved_path y z k [] = []" "moved_path y z k ss = [] \<longleftrightarrow> ss = []"
  by (simp_all add: moved_path_def)

lemma rekey_plug: "plug (rekey a k t) (map (rekey_step a k) ss) = rekey a k (plug t ss)"
proof (induction ss arbitrary: t)
  case (Cons s ss)
  have "plug1 (rekey a k t) (rekey_step a k s) = rekey a k (plug1 t s)" by (cases s) auto
  then show ?case using Cons.IH by simp
qed simp

lemma moved_inv:
  fixes k :: int
  assumes "if c = BLACK then del_inv t ss else invc (plug t ss) \<and> invh (plug t ss) \<and> black (plug t ss)"
    and "y \<noteq> z \<Longrightarrow> z \<notin> set (addrs t)"
  defines "ss' \<equiv> moved_path y z k ss"
  shows "if c = BLACK then del_inv t ss' else invc (plug t ss') \<and> invh (plug t ss') \<and> black (plug t ss')"
proof (cases "y = z")
  case False
  then have "plug t ss' = rekey z k (plug t ss)" using rekey_plug [of z k t ss] assms(2) by (simp add: ss'_def moved_path_def)
  then show ?thesis using assms(1) by (auto simp: ss'_def del_inv_def moved_path_inv split: if_splits)
qed (use assms in \<open>simp add: moved_path_def\<close>)

lemma delete_unlink:
  assumes pos: "at_pos T (Nd l y c k r) ss y up" and child: "l = Lf \<and> t = r \<or> r = Lf \<and> t = l"
    and choice: "(if left T z = nil T \<or> right T z = nil T then Ok z else rbtree_successor T z) = Ok y"
    and z: "y \<noteq> z \<Longrightarrow> z \<in> set (path_addrs ss)"
    and inv: "invc (plug (Nd l y c k r) ss)" "invh (plug (Nd l y c k r) ss)" "black (plug (Nd l y c k r) ss)"
  shows "\<exists>T'. rbtree_delete T z = Ok (T', y) \<and> fixed (move_payload y z T) t (moved_path y z k ss) (Some T')"
proof -
  define x where "x = (if left T y \<noteq> nil T then left T y else if right T y \<noteq> nil T then right T y else nil T)"
  have f: "parent T y = up" "color T y = c" "key T y = k" "tree_at T y (left T y) l" "tree_at T y (right T y) r"
    using pos by (auto simp: at_pos_def)
  have x: "tree_at T y x t" using f(4,5) child by (cases t) (auto simp: x_def)
  define T1 where "T1 = replace_left up y x (set_parent x up T)"
  define T2 where "T2 = move_payload y z T1"
  have p1: "del_pos T1 t ss x up" unfolding T1_def by (rule splice_ok [OF pos child x])
  have zt: "z \<notin> set (addrs t)" if "y \<noteq> z" using z [OF that] pos child by (auto simp: at_pos_def)
  have k1: "key T1 = key T" "nil T1 = nil T" "val T1 = val T" "color T1 = color T" by (simp_all add: T1_def)
  have p2: "del_pos T2 t (moved_path y z k ss) x up" unfolding T2_def using move_payload_ok [OF p1, of y z] zt k1 f by simp
  let ?ss = "moved_path y z k ss"
  have "if c = BLACK then del_inv t ?ss else invc (plug t ?ss) \<and> invh (plug t ?ss) \<and> black (plug t ?ss)"
    using removed_inv [OF inv child] by (rule moved_inv [OF _ zt])
  then have fx: "fixed T2 t ?ss (if c = BLACK then delete_fixup_loop T2 x else Some T2)" by (rule removed_fixed [OF p2])
  then obtain T' where T': "(if c = BLACK then delete_fixup_loop T2 x else Some T2) = Some T'" by (auto simp: fixed_def)
  have up1: "parent (set_parent x up T) y = up" using f(1) by simp
  have "rbtree_delete T z = (if color T2 y = BLACK then obind (rbtree_delete_fixup T2 x) (\<lambda>T. Ok (T, y)) else Ok (T2, y))"
    unfolding rbtree_delete_def choice
    by (simp only: obind.simps Let_def x_def [symmetric] f(1) up1 T1_def [symmetric] T2_def [symmetric])
  moreover have "color T2 y = c" using f k1 by (simp add: T2_def)
  ultimately have "rbtree_delete T z = Ok (T', y)" using T' by (auto simp: rbtree_delete_fixup_def split: if_splits)
  moreover have "nil T2 = nil (move_payload y z T)" "key T2 = key (move_payload y z T)" "val T2 = val (move_payload y z T)"
    by (simp_all add: T2_def move_payload_def k1)
  then have "fixed (move_payload y z T) t ?ss (Some T')" using fx unfolding T' by (simp add: fixed_def)
  ultimately show ?thesis by blast
qed

section \<open>Deletion\<close>

lemma plug_addrs: "set (addrs (plug t ss)) = set (addrs t) \<union> set (path_addrs ss)"
proof (induction ss arbitrary: t)
  case (Cons s ss)
  then show ?case by (cases s) auto
qed simp

lemma rekey_path_id: "z \<notin> set (path_addrs ss) \<Longrightarrow> map (rekey_step z k) ss = ss"
  by (induction ss) auto

lemma plug_lists: "\<exists>A B C D. \<forall>t. keys (plug t ss) = A @ keys t @ B \<and> addrs (plug t ss) = C @ addrs t @ D"
proof (induction ss)
  case Nil
  show ?case by (intro exI [of _ "[]"]) simp
next
  case (Cons s ss)
  then obtain A B C D where eq: "\<And>t. keys (plug t ss) = A @ keys t @ B" "\<And>t. addrs (plug t ss) = C @ addrs t @ D" by blast
  show ?case
  proof (cases s)
    case (LStep a c k r)
    have "\<forall>t. keys (plug t (s # ss)) = A @ keys t @ (k # keys r @ B) \<and> addrs (plug t (s # ss)) = C @ addrs t @ (a # addrs r @ D)"
      using eq LStep by simp
    then show ?thesis by blast
  next
    case (RStep l a c k)
    have "\<forall>t. keys (plug t (s # ss)) = (A @ keys l @ [k]) @ keys t @ B \<and> addrs (plug t (s # ss)) = (C @ addrs l @ [a]) @ addrs t @ D"
      using eq RStep by simp
    then show ?thesis by blast
  qed
qed

definition removes :: "'a list \<Rightarrow> 'a \<Rightarrow> 'a list \<Rightarrow> bool" where
  "removes xs x ys \<longleftrightarrow> (\<exists>P Q. xs = P @ x # Q \<and> ys = P @ Q)"

lemma removesI: "removes (P @ x # Q) x (P @ Q)"
  by (auto simp: removes_def)

lemma removes_within: "removes xs x ys \<Longrightarrow> removes (A @ xs @ B) x (A @ ys @ B)"
  unfolding removes_def by (metis append.assoc append_Cons)

lemma removes_set: "removes xs x ys \<Longrightarrow> distinct xs \<Longrightarrow> set ys = set xs - {x} \<and> x \<in> set xs"
  by (auto simp: removes_def)

lemma removes_sorted: "removes xs x ys \<Longrightarrow> sorted_wrt P xs \<Longrightarrow> sorted_wrt P ys"
  by (auto simp: removes_def sorted_wrt_append)

lemma removes_plug:
  assumes "removes (keys t) k (keys t')" "removes (addrs t) y (addrs t')"
  shows "removes (keys (plug t ss)) k (keys (plug t' ss)) \<and> removes (addrs (plug t ss)) y (addrs (plug t' ss))"
proof -
  obtain A B C D where "\<And>t. keys (plug t ss) = A @ keys t @ B" "\<And>t. addrs (plug t ss) = C @ addrs t @ D" using plug_lists by metis
  then show ?thesis using assms removes_within by metis
qed

text \<open>The node that leaves, the place it leaves from, and what the tree loses.\<close>

lemma delete_choice:
  assumes pos: "at_pos T (Nd l z c k r) ss z up"
  shows "\<exists>y cy ky ly ry t' ss' up'. (if left T z = nil T \<or> right T z = nil T then Ok z else rbtree_successor T z) = Ok y \<and>
    at_pos T (Nd ly y cy ky ry) ss' y up' \<and> (ly = Lf \<and> t' = ry \<or> ry = Lf \<and> t' = ly) \<and> (y \<noteq> z \<longrightarrow> z \<in> set (path_addrs ss')) \<and>
    plug (Nd ly y cy ky ry) ss' = plug (Nd l z c k r) ss \<and>
    removes (keys (plug (Nd l z c k r) ss)) k (keys (plug t' (moved_path y z ky ss'))) \<and>
    removes (addrs (plug (Nd l z c k r) ss)) y (addrs (plug t' (moved_path y z ky ss')))"
proof (cases "l = Lf \<or> r = Lf")
  case True
  then have "left T z = nil T \<or> right T z = nil T" using pos by (auto simp: at_pos_def)
  moreover define t' where "t' = (if l = Lf then r else l)"
  have child: "l = Lf \<and> t' = r \<or> r = Lf \<and> t' = l" using True by (auto simp: t'_def)
  moreover have "removes (keys (Nd l z c k r)) k (keys t')" "removes (addrs (Nd l z c k r)) z (addrs t')"
    using child removesI [of "keys l" k "keys r"] removesI [of "addrs l" z "addrs r"] by auto
  from removes_plug [OF this] have "removes (keys (plug (Nd l z c k r) ss)) k (keys (plug t' (moved_path z z k ss)))"
    "removes (addrs (plug (Nd l z c k r) ss)) z (addrs (plug t' (moved_path z z k ss)))" by (simp_all add: moved_path_def)
  ultimately show ?thesis using pos
    by (intro exI [of _ z] exI [of _ c] exI [of _ k] exI [of _ l] exI [of _ r] exI [of _ t'] exI [of _ ss] exI [of _ up]) simp
next
  case False
  have rpos: "at_pos T r (RStep l z c k # ss) (right T z) z" by (rule at_pos_right [OF pos])
  from mini_ok [OF this] False obtain y cy ky ry ls up' ks as where m: "mini_loop T (right T z) = Some y"
    "at_pos T (Nd Lf y cy ky ry) (ls @ RStep l z c k # ss) y up'" "plug (Nd Lf y cy ky ry) ls = r"
    "\<And>t'. keys (plug t' ls) = keys t' @ ks" "\<And>t'. addrs (plug t' ls) = addrs t' @ as" by metis
  let ?ss = "ls @ RStep l z c k # ss"
  have nn: "left T z \<noteq> nil T" "right T z \<noteq> nil T" using pos False by (cases l; cases r; auto simp: at_pos_def)+
  then have ch: "(if left T z = nil T \<or> right T z = nil T then Ok z else rbtree_successor T z) = Ok y"
    using m(1) by (simp add: rbtree_successor_def rbtree_mini_def Let_def)
  have zin: "z \<in> set (path_addrs ?ss)" by (induction ls) auto
  have "z \<noteq> y" using m(2) zin by (auto simp: at_pos_def)
  have "z \<notin> set (addrs l)" "z \<notin> set (path_addrs ss)" using pos by (auto simp: at_pos_def)
  have "set (path_addrs ls) \<subseteq> set (addrs r)" using plug_addrs [of "Nd Lf y cy ky ry" ls] m(3) by auto
  then have "z \<notin> set (path_addrs ls)" using pos by (auto simp: at_pos_def)
  then have mp: "moved_path y z ky ?ss = ls @ RStep l z c ky # ss"
    using \<open>z \<noteq> y\<close> \<open>z \<notin> set (addrs l)\<close> \<open>z \<notin> set (path_addrs ss)\<close> by (auto simp: moved_path_def rekey_path_id)
  have "removes (keys (Nd l z c k r)) k (keys (Nd l z c ky (plug ry ls)))" "removes (addrs (Nd l z c k r)) y (addrs (Nd l z c ky (plug ry ls)))"
    unfolding m(3) [symmetric] using removesI [of "keys l" k "ky # keys ry @ ks"] removesI [of "addrs l @ [z]" y "addrs ry @ as"] by (auto simp: m(4,5))
  from removes_plug [OF this, of ss] have "removes (keys (plug (Nd l z c k r) ss)) k (keys (plug ry (moved_path y z ky ?ss)))"
    "removes (addrs (plug (Nd l z c k r) ss)) y (addrs (plug ry (moved_path y z ky ?ss)))" unfolding mp by (simp_all add: plug_append)
  moreover have "plug (Nd Lf y cy ky ry) ?ss = plug (Nd l z c k r) ss" using m(3) by (simp add: plug_append)
  ultimately show ?thesis using ch m(2) zin
    by (intro exI [of _ y] exI [of _ cy] exI [of _ ky] exI [of _ Lf] exI [of _ ry] exI [of _ ry] exI [of _ ?ss] exI [of _ up']) simp
qed

lemma delete_node_ok:
  assumes rep: "rb_rep T t" and z: "z \<in> set (addrs t)"
  shows "\<exists>T' y t'. rbtree_delete T z = Ok (T', y) \<and> rb_rep T' t' \<and> removes (keys t) (key T z) (keys t') \<and> removes (addrs t) y (addrs t') \<and>
    nil T' = nil T \<and> key T' = key (move_payload y z T) \<and> val T' = val (move_payload y z T)"
proof -
  have pos: "at_pos T t [] (root T) (nil T)" and b: "bst t" and inv: "invc t" "invh t" "black t" using rep by (auto simp: rb_rep_def)
  obtain l c k r ss up where p: "at_pos T (Nd l z c k r) ss z up" "plug (Nd l z c k r) ss = t" using find_pos [OF pos z] by auto
  have k: "key T z = k" using p(1) by (simp add: at_pos_def)
  obtain y cy ky ly ry t0 ss' up' where d: "(if left T z = nil T \<or> right T z = nil T then Ok z else rbtree_successor T z) = Ok y"
    "at_pos T (Nd ly y cy ky ry) ss' y up'" "ly = Lf \<and> t0 = ry \<or> ry = Lf \<and> t0 = ly" "y \<noteq> z \<Longrightarrow> z \<in> set (path_addrs ss')"
    "plug (Nd ly y cy ky ry) ss' = t" "removes (keys t) k (keys (plug t0 (moved_path y z ky ss')))"
    "removes (addrs t) y (addrs (plug t0 (moved_path y z ky ss')))" using delete_choice [OF p(1)] unfolding p(2) by blast
  obtain T' where u: "rbtree_delete T z = Ok (T', y)" "fixed (move_payload y z T) t0 (moved_path y z ky ss') (Some T')"
    using delete_unlink [OF d(2,3,1,4)] inv unfolding d(5) by blast
  then obtain t' where t': "at_pos T' t' [] (root T') (nil T')" "keys t' = keys (plug t0 (moved_path y z ky ss'))"
    "addrs t' = addrs (plug t0 (moved_path y z ky ss'))" "invc t'" "invh t'" "black t'" "nil T' = nil T"
    "key T' = key (move_payload y z T)" "val T' = val (move_payload y z T)" by (auto simp: fixed_def)
  have "bst t'" using removes_sorted d(6) b t'(2) by (metis bst_def)
  then have "rb_rep T' t'" using t' by (simp add: rb_rep_def)
  then show ?thesis using u(1) t' d(6,7) k by metis
qed

end
