(* ===== verification/Rbtree_map.thy ===== *)
theory Rbtree_map
  imports Rbtree_delete
begin

text \<open>
  The tree of \<open>src/linuxdemo/rbtree.c\<close> as a map from keys to values: the trees that clients can
  build, the map each stands for, and the walks in order.
\<close>

section \<open>The tree as a map\<close>

text \<open>
  The trees a client can build: from the empty tree, by inserting nodes that are not in the tree and
  whose key and value the client has set, and by deleting nodes of the tree. With every tree go the
  nodes it holds and the map it stands for. An insertion of a key that exists changes nothing.
\<close>

inductive rb_built :: "'v rbtree \<Rightarrow> nat set \<Rightarrow> (int \<rightharpoonup> 'v) \<Rightarrow> bool" where
  rb_empty: "root T = nil T \<Longrightarrow> color T (nil T) = BLACK \<Longrightarrow> rb_built T {} Map.empty"
| rb_insert: "rb_built T A m \<Longrightarrow> z \<notin> A \<Longrightarrow> z \<noteq> nil T \<Longrightarrow>
    rbtree_insert (T\<lparr>key := (key T)(z := k), val := (val T)(z := v)\<rparr>) z = Ok T' \<Longrightarrow>
    rb_built T' (if k \<in> dom m then A else insert z A) (if k \<in> dom m then m else m(k \<mapsto> v))"
| rb_delete: "rb_built T A m \<Longrightarrow> z \<in> A \<Longrightarrow> rbtree_delete T z = Ok (T', y) \<Longrightarrow> rb_built T' (A - {y}) (m(key T z := None))"

definition rb_map :: "'v rbtree \<Rightarrow> nat set \<Rightarrow> (int \<rightharpoonup> 'v) \<Rightarrow> bool" where
  "rb_map T A m \<longleftrightarrow> (\<forall>k v. m k = Some v \<longleftrightarrow> (\<exists>a \<in> A. key T a = k \<and> val T a = v))"

lemma tree_keys: "tree_at T up p t \<Longrightarrow> keys t = map (key T) (addrs t)"
  by (induction t arbitrary: up p) auto

lemma rb_rep_keys:
  assumes "rb_rep T t"
  shows "keys t = map (key T) (addrs t)" "distinct (keys t)" "distinct (addrs t)" "inj_on (key T) (set (addrs t))"
proof -
  show k: "keys t = map (key T) (addrs t)" using assms tree_keys by (auto simp: rb_rep_def at_pos_def)
  show d: "distinct (keys t)" using assms strict_sorted_iff by (auto simp: rb_rep_def bst_def)
  show "distinct (addrs t)" "inj_on (key T) (set (addrs t))" using d unfolding k by (simp_all add: distinct_map)
qed

lemma rb_map_dom: "rb_map T A m \<Longrightarrow> dom m = key T ` A"
  by (auto simp: rb_map_def dom_def image_iff)

lemma rb_rep_fresh:
  assumes "rb_rep T t" "z \<notin> set (addrs t)"
  shows "rb_rep (T\<lparr>key := (key T)(z := k), val := (val T)(z := v)\<rparr>) t"
  using rekey_ok [where T = T and t = t and ss = "[]" and a = z and k = k and f = "(val T)(z := v)"] assms by (simp add: rb_rep_def)

lemma rb_map_insert:
  assumes "rb_map T A m" "z \<notin> A"
  shows "rb_map (T\<lparr>key := (key T)(z := k), val := (val T)(z := v)\<rparr>) A m"
    "k \<notin> dom m \<Longrightarrow> rb_map (T\<lparr>key := (key T)(z := k), val := (val T)(z := v)\<rparr>) (insert z A) (m(k \<mapsto> v))"
proof -
  show "rb_map (T\<lparr>key := (key T)(z := k), val := (val T)(z := v)\<rparr>) A m" using assms by (auto simp: rb_map_def)
  show "rb_map (T\<lparr>key := (key T)(z := k), val := (val T)(z := v)\<rparr>) (insert z A) (m(k \<mapsto> v))" if "k \<notin> dom m"
    using assms that by (auto simp: rb_map_def)
qed

lemma rb_map_delete:
  assumes "rb_map T A m" "inj_on (key T) A" "z \<in> A" "y \<in> A"
  shows "rb_map (move_payload y z T) (A - {y}) (m(key T z := None))"
proof (cases "y = z")
  case True
  then show ?thesis using assms by (auto simp: rb_map_def move_payload_def inj_on_def)
next
  case False
  have "(\<exists>a \<in> A - {y}. key (move_payload y z T) a = k \<and> val (move_payload y z T) a = v) \<longleftrightarrow>
    k \<noteq> key T z \<and> (\<exists>a \<in> A. key T a = k \<and> val T a = v)" for k v
  proof
    assume "\<exists>a \<in> A - {y}. key (move_payload y z T) a = k \<and> val (move_payload y z T) a = v"
    then show "k \<noteq> key T z \<and> (\<exists>a \<in> A. key T a = k \<and> val T a = v)"
      using False assms(2-4) by (auto simp: move_payload_def inj_on_def split: if_splits)
  next
    assume "k \<noteq> key T z \<and> (\<exists>a \<in> A. key T a = k \<and> val T a = v)"
    then obtain a where a: "a \<in> A" "key T a = k" "val T a = v" "a \<noteq> z" by auto
    show "\<exists>a \<in> A - {y}. key (move_payload y z T) a = k \<and> val (move_payload y z T) a = v"
      using False a assms(3) by (intro bexI [of _ "if a = y then z else a"]) (auto simp: move_payload_def)
  qed
  then show ?thesis using assms(1) by (auto simp: rb_map_def)
qed

lemma rb_insert_ok:
  assumes "rb_rep T t" "set (addrs t) = A" "rb_map T A m" "z \<notin> A" "z \<noteq> nil T"
    and T1_def: "T1 = T\<lparr>key := (key T)(z := k), val := (val T)(z := v)\<rparr>"
  shows "\<exists>T' t'. rbtree_insert T1 z = Ok T' \<and> rb_rep T' t' \<and> nil T' = nil T \<and> set (addrs t') = (if k \<in> dom m then A else insert z A) \<and>
    rb_map T' (if k \<in> dom m then A else insert z A) (if k \<in> dom m then m else m(k \<mapsto> v))"
proof -
  have rep: "rb_rep T1 t" unfolding T1_def by (rule rb_rep_fresh [OF assms(1)]) (use assms(2,4) in simp)
  have k: "key T1 z = k" "nil T1 = nil T" by (simp_all add: T1_def)
  have dom: "k \<in> dom m \<longleftrightarrow> k \<in> set (keys t)" using rb_map_dom [OF assms(3)] rb_rep_keys(1) [OF assms(1)] assms(2) by auto
  note m1 = rb_map_insert [OF assms(3,4), where k = k and v = v, folded T1_def]
  show ?thesis
  proof (cases "k \<in> dom m")
    case True
    then have "rbtree_insert T1 z = Ok T1" using insert_ok [OF rep, of z] assms(2,4,5) k dom by simp
    then show ?thesis using True rep k m1 assms(2) by auto
  next
    case False
    then obtain T' t' where "rbtree_insert T1 z = Ok T'" "rb_rep T' t'" "set (addrs t') = insert z A" "nil T' = nil T1" "key T' = key T1" "val T' = val T1"
      using insert_ok [OF rep, of z] assms(2,4,5) k dom by (auto simp: returns_def)
    moreover from this have "rb_map T' (insert z A) (m(k \<mapsto> v))" using m1(2) False by (simp add: rb_map_def)
    ultimately show ?thesis using False k by auto
  qed
qed

lemma rb_delete_ok:
  assumes "rb_rep T t" "set (addrs t) = A" "rb_map T A m" "z \<in> A"
  shows "\<exists>T' y t'. rbtree_delete T z = Ok (T', y) \<and> y \<in> A \<and> rb_rep T' t' \<and> nil T' = nil T \<and> set (addrs t') = A - {y} \<and>
    rb_map T' (A - {y}) (m(key T z := None))"
proof -
  obtain T' y t' where d: "rbtree_delete T z = Ok (T', y)" "rb_rep T' t'" "removes (addrs t) y (addrs t')" "nil T' = nil T"
    "key T' = key (move_payload y z T)" "val T' = val (move_payload y z T)" using delete_node_ok [OF assms(1), of z] assms(2,4) by blast
  have A: "set (addrs t') = A - {y}" "y \<in> A" using removes_set [OF d(3) rb_rep_keys(3) [OF assms(1)]] assms(2) by auto
  have "rb_map (move_payload y z T) (A - {y}) (m(key T z := None))"
    using rb_map_delete [OF assms(3) _ assms(4) A(2)] rb_rep_keys(4) [OF assms(1)] assms(2) by blast
  then have "rb_map T' (A - {y}) (m(key T z := None))" using d by (simp add: rb_map_def)
  then show ?thesis using d A by blast
qed

lemma rb_built_rep:
  assumes "rb_built T A m"
  shows "\<exists>t. rb_rep T t \<and> set (addrs t) = A \<and> rb_map T A m"
  using assms
proof (induction rule: rb_built.induct)
  case (rb_empty T)
  have "rb_rep T Lf" using rb_empty by (simp add: rb_rep_def at_pos_def bst_def)
  moreover have "rb_map T {} Map.empty" by (simp add: rb_map_def)
  ultimately show ?case by fastforce
next
  case (rb_insert T A m z v k T')
  then obtain t where "rb_rep T t" "set (addrs t) = A" "rb_map T A m" by blast
  from rb_insert_ok [OF this rb_insert.hyps(2,3) refl, where k = k and v = v] show ?case using rb_insert.hyps(4) by (metis outcome.inject(1))
next
  case (rb_delete T A m z T' y)
  then obtain t where "rb_rep T t" "set (addrs t) = A" "rb_map T A m" by blast
  from rb_delete_ok [OF this rb_delete.hyps(2)] show ?case using rb_delete.hyps(3) by (metis outcome.inject(1) prod.inject)
qed

lemma traversal_ok: "tree_at T up p t \<Longrightarrow> \<exists>out. traversal_loop T p = Some out \<and> map fst out = keys t"
proof (induction t arbitrary: up p)
  case Lf
  then show ?case by (subst traversal_loop.simps) simp
next
  case (Nd l a c k r)
  then obtain o1 o2 where o: "traversal_loop T (left T a) = Some o1" "map fst o1 = keys l" "traversal_loop T (right T a) = Some o2" "map fst o2 = keys r"
    by (metis tree_at.simps(2))
  have "traversal_loop T p = Some (o1 @ (key T a, color T a) # o2)" using Nd.prems o by (subst traversal_loop.simps) simp
  then show ?case using o Nd.prems by auto
qed

lemma height_size:
  assumes "rb_rep T t"
  shows "2 ^ rb_height t \<le> (card (set (addrs t)) + 1)\<^sup>2"
proof -
  have i: "invc t" "invh t" "black t" using assms by (auto simp: rb_rep_def)
  have n: "length (keys t) = card (set (addrs t))" using rb_rep_keys [OF assms] distinct_card by (metis length_map)
  have "(2::nat) ^ rb_height t \<le> 2 ^ (2 * bheight t)" using height_bheight i by (intro power_increasing) fastforce+
  also have "\<dots> = (2 ^ bheight t)\<^sup>2" by (simp add: power_mult power2_eq_square power_add mult_2)
  also have "\<dots> \<le> (length (keys t) + 1)\<^sup>2" using bheight_size i by (intro power_mono) auto
  finally show ?thesis using n by simp
qed

section \<open>Walking in order\<close>

lemma maxi_ok: "tree_at T up x t \<Longrightarrow> t \<noteq> Lf \<Longrightarrow> maxi_loop T x = Some (last (addrs t))"
proof (induction t arbitrary: up x)
  case (Nd l a c k r)
  then have x: "x = a" "tree_at T a (right T a) r" by auto
  show ?case
  proof (cases "r = Lf")
    case True
    then show ?thesis using x by (subst maxi_loop.simps) simp
  next
    case False
    then have "right T a \<noteq> nil T" "addrs r \<noteq> []" using x by (cases r; auto)+
    then show ?thesis using Nd.IH(2) [OF x(2) False] x by (subst maxi_loop.simps) simp
  qed
qed simp

lemma mini_addr: "tree_at T up x t \<Longrightarrow> t \<noteq> Lf \<Longrightarrow> mini_loop T x = Some (hd (addrs t))"
proof (induction t arbitrary: up x)
  case (Nd l a c k r)
  then have x: "x = a" "tree_at T a (left T a) l" by auto
  show ?case
  proof (cases "l = Lf")
    case True
    then show ?thesis using x by (subst mini_loop.simps) simp
  next
    case False
    then have "left T a \<noteq> nil T" "addrs l \<noteq> []" using x by (cases l; auto)+
    then show ?thesis using Nd.IH(1) [OF x(2) False] x by (subst mini_loop.simps) simp
  qed
qed simp

text \<open>Going up from a subtree finds the first node behind it in order, or the sentinel.\<close>

lemma ascend_ok:
  assumes "at_pos T t ss x up" "t \<noteq> Lf"
  shows "\<exists>A B. addrs (plug t ss) = A @ addrs t @ B \<and> ascend_loop T x up = Some (case B of [] \<Rightarrow> nil T | b # _ \<Rightarrow> b)"
  using assms
proof (induction ss arbitrary: t x up)
  case Nil
  then have "ascend_loop T x up = Some (nil T)" by (subst ascend_loop.simps) (simp add: at_pos_def)
  then show ?case by (intro exI [of _ "[]"]) simp
next
  case (Cons s ss)
  note side = path_side [OF Cons.prems]
  show ?case
  proof (cases s)
    case (LStep a c k r)
    then have a: "up = a" using at_pos_step(1) [OF Cons.prems(1)] by simp
    have "ascend_loop T x up = Some a" using side(1,3) a LStep by (subst ascend_loop.simps) simp
    moreover obtain A B where "addrs (plug (Nd t a c k r) ss) = A @ addrs (Nd t a c k r) @ B" using plug_lists by metis
    ultimately show ?thesis using LStep by (intro exI [of _ A] exI [of _ "a # addrs r @ B"]) simp
  next
    case (RStep l a c k)
    then have a: "up = a" using at_pos_step(1) [OF Cons.prems(1)] by simp
    have "ascend_loop T x up = ascend_loop T a (parent T a)" using side(1,3) a RStep by (subst ascend_loop.simps) simp
    moreover obtain A B where "addrs (plug (Nd l a c k t) ss) = A @ addrs (Nd l a c k t) @ B"
      "ascend_loop T a (parent T a) = Some (case B of [] \<Rightarrow> nil T | b # _ \<Rightarrow> b)"
      using Cons.IH [OF at_pos_up [OF Cons.prems(1)]] RStep a by auto
    ultimately show ?thesis using RStep by (intro exI [of _ "A @ addrs l @ [a]"] exI [of _ B]) simp
  qed
qed

lemma successor_ok:
  assumes "at_pos T t [] (root T) (nil T)" "z \<in> set (addrs t)"
  shows "\<exists>A B. addrs t = A @ z # B \<and> rbtree_successor T z = Ok (case B of [] \<Rightarrow> nil T | b # _ \<Rightarrow> b)"
proof -
  obtain l c k r ss up where p: "at_pos T (Nd l z c k r) ss z up" "plug (Nd l z c k r) ss = t" using find_pos [OF assms] by auto
  have up: "parent T z = up" and r: "tree_at T z (right T z) r" using p(1) by (auto simp: at_pos_def)
  obtain A B where ab: "addrs t = A @ addrs (Nd l z c k r) @ B" "ascend_loop T z up = Some (case B of [] \<Rightarrow> nil T | b # _ \<Rightarrow> b)"
    using ascend_ok [OF p(1)] p(2) by auto
  show ?thesis
  proof (cases "r = Lf")
    case True
    then have "rbtree_successor T z = Ok (case B of [] \<Rightarrow> nil T | b # _ \<Rightarrow> b)" using r ab(2) up by (simp add: rbtree_successor_def)
    then show ?thesis using ab(1) True by (intro exI [of _ "A @ addrs l"] exI [of _ B]) simp
  next
    case False
    then obtain b rest where b: "addrs r = b # rest" by (cases "addrs r") (cases r; auto)+
    have "right T z \<noteq> nil T" using r False by (cases r) auto
    then have "rbtree_successor T z = Ok b" using mini_addr [OF r False] b by (simp add: rbtree_successor_def rbtree_mini_def)
    then show ?thesis using ab(1) b by (intro exI [of _ "A @ addrs l"] exI [of _ "addrs r @ B"]) simp
  qed
qed

text \<open>In a sorted list the element behind another is the least greater one.\<close>

definition least_above :: "('a \<Rightarrow> int) \<Rightarrow> 'a set \<Rightarrow> int \<Rightarrow> 'a \<Rightarrow> bool" where
  "least_above f A k s \<longleftrightarrow> s \<in> A \<and> k < f s \<and> (\<forall>a \<in> A. k < f a \<longrightarrow> f s \<le> f a)"

lemma next_is_least:
  assumes "sorted_wrt (<) (map f (A @ z # B))"
  shows "if \<exists>a \<in> set (A @ z # B). f z < f a then least_above f (set (A @ z # B)) (f z) (case B of [] \<Rightarrow> n | b # _ \<Rightarrow> b)
    else (case B of [] \<Rightarrow> n | b # _ \<Rightarrow> b) = n"
  using assms by (cases B) (force simp: sorted_wrt_append least_above_def)+

section \<open>Search, traversal and the program\<close>

lemma rb_built_search:
  assumes "rb_built T A m"
  shows "returns (rbtree_search T k) (\<lambda>a. case m k of None \<Rightarrow> a = nil T | Some v \<Rightarrow> a \<in> A \<and> key T a = k \<and> val T a = v)"
proof -
  obtain t where t: "rb_rep T t" "set (addrs t) = A" "rb_map T A m" using rb_built_rep [OF assms] by blast
  have tree: "tree_at T (nil T) (root T) t" and b: "bst t" using t(1) by (auto simp: rb_rep_def at_pos_def)
  have dom: "dom m = set (keys t)" using rb_map_dom [OF t(3)] rb_rep_keys(1) [OF t(1)] t(2) by simp
  obtain a where a: "search_loop T k (root T) = Some a" "if k \<in> dom m then a \<in> A \<and> key T a = k else a = nil T"
    using search_loop_ok [OF tree b, of k] t(2) dom by auto
  have "case m k of None \<Rightarrow> a = nil T | Some v \<Rightarrow> a \<in> A \<and> key T a = k \<and> val T a = v"
  proof (cases "k \<in> dom m")
    case True
    then have "m k = Some (val T a)" using a(2) t(3) by (auto simp: rb_map_def)
    then show ?thesis using a(2) True by simp
  next
    case False
    then show ?thesis using a(2) by (simp add: domIff)
  qed
  then show ?thesis using a(1) by (simp add: rbtree_search_def)
qed

lemma rb_built_traversal:
  assumes "rb_built T A m"
  shows "returns (rbtree_traversal T (root T)) (\<lambda>out. map fst out = sorted_list_of_set (dom m))"
proof -
  obtain t where t: "rb_rep T t" "set (addrs t) = A" "rb_map T A m" using rb_built_rep [OF assms] by blast
  have tree: "tree_at T (nil T) (root T) t" and b: "bst t" using t(1) by (auto simp: rb_rep_def at_pos_def)
  have dom: "dom m = set (keys t)" using rb_map_dom [OF t(3)] rb_rep_keys(1) [OF t(1)] t(2) by simp
  obtain out where "traversal_loop T (root T) = Some out" "map fst out = keys t" using traversal_ok [OF tree] by blast
  moreover have "keys t = sorted_list_of_set (dom m)" unfolding dom using b by (simp add: bst_def strict_sorted_equal)
  ultimately show ?thesis by (simp add: rbtree_traversal_def)
qed

lemma insert_keys_ok:
  assumes "rb_built T A m" "nil T < brk" "\<forall>a \<in> A. a < brk"
  shows "\<exists>T' A' m'. insert_keys T brk ks = Ok T' \<and> rb_built T' A' m' \<and> dom m' = dom m \<union> set ks"
  using assms
proof (induction ks arbitrary: T A m brk)
  case (Cons k ks)
  obtain t where t: "rb_rep T t" "set (addrs t) = A" "rb_map T A m" using rb_built_rep [OF Cons.prems(1)] by blast
  have z: "brk \<notin> A" "brk \<noteq> nil T" using Cons.prems by auto
  obtain T' where T': "rbtree_insert (T\<lparr>key := (key T)(brk := k), val := (val T)(brk := ())\<rparr>) brk = Ok T'" "nil T' = nil T"
    using rb_insert_ok [OF t z refl, where k = k and v = "()"] by blast
  let ?A = "if k \<in> dom m then A else insert brk A" and ?m = "if k \<in> dom m then m else m(k \<mapsto> ())"
  have "rb_built T' ?A ?m" by (rule rb_insert [OF Cons.prems(1) z T'(1)])
  moreover have "nil T' < brk + 1" "\<forall>a \<in> ?A. a < brk + 1" using Cons.prems(2,3) T'(2) by auto
  ultimately obtain T2 A2 m2 where T2: "insert_keys T' (brk + 1) ks = Ok T2" "rb_built T2 A2 m2" "dom m2 = dom ?m \<union> set ks"
    using Cons.IH by blast
  have "insert_keys T brk (k # ks) = Ok T2" using T'(1) T2(1) by simp
  moreover have "dom m2 = dom m \<union> set (k # ks)" unfolding T2(3) by auto
  ultimately show ?case using T2(2) by blast
qed auto

lemma delete_keys_ok:
  assumes "rb_built T A m" "dom m = set ks" "distinct ks"
  shows "returns (delete_keys T ks) (\<lambda>outs. map (map fst) outs = map (\<lambda>i. sorted_list_of_set (set (drop (Suc i) ks))) [0..<length ks])"
  using assms
proof (induction ks arbitrary: T A m)
  case (Cons k ks)
  obtain t where t: "rb_rep T t" "set (addrs t) = A" "rb_map T A m" using rb_built_rep [OF Cons.prems(1)] by blast
  have "k \<in> dom m" using Cons.prems(2) by simp
  then obtain a where a: "rbtree_search T k = Ok a" "a \<in> A" "key T a = k"
    using rb_built_search [OF Cons.prems(1), of k] by (auto simp: returns_def)
  obtain T' y where d: "rbtree_delete T a = Ok (T', y)" using rb_delete_ok [OF t a(2)] by blast
  have T': "rb_built T' (A - {y}) (m(k := None))" using rb_delete [OF Cons.prems(1) a(2) d] a(3) by simp
  have dom: "dom (m(k := None)) = set ks" using Cons.prems(2,3) by auto
  obtain out where out: "rbtree_traversal T' (root T') = Ok out" "map fst out = sorted_list_of_set (set ks)"
    using rb_built_traversal [OF T'] unfolding dom by (auto simp: returns_def)
  obtain outs where outs: "delete_keys T' ks = Ok outs" "map (map fst) outs = map (\<lambda>i. sorted_list_of_set (set (drop (Suc i) ks))) [0..<length ks]"
    using Cons.IH [OF T' dom] Cons.prems(3) by (auto simp: returns_def)
  have "map (\<lambda>i. sorted_list_of_set (set (drop (Suc i) (k # ks)))) [0..<length (k # ks)] =
    sorted_list_of_set (set ks) # map (\<lambda>i. sorted_list_of_set (set (drop (Suc i) ks))) [0..<length ks]"
    by (simp add: map_upt_Suc del: upt_Suc)
  then show ?case using a(1) d out outs by simp
qed simp

section \<open>The properties\<close>

lemma rb_built_grow:
  assumes "rb_built T A m" "z \<notin> A" "z \<noteq> nil T" "k \<notin> dom m"
  shows "\<exists>T'. rb_built T' (insert z A) (m(k \<mapsto> v)) \<and> nil T' = nil T"
proof -
  obtain t where t: "rb_rep T t" "set (addrs t) = A" "rb_map T A m" using rb_built_rep [OF assms(1)] by blast
  obtain T' where T': "rbtree_insert (T\<lparr>key := (key T)(z := k), val := (val T)(z := v)\<rparr>) z = Ok T'" "nil T' = nil T"
    using rb_insert_ok [OF t assms(2,3) refl, where k = k and v = v] by blast
  show ?thesis using rb_insert [OF assms(1-3) T'(1)] T'(2) assms(4) by auto
qed

text \<open>A tree of three nodes at the addresses 1, 2 and 3, whose sentinel is at address 0.\<close>

lemma three_nodes: "\<exists>T :: char rbtree. rb_built T {3, 2, 1} [7 \<mapsto> CHR ''a'', 9 \<mapsto> CHR ''b'', 11 \<mapsto> CHR ''c''] \<and> nil T = 0"
proof -
  let ?T = "\<lparr>root = 0, nil = 0, color = \<lambda>_. BLACK, right = \<lambda>_. 0, left = \<lambda>_. 0, parent = \<lambda>_. 0, key = \<lambda>_. 0, val = \<lambda>_. CHR ''x''\<rparr> :: char rbtree"
  have "rb_built ?T {} Map.empty" by (rule rb_empty) simp_all
  from rb_built_grow [OF this, of 1 7 "CHR ''a''"] obtain T1 :: "char rbtree" where T1: "rb_built T1 {1} [7 \<mapsto> CHR ''a'']" "nil T1 = 0" by auto
  from rb_built_grow [OF T1(1), of 2 9 "CHR ''b''"] T1(2) obtain T2 :: "char rbtree" where T2: "rb_built T2 {2, 1} [7 \<mapsto> CHR ''a'', 9 \<mapsto> CHR ''b'']" "nil T2 = 0" by auto
  from rb_built_grow [OF T2(1), of 3 11 "CHR ''c''"] T2(2) show ?thesis by auto
qed

text \<open>
  C1: Every tree that insertions and deletions can build, from the empty one, is a binary search
  tree over exactly the nodes the client has put in and not taken out, with parent pointers and
  sentinel in order, no red node below a red node, the same number of black nodes on every path and
  a black root; it holds exactly the entries of the map, and its height is at most twice the
  logarithm of the number of its nodes.
\<close>

theorem rbtree_stays_red_black:
  assumes "rb_built T A m"
  shows "\<exists>t. rb_rep T t \<and> set (addrs t) = A \<and> (\<forall>k v. m k = Some v \<longleftrightarrow> (\<exists>a \<in> A. key T a = k \<and> val T a = v)) \<and>
    2 ^ rb_height t \<le> (card A + 1)\<^sup>2"
proof -
  obtain t where t: "rb_rep T t" "set (addrs t) = A" "rb_map T A m" using rb_built_rep [OF assms] by blast
  moreover have "2 ^ rb_height t \<le> (card A + 1)\<^sup>2" using height_size [OF t(1)] t(2) by simp
  ultimately show ?thesis unfolding rb_map_def by blast
qed

theorem rbtree_stays_red_black_witness:
  "\<exists>(T :: char rbtree) t. rb_built T {3, 2, 1} [7 \<mapsto> CHR ''a'', 9 \<mapsto> CHR ''b'', 11 \<mapsto> CHR ''c''] \<and> rb_rep T t \<and> set (addrs t) = {3, 2, 1} \<and> 2 ^ rb_height t \<le> (16::nat)"
proof -
  obtain T :: "char rbtree" where T: "rb_built T {3, 2, 1} [7 \<mapsto> CHR ''a'', 9 \<mapsto> CHR ''b'', 11 \<mapsto> CHR ''c'']" using three_nodes by blast
  from rbtree_stays_red_black [OF this] obtain t where
    t: "rb_rep T t" "set (addrs t) = {3, 2, 1}" "2 ^ rb_height t \<le> (card {3, 2, 1 :: nat} + 1)\<^sup>2" by blast
  have "card {3, 2, 1 :: nat} = 3" by simp
  then have "2 ^ rb_height t \<le> (16::nat)" using t(3) by (simp add: power2_eq_square)
  then show ?thesis using T t(1,2) by blast
qed

text \<open>
  C13: On such a tree the loops of insertion and deletion end: inserting a node that is not in the
  tree returns, and deleting any node of the tree returns, with a node of the tree to be freed.
\<close>

theorem rbtree_operations_return:
  assumes "rb_built T A m"
  shows "(\<forall>z k v. z \<notin> A \<longrightarrow> z \<noteq> nil T \<longrightarrow> (\<exists>T'. rbtree_insert (T\<lparr>key := (key T)(z := k), val := (val T)(z := v)\<rparr>) z = Ok T')) \<and>
    (\<forall>z \<in> A. \<exists>T' y. rbtree_delete T z = Ok (T', y) \<and> y \<in> A)"
proof -
  obtain t where t: "rb_rep T t" "set (addrs t) = A" "rb_map T A m" using rb_built_rep [OF assms] by blast
  show ?thesis using rb_insert_ok [OF t _ _ refl] rb_delete_ok [OF t] by (intro conjI allI impI ballI) blast+
qed

theorem rbtree_operations_return_witness:
  "\<exists>(T :: char rbtree) T1 T2 y. rb_built T {3, 2, 1} [7 \<mapsto> CHR ''a'', 9 \<mapsto> CHR ''b'', 11 \<mapsto> CHR ''c''] \<and>
    rbtree_insert (T\<lparr>key := (key T)(4 := 8), val := (val T)(4 := CHR ''d'')\<rparr>) 4 = Ok T1 \<and> rbtree_delete T 2 = Ok (T2, y) \<and> y \<in> {3, 2, 1}"
proof -
  obtain T :: "char rbtree" where T: "rb_built T {3, 2, 1} [7 \<mapsto> CHR ''a'', 9 \<mapsto> CHR ''b'', 11 \<mapsto> CHR ''c'']" "nil T = 0" using three_nodes by blast
  note r = rbtree_operations_return [OF T(1)]
  have "\<exists>T1. rbtree_insert (T\<lparr>key := (key T)(4 := 8), val := (val T)(4 := CHR ''d'')\<rparr>) 4 = Ok T1" using conjunct1 [OF r] T(2) by simp
  moreover have "\<exists>T2 y. rbtree_delete T 2 = Ok (T2, y) \<and> y \<in> {3, 2, 1}" using conjunct2 [OF r] by blast
  ultimately show ?thesis using T(1) by blast
qed

text \<open>
  C12: \<open>rbtree_search\<close> returns the node that holds a key, with the value the map has for it, or the
  sentinel when the map does not have the key; \<open>rbtree_traversal\<close> prints every key once, in order.
\<close>

theorem rbtree_search_finds:
  assumes "rb_built T A m"
  shows "returns (rbtree_search T k) (\<lambda>a. case m k of None \<Rightarrow> a = nil T | Some v \<Rightarrow> a \<in> A \<and> key T a = k \<and> val T a = v) \<and>
    returns (rbtree_traversal T (root T)) (\<lambda>out. map fst out = sorted_list_of_set (dom m))"
  using rb_built_search [OF assms] rb_built_traversal [OF assms] by blast

theorem rbtree_search_finds_witness:
  "\<exists>(T :: char rbtree) a. rb_built T {3, 2, 1} [7 \<mapsto> CHR ''a'', 9 \<mapsto> CHR ''b'', 11 \<mapsto> CHR ''c''] \<and> rbtree_search T 9 = Ok a \<and> key T a = 9 \<and> val T a = CHR ''b'' \<and>
    rbtree_search T 8 = Ok (nil T)"
proof -
  obtain T :: "char rbtree" where T: "rb_built T {3, 2, 1} [7 \<mapsto> CHR ''a'', 9 \<mapsto> CHR ''b'', 11 \<mapsto> CHR ''c'']" using three_nodes by blast
  show ?thesis using conjunct1 [OF rbtree_search_finds [OF T, of 9]] conjunct1 [OF rbtree_search_finds [OF T, of 8]] T
    by (auto simp: returns_def)
qed

text \<open>
  From any node of the tree \<open>rbtree_successor\<close> finds the node with the least greater key, or the
  sentinel from the last one, and \<open>rbtree_mini\<close> and \<open>rbtree_maxi\<close> find the ends of the order.
\<close>

lemma rbtree_walks_in_order:
  assumes "rb_built T A m" and z: "z \<in> A"
  shows "returns (rbtree_successor T z) (\<lambda>s. if \<exists>a \<in> A. key T z < key T a then least_above (key T) A (key T z) s else s = nil T) \<and>
    returns (rbtree_mini T (root T)) (\<lambda>s. s \<in> A \<and> (\<forall>a \<in> A. key T s \<le> key T a)) \<and>
    returns (rbtree_maxi T (root T)) (\<lambda>s. s \<in> A \<and> (\<forall>a \<in> A. key T a \<le> key T s))"
proof -
  obtain t where t: "rb_rep T t" "set (addrs t) = A" "rb_map T A m" using rb_built_rep [OF assms(1)] by blast
  have at: "at_pos T t [] (root T) (nil T)" and tree: "tree_at T (nil T) (root T) t" using t(1) by (auto simp: rb_rep_def at_pos_def)
  have s: "sorted_wrt (<) (map (key T) (addrs t))" using t(1) rb_rep_keys(1) [OF t(1)] by (simp add: rb_rep_def bst_def)
  have "z \<in> set (addrs t)" using z t(2) by simp
  from successor_ok [OF at this] obtain B C where bc: "addrs t = B @ z # C" "rbtree_successor T z = Ok (case C of [] \<Rightarrow> nil T | c # _ \<Rightarrow> c)" by blast
  have ne: "addrs t \<noteq> []" "t \<noteq> Lf" using bc(1) by auto
  have "returns (rbtree_successor T z) (\<lambda>s. if \<exists>a \<in> A. key T z < key T a then least_above (key T) A (key T z) s else s = nil T)"
    using next_is_least [of "key T" B z C "nil T", folded bc(1), OF s, unfolded t(2)] bc(2) by simp
  moreover have "hd (addrs t) \<in> A \<and> (\<forall>a \<in> A. key T (hd (addrs t)) \<le> key T a)" using s ne(1) t(2) by (cases "addrs t") auto
  moreover have "last (addrs t) \<in> A \<and> (\<forall>a \<in> A. key T a \<le> key T (last (addrs t)))"
    using s ne(1) t(2) by (cases "addrs t" rule: rev_cases) (auto simp: sorted_wrt_append)
  ultimately show ?thesis using mini_addr [OF tree ne(2)] maxi_ok [OF tree ne(2)] by (simp add: rbtree_mini_def rbtree_maxi_def)
qed

text \<open>
  C14: The program, run with distinct keys in whatever memory it finds, returns; it prints all keys in
  order, and after every deletion the keys that are left, in order.
\<close>

theorem rbtree_main_prints:
  assumes "distinct ks"
  shows "returns (rbtree_main T brk ks) (\<lambda>outs. map (map fst) outs =
    sorted_list_of_set (set ks) # map (\<lambda>i. sorted_list_of_set (set (drop (Suc i) ks))) [0..<length ks])"
proof -
  let ?T = "set_color brk BLACK (T\<lparr>nil := brk, root := brk\<rparr>)"
  have "rb_built ?T {} Map.empty" by (rule rb_empty) simp_all
  then obtain T' A m where T': "insert_keys ?T (brk + 1) ks = Ok T'" "rb_built T' A m" "dom m = set ks"
    using insert_keys_ok [of ?T "{}" Map.empty "brk + 1" ks] by auto
  obtain out where "rbtree_traversal T' (root T') = Ok out" "map fst out = sorted_list_of_set (set ks)"
    using rb_built_traversal [OF T'(2)] T'(3) by (auto simp: returns_def)
  then show ?thesis using T'(1) delete_keys_ok [OF T'(2,3) assms] by (auto simp: rbtree_main_def returns_def)
qed

theorem rbtree_main_prints_witness:
  "\<exists>outs. rbtree_main \<lparr>root = 0, nil = 0, color = \<lambda>_. RED, right = \<lambda>_. 0, left = \<lambda>_. 0, parent = \<lambda>_. 0, key = \<lambda>_. 0, val = \<lambda>_. ()\<rparr> 1 keyArray = Ok outs \<and>
    length outs = 21 \<and> map fst (hd outs) = [9, 12, 13, 14, 15, 17, 18, 19, 20, 21, 23, 24, 25, 26, 35, 38, 47, 49, 67, 98]"
proof -
  let ?T = "\<lparr>root = 0, nil = 0, color = \<lambda>_. RED, right = \<lambda>_. 0, left = \<lambda>_. 0, parent = \<lambda>_. 0, key = \<lambda>_. 0, val = \<lambda>_. ()\<rparr> :: unit rbtree"
  have "distinct keyArray" by (simp add: keyArray_def)
  from rbtree_main_prints [OF this, of ?T 1] obtain outs where o: "rbtree_main ?T 1 keyArray = Ok outs"
    "map (map fst) outs = sorted_list_of_set (set keyArray) # map (\<lambda>i. sorted_list_of_set (set (drop (Suc i) keyArray))) [0..<length keyArray]"
    by (auto simp: returns_def)
  have "length (map (map fst) outs) = 21" unfolding o(2) by (simp add: keyArray_def)
  moreover have "map fst (hd outs) = sorted_list_of_set (set keyArray)" using o(2) by (cases outs) auto
  moreover have "sorted_list_of_set (set keyArray) = [9, 12, 13, 14, 15, 17, 18, 19, 20, 21, 23, 24, 25, 26, 35, 38, 47, 49, 67, 98]"
    unfolding sorted_list_of_set_sort_remdups by (simp add: keyArray_def)
  ultimately show ?thesis using o(1) by auto
qed

end
