(* ===== verification/Spec2Isabelle.thy ===== *)
theory Spec2Isabelle
  imports Stringops Argv Base64 Hexcode Midna Cidr Ip_match Mac_meaning Name_mask Events Rbtree_map
begin

text \<open>
  A verification of the self-contained parts of LinuxCodeDemos: the data structures, codecs, parsers
  and tables of the utility library under \<open>src/util\<close>, and the red-black tree of \<open>src/linuxdemo\<close>.

  \<^bold>\<open>The parts and how they interact.\<close> The library builds in layers. \<open>vbuf.c\<close> is a generic buffer whose
  call-backs \<open>vstring.c\<close> supplies to make strings that grow; \<open>vbuf_print.c\<close> formats into such a buffer
  and is the base of the \<open>sprintf\<close> family; the codecs (\<open>base64_code.c\<close>, \<open>base32_code.c\<close>, \<open>hex_code.c\<close>,
  \<open>hex_quote.c\<close>, \<open>unescape.c\<close>) append to strings character by character. \<open>argv.c\<close> keeps arrays of strings
  and its splitters use the tokenizers of \<open>mystrtok.c\<close>. \<open>htable.c\<close> and \<open>binhash.c\<close> are hash tables,
  \<open>nvtable.c\<close> a client of the first, \<open>ring.c\<close> a circular list, and \<open>ctable.c\<close> a cache made of a hash table
  and a ring. \<open>events.c\<close> keeps its timers in a ring too and calls the application back when they are due.
  \<open>midna_domain.c\<close> holds two such caches of converted domain names, \<open>valid_utf8_hostname.c\<close>
  and \<open>host_port.c\<close> use it with the checks of \<open>valid_hostname.c\<close> and \<open>valid_utf8_string.c\<close>. \<open>readlline.c\<close>
  cuts a file into logical lines, from which \<open>dict_cidr.c\<close> builds tables of the patterns of
  \<open>cidr_match.c\<close> and \<open>mask_addr.c\<close>. \<open>ip_match.c\<close> compiles another kind of address patterns to byte codes
  and runs them. \<open>mac_parse.c\<close> cuts a text into literal parts and macro references for a call-back, and
  \<open>mac_expand.c\<close> is such a call-back, which calls the parser again; it finds its operators with
  \<open>name_code.c\<close>. \<open>name_mask.c\<close> translates lists of names to sets of bits and back, and \<open>rbtree.c\<close> stands alone.

  \<^bold>\<open>How the code is modelled.\<close> Every theory follows the source file by file and function by function
  and keeps its names. Structures are records; pointer structures live in explicit stores that map
  addresses to nodes, so that links, sharing and removal are those of the code. A computation is a
  value of type \<open>outcome\<close> of \<^verbatim>\<open>Util_Prelude\<close>: a result, the text of a fatal error or of a panic,
  a fault (an access outside a block, or another step without a meaning in C), or no return at all. Every \<open>msg_fatal\<close>, \<open>msg_panic\<close> and out-of-bounds access is a branch.
  Lengths of buffers are integers with the limit of \<open>ssize_t\<close> written out; where a caller's argument can make
  a sum or a negation overflow (\<open>argv_delete\<close>, \<open>vstring_truncate\<close>, \<open>vstring_insert\<close>), the overflow is a fault. Address bytes are words of
  eight bits, characters are bytes.

  \<^bold>\<open>The theories.\<close>

  \<^item> \<^verbatim>\<open>Util_Prelude\<close>: outcomes and the predicate \<open>returns\<close>, character classes, bits, field splitting and the
    locales \<open>legal_simulation\<close> and \<open>simulation\<close>, which lift a step-by-step refinement to sequences of operations.
  \<^item> \<^verbatim>\<open>Vbuf\<close>, \<^verbatim>\<open>Vstring\<close>, \<^verbatim>\<open>Vbuf_print\<close>: buffers, strings, formatted output. The lemmas
    give for every operation the list operation on the contents and the preserved layout; growth never
    loses contents; the space estimates of the formatter suffice, and a text longer than an \<open>int\<close> is its panic.
  \<^item> \<^verbatim>\<open>Stringops\<close>, \<^verbatim>\<open>Argv\<close>: text helpers, tokenizers and string arrays as list operations.
  \<^item> \<^verbatim>\<open>Codec\<close>, \<^verbatim>\<open>Base64\<close>, \<^verbatim>\<open>Hexcode\<close>: encoders and decoders with their round trips.
  \<^item> \<^verbatim>\<open>Hash_table\<close>, \<^verbatim>\<open>Htable\<close>: the chained hash table for both kinds of keys, its refinement
    of a finite map over any sequence of operations, name-value tables and the iterator.
  \<^item> \<^verbatim>\<open>Ring\<close>, \<^verbatim>\<open>Ctable\<close>: rings, and the cache as a refinement of a list in order of use, with the
    calls of the application in the order of the code.
  \<^item> \<^verbatim>\<open>Events\<close>: the timer queue and the delivery loop of the event manager. It refines an agenda, a sorted list
    of requests, for any sequence of operations and any call-backs that request and cancel timers themselves;
    a turn of the loop ends and delivers what was due when it began.
  \<^item> \<^verbatim>\<open>Hostname\<close>, \<^verbatim>\<open>Midna\<close>: the syntax checks characterised by grammars, the cached conversions
    shown to be transparent, and the host and port parser.
  \<^item> \<^verbatim>\<open>Readlline\<close>, \<^verbatim>\<open>Cidr\<close>: logical lines, address masks, patterns, and tables with nested
    conditional blocks, whose linked rules are related to a structured reading of the list of rules.
  \<^item> \<^verbatim>\<open>Ip_match\<close>: wild-card address patterns; the compiler, the engine and the printer agree with the
    meaning of the abstract syntax, and what the parser accepts runs safely.
  \<^item> \<^verbatim>\<open>Mac_parse\<close>, \<^verbatim>\<open>Mac_expand\<close>, \<^verbatim>\<open>Mac_meaning\<close>: the macro parser characterised by the pieces of its
    texts; the expansion with its bounds on nesting, where it ends and where it does not; and the meaning
    of an abstract syntax, which expansion computes.
  \<^item> \<^verbatim>\<open>Name_mask\<close>: names for bits at both widths, with the round trip from a mask to names and numbers and back.
  \<^item> \<^verbatim>\<open>Rbtree\<close>, \<^verbatim>\<open>Rbtree_insert\<close>, \<^verbatim>\<open>Rbtree_delete\<close>, \<^verbatim>\<open>Rbtree_map\<close>: the red-black tree with
    parent pointers and sentinel, related to functional trees by a zipper; both repair loops, and the
    tree as a map under any sequence of insertions and deletions.

  \<^bold>\<open>Loops.\<close> Loops over text or over a counter are structural or have a
  termination proof. Loops that follow pointers, and the mutual calls of \<open>VBUF_PUT\<close> and \<open>vbuf_put\<close>, are
  partial functions into the option type, whose value \<open>None\<close> is a computation that never returns; the
  theorems then state that the functions return. The call-back of the macro expansion and the parser call
  each other; only there is the depth of the stack an argument, running out of it is the outcome of a call that
  does not return, and the depth that is enough is proved to be the length of the pattern, and 102 more
  when values are expanded too.

  \<^bold>\<open>What is left open.\<close> The calls of the ICU library and \<open>inet_pton\<close> are arguments with named assumptions;
  the constructor and destructor of a cache, the lookup routine of the macro expansion, the call-backs of timers
  and the times that \<open>time()\<close> returns are arguments. Of the event manager only the timers are modelled; what
  happens on descriptors is an input of its loop. Allocation does not fail; \<open>char\<close> is unsigned
  where the code casts it; floating point values and pointers in formats are opaque texts; log messages and
  the \<open>gripe\<close> arguments that enable them are left out; opening and closing of files is left out.

  \<^bold>\<open>Not modelled.\<close> The rest of \<open>src/util\<close> consists of wrappers around system calls (streams, sockets,
  processes, signals, files), of dictionary backends over external databases and services, of logging,
  and of a few short helpers: case folding and comparison by the ICU library, line wrapping, base names of paths,
  directory hashing and growing vectors. \<open>dbus\<close>, \<open>libevent\<close> and \<open>picoc\<close> are copies of programs that
  are maintained elsewhere. The other directories hold drivers that call one library or kernel interface.
\<close>

end
